(* ===== verification/Prelude.thy ===== *)
theory Prelude
  imports Main "HOL-Library.Word" "HOL-Library.Monad_Syntax"
begin

text \<open>
  What the components share: the C types and characters, C strings as they lie in memory,
  the decimal text that \<open>printf\<close> writes for \<open>%d\<close>, pointers and heaps, and small lemmas on
  lists, maps and words. A call that does not return normally (a bad dereference, an access
  outside an array, undefined arithmetic, a spin that never ends) is the value \<open>None\<close> of an
  option; everything the code does return, its error codes included, is under \<open>Some\<close>.
\<close>

unbundle bit_operations_syntax

named_theorems cdefs \<open>definitions of the model that its component proofs unfold\<close>
named_theorems heap_simps \<open>reads and writes of heap cells\<close>

type_synonym byte = "8 word"
type_synonym u16 = "16 word"
type_synonym u32 = "32 word"

type_synonym addr = nat
type_synonym ptr = "addr option"  \<comment> \<open>\<open>None\<close> is the NULL pointer\<close>

section \<open>Characters and C strings\<close>

text \<open>A C character is a byte; \<open>ord_c\<close> reads it as an unsigned value.\<close>

abbreviation ord_c :: "char \<Rightarrow> nat" where
  "ord_c c \<equiv> of_char c"

abbreviation NUL :: char where
  "NUL \<equiv> CHR 0x00"

definition is_digit :: "char \<Rightarrow> bool" where
  "is_digit c \<longleftrightarrow> 48 \<le> ord_c c \<and> ord_c c \<le> 57"

definition digit_val :: "char \<Rightarrow> nat" where
  "digit_val c = ord_c c - 48"

definition digit_char :: "nat \<Rightarrow> char" where
  "digit_char d = char_of (48 + d)"

text \<open>
  Bytes in memory read as a C string: up to the first NUL. Without a NUL in the object the
  read runs past its end.
\<close>

definition c_string :: "string \<Rightarrow> string option" where
  "c_string mem = (if NUL \<in> set mem then Some (takeWhile (\<lambda>c. c \<noteq> NUL) mem) else None)"

text \<open>A value that a C string can hold: no NUL inside.\<close>

definition no_nul :: "string \<Rightarrow> bool" where
  "no_nul s \<longleftrightarrow> NUL \<notin> set s"

lemma c_string_terminated [simp]: "no_nul s \<Longrightarrow> c_string (s @ NUL # rest) = Some s"
  by (subst c_string_def, subst takeWhile_append2) (auto simp: no_nul_def)

lemma c_string_no_nul: "c_string mem = Some s \<Longrightarrow> no_nul s"
  by (auto simp: c_string_def no_nul_def dest: set_takeWhileD split: if_splits)

lemma c_string_None_iff: "c_string mem = None \<longleftrightarrow> no_nul mem"
  by (simp add: c_string_def no_nul_def)

lemma digit_char_digit: "d < 10 \<Longrightarrow> is_digit (digit_char d)"
  by (simp add: is_digit_def digit_char_def)

lemma digit_val_char [simp]: "d < 10 \<Longrightarrow> digit_val (digit_char d) = d"
  by (simp add: digit_val_def digit_char_def)

lemma digit_char_val [simp]: "is_digit c \<Longrightarrow> digit_char (digit_val c) = c"
  by (simp add: is_digit_def digit_val_def digit_char_def)

lemma digit_val_le: "is_digit c \<Longrightarrow> digit_val c \<le> 9"
  unfolding is_digit_def digit_val_def by arith

section \<open>Decimal text: \<open>printf\<close> with \<open>%d\<close>\<close>

fun show_nat :: "nat \<Rightarrow> string" where
  "show_nat n = (if n < 10 then [digit_char n] else show_nat (n div 10) @ [digit_char (n mod 10)])"

declare show_nat.simps [simp del]

definition show_int :: "int \<Rightarrow> string" where
  "show_int i = (if i < 0 then CHR ''-'' # show_nat (nat (- i)) else show_nat (nat i))"

text \<open>The value of a string of digits, read from the left.\<close>

definition dec_val_from :: "nat \<Rightarrow> string \<Rightarrow> nat" where
  "dec_val_from n ds = foldl (\<lambda>m c. m * 10 + digit_val c) n ds"

abbreviation dec_val :: "string \<Rightarrow> nat" where
  "dec_val ds \<equiv> dec_val_from 0 ds"

lemma dec_val_from_simps [simp]:
  "dec_val_from n [] = n"
  "dec_val_from n (c # ds) = dec_val_from (n * 10 + digit_val c) ds"
  "dec_val_from n (ds @ es) = dec_val_from (dec_val_from n ds) es"
  by (simp_all add: dec_val_from_def)

lemma show_nat_nonempty [simp]: "show_nat n \<noteq> []"
  by (subst show_nat.simps) simp

lemma show_nat_digits: "c \<in> set (show_nat n) \<Longrightarrow> is_digit c"
proof (induction n rule: show_nat.induct)
  case (1 n)
  then show ?case
    by (subst (asm) show_nat.simps) (auto simp: digit_char_digit split: if_splits)
qed

lemma dec_val_show_nat [simp]: "dec_val (show_nat n) = n"
proof (induction n rule: show_nat.induct)
  case (1 n)
  then show ?case by (subst show_nat.simps) simp
qed

lemma length_show_nat_byte: "n < 256 \<Longrightarrow> length (show_nat n) \<le> 3"
  by (simp add: show_nat.simps [of n] show_nat.simps [of "n div 10"] show_nat.simps [of "n div 10 div 10"])

lemma dec_val_from_ge: "n \<le> dec_val_from n ds"
proof (induction ds arbitrary: n)
  case (Cons c ds)
  have "n \<le> n * 10 + digit_val c" by simp
  also have "\<dots> \<le> dec_val_from n (c # ds)" using Cons by simp
  finally show ?case .
qed simp

lemma dec_val_from_bound: "\<forall>c \<in> set ds. is_digit c \<Longrightarrow> dec_val_from n ds < (n + 1) * 10 ^ length ds"
proof (induction ds arbitrary: n)
  case Nil
  then show ?case by simp
next
  case (Cons c ds)
  then have "dec_val_from (n * 10 + digit_val c) ds < (n * 10 + digit_val c + 1) * 10 ^ length ds"
    by simp
  also have "\<dots> \<le> ((n + 1) * 10) * 10 ^ length ds"
    using Cons.prems digit_val_le [of c] by (intro mult_right_mono) auto
  finally show ?case by (simp add: algebra_simps)
qed

lemma not_digit_nul [simp]: "\<not> is_digit NUL"
  by (simp add: is_digit_def)

lemma no_nul_show_nat [simp]: "no_nul (show_nat n)"
  using show_nat_digits not_digit_nul unfolding no_nul_def by blast

section \<open>Lists, options and words\<close>

lemma bind_Some_iff: "(Option.bind x f = Some y) \<longleftrightarrow> (\<exists>z. x = Some z \<and> f z = Some y)"
  by (cases x) auto

lemma last_snoc_tl: "xs \<noteq> [] \<Longrightarrow> tl xs \<noteq> [] \<Longrightarrow> last (tl xs) = last xs"
  by (cases xs) auto

lemma unat_of_nat_u32 [simp]: "n < 2 ^ 32 \<Longrightarrow> unat (of_nat n :: u32) = n"
  by (simp add: unat_of_nat)

lemma of_nat_u32_0 [simp]: "n < 2 ^ 32 \<Longrightarrow> (of_nat n :: u32) = 0 \<longleftrightarrow> n = 0"
  by (auto simp: word_of_nat_eq_0_iff dest: dvd_imp_le)

lemma sint_small:
  assumes "unat (n :: u32) < 2 ^ 31"
  shows "sint n = int (unat n)"
proof -
  have "uint n < 2 ^ 31"
    using assms unfolding uint_nat by (simp del: of_nat_unat)
  then have "signed_take_bit 31 (uint n) = uint n"
    by (intro signed_take_bit_int_eq_self order_trans [OF _ uint_ge_0]) simp_all
  then show ?thesis by (simp add: sint_uint)
qed

text \<open>A byte promoted to 32 bits, with its sign bits masked off, and bytes put side by side.\<close>

lemma unat_byte_less: "unat (b :: byte) < 256"
  using unsigned_less [of b] by simp

lemma byte_take: "take_bit 8 (scast (b :: byte) :: u32) = ucast b"
proof (rule bit_word_eqI)
  fix n :: nat
  have "min 7 n = n" if "n < 8" using that by simp
  then show "bit (take_bit 8 (scast b :: u32)) n \<longleftrightarrow> bit (ucast b :: u32) n"
    by (cases "n < 8") (auto simp: bit_simps dest: bit_imp_le_length)
qed

lemma byte_mask [simp]: "scast (b :: byte) AND (0xFF :: u32) = ucast b"
proof -
  have "(0xFF :: u32) = mask 8" by (simp add: mask_eq_exp_minus_1)
  then show ?thesis by (simp only: flip: take_bit_eq_mask) (simp add: byte_take)
qed

lemma byte_mask_at [simp]:
  "push_bit 8 (scast (b :: byte)) AND (0xFF00 :: u32) = push_bit 8 (ucast b)"
  "push_bit 16 (scast (b :: byte)) AND (0xFF0000 :: u32) = push_bit 16 (ucast b)"
  "push_bit 24 (scast (b :: byte)) AND (0xFF000000 :: u32) = push_bit 24 (ucast b)"
proof -
  have e: "(0xFF00 :: u32) = push_bit 8 0xFF" "(0xFF0000 :: u32) = push_bit 16 0xFF"
    "(0xFF000000 :: u32) = push_bit 24 0xFF" by simp_all
  show "push_bit 8 (scast (b :: byte)) AND (0xFF00 :: u32) = push_bit 8 (ucast b)"
    "push_bit 16 (scast (b :: byte)) AND (0xFF0000 :: u32) = push_bit 16 (ucast b)"
    "push_bit 24 (scast (b :: byte)) AND (0xFF000000 :: u32) = push_bit 24 (ucast b)"
    unfolding e by (simp_all only: byte_mask flip: push_bit_and)
qed

lemma byte_or: "(ucast (b :: byte) :: u32) OR push_bit 8 w = ucast b + push_bit 8 w"
  by (rule disjunctive_add [symmetric]) (auto simp: bit_simps dest: bit_imp_le_length)

lemma unat_ucast_byte [simp]: "unat (ucast (b :: byte) :: u32) = unat b"
  using unat_byte_less [of b] by (simp add: unsigned_ucast_eq take_bit_nat_eq_self)

lemma unat_byte_cons:
  "unat (w :: u32) < 2 ^ 24 \<Longrightarrow> unat (ucast (b :: byte) + push_bit 8 w) = unat b + 256 * unat w"
  using unat_byte_less [of b] by (simp add: push_bit_eq_mult unat_word_ariths)

lemma takeWhile_append_stop:
  "\<forall>x \<in> set xs. P x \<Longrightarrow> ys = [] \<or> \<not> P (hd ys) \<Longrightarrow> takeWhile P (xs @ ys) = xs"
  by (cases ys) (auto simp: takeWhile_append2)

lemma dropWhile_append_stop:
  "\<forall>x \<in> set xs. P x \<Longrightarrow> ys = [] \<or> \<not> P (hd ys) \<Longrightarrow> dropWhile P (xs @ ys) = ys"
  by (cases ys) (auto simp: dropWhile_append2)

text \<open>Bytes written into a buffer from an offset on; a write past its end is a fault.\<close>

definition write_at :: "'a list \<Rightarrow> nat \<Rightarrow> 'a list \<Rightarrow> 'a list option" where
  "write_at mem off bs =
     (if off + length bs \<le> length mem then Some (take off mem @ bs @ drop (off + length bs) mem) else None)"

lemma write_at_length: "write_at mem off bs = Some mem' \<Longrightarrow> length mem' = length mem"
  by (auto simp: write_at_def split: if_splits)

lemma write_at_nth:
  "write_at mem off bs = Some mem' \<Longrightarrow> i < length mem \<Longrightarrow>
     mem' ! i = (if off \<le> i \<and> i < off + length bs then bs ! (i - off) else mem ! i)"
  by (auto simp: write_at_def nth_append min_def split: if_splits)


section \<open>\<open>strstr\<close>\<close>

text \<open>Whether \<open>strstr(s, t)\<close> is not NULL.\<close>

fun strstr :: "string \<Rightarrow> string \<Rightarrow> bool" where
  "strstr [] t \<longleftrightarrow> t = []"
| "strstr (c # s) t \<longleftrightarrow> take (length t) (c # s) = t \<or> strstr s t"

lemma strstr_iff: "strstr s t \<longleftrightarrow> (\<exists>a b. s = a @ t @ b)"
proof (induction s)
  case (Cons c s)
  show ?case
  proof
    assume "strstr (c # s) t"
    then consider "take (length t) (c # s) = t" | "strstr s t" by (simp only: strstr.simps) blast
    then show "\<exists>a b. c # s = a @ t @ b"
    proof cases
      case 1
      then have "c # s = [] @ t @ drop (length t) (c # s)" by (metis append_Nil append_take_drop_id)
      then show ?thesis by blast
    next
      case 2
      then obtain a b where "s = a @ t @ b" using Cons.IH by blast
      then have "c # s = (c # a) @ t @ b" by simp
      then show ?thesis by blast
    qed
  next
    assume "\<exists>a b. c # s = a @ t @ b"
    then obtain a b where ab: "c # s = a @ t @ b" by blast
    show "strstr (c # s) t"
    proof (cases a)
      case Nil
      then have "take (length t) (c # s) = t" unfolding ab by simp
      then show ?thesis unfolding strstr.simps by (rule disjI1)
    next
      case (Cons d a')
      then have "s = a' @ t @ b" using ab by simp
      then show ?thesis using Cons.IH by auto
    qed
  qed
qed simp

lemma strstr_add: "strstr s t \<Longrightarrow> strstr (a @ s @ b) t"
  unfolding strstr_iff by (metis append.assoc)

end
