(* ===== verification/Fifo.thy ===== *)
theory Fifo
  imports Prelude
begin

text \<open>
  The interface between the two threads of the daemon and the packet queue. The receiving
  thread puts packets in under fresh addresses, the working thread takes them out; both rely
  only on the laws of the locale \<open>packet_fifo\<close>. Its client lemma says what any sequence of
  puts and gets returns: the packets, whole and in the order they went in.
\<close>

datatype ('k, 'v) fifo_op = Put 'k 'v | Get

text \<open>A run of operations: the packets the gets return, and the final memory.\<close>

fun fifo_run :: "('k \<Rightarrow> 'v \<Rightarrow> 'm \<Rightarrow> 'm option) \<Rightarrow> ('m \<Rightarrow> ('k option \<times> 'm) option) \<Rightarrow>
    ('m \<Rightarrow> 'k \<Rightarrow> 'v) \<Rightarrow> ('k, 'v) fifo_op list \<Rightarrow> 'm \<Rightarrow> ('v list \<times> 'm) option" where
  "fifo_run put get val [] m = Some ([], m)"
| "fifo_run put get val (Put k v # ops) m = do {
     m1 \<leftarrow> put k v m;
     fifo_run put get val ops m1
   }"
| "fifo_run put get val (Get # ops) m = do {
     (r, m1) \<leftarrow> get m;
     (out, m2) \<leftarrow> fifo_run put get val ops m1;
     Some (case r of None \<Rightarrow> out | Some k \<Rightarrow> val m1 k # out, m2)
   }"

text \<open>The same run on a list of values: a get from the empty list returns nothing.\<close>

fun fifo_spec :: "('k, 'v) fifo_op list \<Rightarrow> 'v list \<Rightarrow> 'v list \<times> 'v list" where
  "fifo_spec [] vs = ([], vs)"
| "fifo_spec (Put k v # ops) vs = fifo_spec ops (vs @ [v])"
| "fifo_spec (Get # ops) [] = fifo_spec ops []"
| "fifo_spec (Get # ops) (v # vs) = (case fifo_spec ops vs of (out, rest) \<Rightarrow> (v # out, rest))"

fun put_keys :: "('k, 'v) fifo_op list \<Rightarrow> 'k list" where
  "put_keys [] = []"
| "put_keys (Put k v # ops) = k # put_keys ops"
| "put_keys (Get # ops) = put_keys ops"

fun put_vals :: "('k, 'v) fifo_op list \<Rightarrow> 'v list" where
  "put_vals [] = []"
| "put_vals (Put k v # ops) = v # put_vals ops"
| "put_vals (Get # ops) = put_vals ops"

text \<open>What went in came out or is still there, in the order it went in.\<close>

lemma fifo_spec_order: "fst (fifo_spec ops vs) @ snd (fifo_spec ops vs) = vs @ put_vals ops"
  by (induction ops vs rule: fifo_spec.induct) (auto split: prod.splits)

locale packet_fifo =
  fixes ok :: "'m \<Rightarrow> 'k list \<Rightarrow> bool"
    and val :: "'m \<Rightarrow> 'k \<Rightarrow> 'v"
    and fresh :: "'m \<Rightarrow> 'k \<Rightarrow> bool"
    and accepts :: "'v \<Rightarrow> bool"
    and put :: "'k \<Rightarrow> 'v \<Rightarrow> 'm \<Rightarrow> 'm option"
    and get :: "'m \<Rightarrow> ('k option \<times> 'm) option"
    and room :: nat
  assumes put_law: "ok m ks \<Longrightarrow> fresh m k \<Longrightarrow> accepts v \<Longrightarrow> length ks < room \<Longrightarrow>
      \<exists>m'. put k v m = Some m' \<and> ok m' (ks @ [k]) \<and>
        map (val m') (ks @ [k]) = map (val m) ks @ [v] \<and> (\<forall>j. j \<noteq> k \<longrightarrow> fresh m j \<longrightarrow> fresh m' j)"
    and get_empty: "ok m [] \<Longrightarrow> get m = Some (None, m)"
    and get_law: "ok m (k # ks) \<Longrightarrow>
      \<exists>m'. get m = Some (Some k, m') \<and> ok m' ks \<and> map (val m') (k # ks) = map (val m) (k # ks) \<and>
        (\<forall>j. fresh m j \<longrightarrow> fresh m' j)"
begin

lemma run_refines:
  assumes "ok m ks" "\<forall>k \<in> set (put_keys ops). fresh m k" "distinct (put_keys ops)"
    "\<forall>v \<in> set (put_vals ops). accepts v" "length ks + length (put_keys ops) \<le> room"
  shows "\<exists>m' ks'. fifo_run put get val ops m = Some (fst (fifo_spec ops (map (val m) ks)), m') \<and>
    ok m' ks' \<and> map (val m') ks' = snd (fifo_spec ops (map (val m) ks))"
  using assms
proof (induction ops arbitrary: m ks)
  case Nil
  then show ?case by auto
next
  case (Cons p ops)
  show ?case
  proof (cases p)
    case (Put k v)
    have "length ks < room" using Cons.prems Put by simp
    with put_law [of m ks k v] Cons.prems Put obtain m1 where m1: "put k v m = Some m1"
      "ok m1 (ks @ [k])" "map (val m1) (ks @ [k]) = map (val m) ks @ [v]"
      "\<forall>j. j \<noteq> k \<longrightarrow> fresh m j \<longrightarrow> fresh m1 j" by auto
    have "\<forall>j \<in> set (put_keys ops). fresh m1 j" using m1(4) Cons.prems Put by auto
    then have "\<exists>m' ks'. fifo_run put get val ops m1 =
        Some (fst (fifo_spec ops (map (val m1) (ks @ [k]))), m') \<and> ok m' ks' \<and>
        map (val m') ks' = snd (fifo_spec ops (map (val m1) (ks @ [k])))"
      using Cons.prems Put by (intro Cons.IH [OF m1(2)]) simp_all
    then show ?thesis unfolding m1(3) using Put m1(1) by simp
  next
    case Get
    show ?thesis
    proof (cases ks)
      case Nil
      with Cons.prems Get get_empty [of m] Cons.IH [of m "[]"] show ?thesis by fastforce
    next
      case (Cons k ks1)
      with get_law [of m k ks1] Cons.prems obtain m1 where m1: "get m = Some (Some k, m1)" "ok m1 ks1"
        "map (val m1) (k # ks1) = map (val m) (k # ks1)" "\<forall>j. fresh m j \<longrightarrow> fresh m1 j" by auto
      have "\<forall>j \<in> set (put_keys ops). fresh m1 j" using m1(4) Cons.prems Get by auto
      then have "\<exists>m' ks'. fifo_run put get val ops m1 =
          Some (fst (fifo_spec ops (map (val m1) ks1)), m') \<and> ok m' ks' \<and>
          map (val m') ks' = snd (fifo_spec ops (map (val m1) ks1))"
        using Cons.prems Get \<open>ks = k # ks1\<close> by (intro Cons.IH [OF m1(2)]) simp_all
      moreover have "map (val m1) ks1 = map (val m) ks1" "val m1 k = val m k"
        using m1(3) by simp_all
      ultimately show ?thesis using Get \<open>ks = k # ks1\<close> m1(1)
        by (auto split: prod.splits)
    qed
  qed
qed

end

end
