(* ===== verification/Queue.thy ===== *)
theory Queue
  imports Fifo
begin

text \<open>
  The packet queue of \<open>queue.c\<close> and \<open>queue.h\<close>: a doubly linked list of heap nodes behind the
  global \<open>g_queue\<close>, with its operations as the code has them (every pointer write, in order),
  a representation predicate, the abstraction to the list of queued packets, and one lemma per
  operation on every branch. \<open>malloc\<close> is an argument of the operations that call it: the
  address it returns, or \<open>None\<close> for NULL.
\<close>

section \<open>Data\<close>

datatype ERROR_MESSAGE =
  SUCCESS | FAIL | TRUE | FALSE | INIT_FAIL | DATA_INVALID | BUF_EMPTY | BUF_FULL
  | MEM_MALLOC_FAIL | FILE_OPEN_FAIL

text \<open>The value of an enumerator: its position in the enum.\<close>

fun error_num :: "ERROR_MESSAGE \<Rightarrow> nat" where
  "error_num SUCCESS = 0"
| "error_num FAIL = 1"
| "error_num TRUE = 2"
| "error_num FALSE = 3"
| "error_num INIT_FAIL = 4"
| "error_num DATA_INVALID = 5"
| "error_num BUF_EMPTY = 6"
| "error_num BUF_FULL = 7"
| "error_num MEM_MALLOC_FAIL = 8"
| "error_num FILE_OPEN_FAIL = 9"

lemma error_num_inj [simp]: "error_num a = error_num b \<longleftrightarrow> a = b"
  by (cases a; cases b) simp_all

text \<open>The enumerators are ordered as the integers they stand for.\<close>

instantiation ERROR_MESSAGE :: linorder
begin

definition less_eq_ERROR_MESSAGE :: "ERROR_MESSAGE \<Rightarrow> ERROR_MESSAGE \<Rightarrow> bool" where
  "less_eq_ERROR_MESSAGE a b \<longleftrightarrow> error_num a \<le> error_num b"

definition less_ERROR_MESSAGE :: "ERROR_MESSAGE \<Rightarrow> ERROR_MESSAGE \<Rightarrow> bool" where
  "less_ERROR_MESSAGE a b \<longleftrightarrow> error_num a < error_num b"

instance
  by standard (auto simp: less_eq_ERROR_MESSAGE_def less_ERROR_MESSAGE_def)

end

text \<open>An enumerator returned as \<open>uint8\<close>.\<close>

definition err8 :: "ERROR_MESSAGE \<Rightarrow> byte" where
  "err8 e = of_nat (error_num e)"

lemma err8_inj [simp]: "err8 a = err8 b \<longleftrightarrow> a = b"
  by (cases a; cases b) (simp_all add: err8_def)

record List_Node =
  nprev :: ptr
  nnext :: ptr
  nlen :: u32
  ndata :: string

record BUF_LIST =
  head :: ptr
  tail :: ptr
  bsize :: u32
  blen :: u32

text \<open>
  The memory the queue code works on: the heap cells that hold nodes and list headers (a cell
  that is not in the map is not allocated), the global \<open>g_queue\<close> and the static \<open>lock\<close>.
\<close>

record qmem =
  nodes :: "addr \<rightharpoonup> List_Node"
  hdrs :: "addr \<rightharpoonup> BUF_LIST"
  g_queue :: ptr
  lock :: u32

definition init_qmem :: qmem where
  "init_qmem = \<lparr>nodes = Map.empty, hdrs = Map.empty, g_queue = None, lock = 0\<rparr>"

section \<open>The spin lock\<close>

definition atomic_cas :: "u32 \<Rightarrow> u32 \<Rightarrow> qmem \<Rightarrow> bool \<times> qmem" where
  "atomic_cas old new m = (if lock m = old then (True, m\<lparr>lock := new\<rparr>) else (False, m))"

text \<open>The spin: with no other thread running, a failed exchange is tried again for ever.\<close>

partial_function (option) atomic_spin :: "u32 \<Rightarrow> u32 \<Rightarrow> qmem \<Rightarrow> qmem option" where
  "atomic_spin old new m =
     (case atomic_cas old new m of (ok, m') \<Rightarrow> if ok then Some m' else atomic_spin old new m')"

definition atomic_lock_api :: "qmem \<Rightarrow> qmem option" where
  "atomic_lock_api m = atomic_spin 0 1 m"

definition atomic_unlock_api :: "qmem \<Rightarrow> qmem option" where
  "atomic_unlock_api m = atomic_spin 1 0 m"

lemma atomic_spin_Some: "atomic_spin old new m = Some m' \<Longrightarrow> lock m = old"
  by (rule atomic_spin.raw_induct [where P = "\<lambda>old new m m'. lock m = old"])
     (auto simp: atomic_cas_def split: if_splits)

lemma atomic_spin_iff:
  "atomic_spin old new m = (if lock m = old then Some (m\<lparr>lock := new\<rparr>) else None)"
proof (cases "lock m = old")
  case True
  then show ?thesis by (subst atomic_spin.simps) (simp add: atomic_cas_def)
next
  case False
  then show ?thesis using atomic_spin_Some by (cases "atomic_spin old new m") auto
qed

lemma atomic_lock_iff [simp]:
  "atomic_lock_api m = (if lock m = 0 then Some (m\<lparr>lock := 1\<rparr>) else None)"
  by (simp add: atomic_lock_api_def atomic_spin_iff)

lemma atomic_unlock_iff [simp]:
  "atomic_unlock_api m = (if lock m = 1 then Some (m\<lparr>lock := 0\<rparr>) else None)"
  by (simp add: atomic_unlock_api_def atomic_spin_iff)

section \<open>The list macros of \<open>queue.h\<close>\<close>

definition set_node :: "addr \<Rightarrow> List_Node \<Rightarrow> qmem \<Rightarrow> qmem" where
  "set_node a nd m = m\<lparr>nodes := (nodes m)(a \<mapsto> nd)\<rparr>"

definition set_list :: "addr \<Rightarrow> BUF_LIST \<Rightarrow> qmem \<Rightarrow> qmem" where
  "set_list l b m = m\<lparr>hdrs := (hdrs m)(l \<mapsto> b)\<rparr>"

lemma set_node_simps [simp]:
  "nodes (set_node a nd m) = (nodes m)(a \<mapsto> nd)"
  "hdrs (set_node a nd m) = hdrs m"
  "g_queue (set_node a nd m) = g_queue m"
  "lock (set_node a nd m) = lock m"
  by (simp_all add: set_node_def)

lemma set_list_simps [simp]:
  "nodes (set_list l b m) = nodes m"
  "hdrs (set_list l b m) = (hdrs m)(l \<mapsto> b)"
  "g_queue (set_list l b m) = g_queue m"
  "lock (set_list l b m) = lock m"
  by (simp_all add: set_list_def)

text \<open>\<open>LIST_RPUSH(list, node)\<close>: append \<open>node\<close> at the tail.\<close>

definition LIST_RPUSH :: "addr \<Rightarrow> addr \<Rightarrow> qmem \<Rightarrow> qmem option" where
  "LIST_RPUSH l n m = do {
     b \<leftarrow> hdrs m l;
     m1 \<leftarrow> (if head b \<noteq> None then do {
              nd \<leftarrow> nodes m n;
              let m = set_node n (nd\<lparr>nprev := tail b, nnext := None\<rparr>) m;
              t \<leftarrow> tail b;
              tn \<leftarrow> nodes m t;
              let m = set_node t (tn\<lparr>nnext := Some n\<rparr>) m;
              Some (set_list l (b\<lparr>tail := Some n\<rparr>) m)
            } else do {
              nd \<leftarrow> nodes m n;
              let m = set_list l (b\<lparr>head := Some n, tail := Some n\<rparr>) m;
              Some (set_node n (nd\<lparr>nprev := None, nnext := None\<rparr>) m)
            });
     b1 \<leftarrow> hdrs m1 l;
     nd1 \<leftarrow> nodes m1 n;
     Some (set_list l (b1\<lparr>bsize := bsize b1 + 1, blen := blen b1 + nlen nd1\<rparr>) m1)
   }"

text \<open>\<open>LIST_LPUSH(list, node)\<close>: insert \<open>node\<close> at the head; it counts into \<open>len\<close>, not \<open>size\<close>.\<close>

definition LIST_LPUSH :: "addr \<Rightarrow> addr \<Rightarrow> qmem \<Rightarrow> qmem option" where
  "LIST_LPUSH l n m = do {
     b \<leftarrow> hdrs m l;
     m1 \<leftarrow> (if bsize b \<noteq> 0 then do {
              nd \<leftarrow> nodes m n;
              let m = set_node n (nd\<lparr>nnext := head b, nprev := None\<rparr>) m;
              h \<leftarrow> head b;
              hn \<leftarrow> nodes m h;
              let m = set_node h (hn\<lparr>nprev := Some n\<rparr>) m;
              Some (set_list l (b\<lparr>head := Some n\<rparr>) m)
            } else do {
              nd \<leftarrow> nodes m n;
              let m = set_list l (b\<lparr>head := Some n, tail := Some n\<rparr>) m;
              Some (set_node n (nd\<lparr>nprev := None, nnext := None\<rparr>) m)
            });
     b1 \<leftarrow> hdrs m1 l;
     nd1 \<leftarrow> nodes m1 n;
     Some (set_list l (b1\<lparr>blen := blen b1 + 1 + nlen nd1\<rparr>) m1)
   }"

text \<open>\<open>LIST_LPOP(list, node)\<close>: take the head off; \<open>node\<close> keeps its value when the list is empty.\<close>

definition LIST_LPOP :: "addr \<Rightarrow> ptr \<Rightarrow> qmem \<Rightarrow> (ptr \<times> qmem) option" where
  "LIST_LPOP l node m = do {
     b \<leftarrow> hdrs m l;
     if bsize b \<noteq> 0 then do {
       let node = head b;
       let b = b\<lparr>bsize := bsize b - 1\<rparr>;
       let m = set_list l b m;
       n \<leftarrow> node;
       m1 \<leftarrow> (if bsize b \<noteq> 0 then do {
                nd \<leftarrow> nodes m n;
                let m = set_list l (b\<lparr>head := nnext nd\<rparr>) m;
                h \<leftarrow> nnext nd;
                hn \<leftarrow> nodes m h;
                Some (set_node h (hn\<lparr>nprev := None\<rparr>) m)
              } else Some (set_list l (b\<lparr>head := None, tail := None\<rparr>) m));
       nd \<leftarrow> nodes m1 n;
       let m2 = set_node n (nd\<lparr>nnext := None, nprev := None\<rparr>) m1;
       b2 \<leftarrow> hdrs m2 l;
       Some (node, set_list l (b2\<lparr>blen := blen b2 - nlen nd\<rparr>) m2)
     } else Some (node, m)
   }"

text \<open>\<open>LIST_REMOVE_NODE(list, node)\<close>: unlink and free a node given by its address.\<close>

definition LIST_REMOVE_NODE :: "addr \<Rightarrow> addr \<Rightarrow> qmem \<Rightarrow> qmem option" where
  "LIST_REMOVE_NODE l n m = do {
     nd \<leftarrow> nodes m n;
     m1 \<leftarrow> (case nprev nd of
              Some p \<Rightarrow> do { pn \<leftarrow> nodes m p; Some (set_node p (pn\<lparr>nnext := nnext nd\<rparr>) m) }
            | None \<Rightarrow> do { b \<leftarrow> hdrs m l; Some (set_list l (b\<lparr>head := nnext nd\<rparr>) m) });
     nd1 \<leftarrow> nodes m1 n;
     m2 \<leftarrow> (case nnext nd1 of
              Some q \<Rightarrow> do { qn \<leftarrow> nodes m1 q; Some (set_node q (qn\<lparr>nprev := nprev nd1\<rparr>) m1) }
            | None \<Rightarrow> do { b \<leftarrow> hdrs m1 l; Some (set_list l (b\<lparr>tail := nprev nd1\<rparr>) m1) });
     b2 \<leftarrow> hdrs m2 l;
     nd2 \<leftarrow> nodes m2 n;
     Some (set_list l (b2\<lparr>blen := blen b2 - nlen nd2, bsize := bsize b2 - 1\<rparr>)
             (m2\<lparr>nodes := (nodes m2)(n := None)\<rparr>))
   }"

text \<open>
  \<open>LIST_DESTROY(list)\<close>: the loop \<open>while (list->size--)\<close> over \<open>cur\<close>, with \<open>LIST_NODE_FREE\<close>
  for each node; then the header is freed and the variable \<open>list\<close>, here \<open>g_queue\<close>, cleared.
\<close>

function destroy_nodes :: "u32 \<Rightarrow> ptr \<Rightarrow> (addr \<rightharpoonup> List_Node) \<Rightarrow> (addr \<rightharpoonup> List_Node) option" where
  "destroy_nodes sz cur h =
     (if sz = 0 then Some h
      else (case cur of None \<Rightarrow> None
            | Some c \<Rightarrow> (case h c of None \<Rightarrow> None
                         | Some nd \<Rightarrow> destroy_nodes (sz - 1) (nnext nd) (h(c := None)))))"
  by pat_completeness auto
termination
  by (relation "measure (\<lambda>(sz, _, _). unat sz)")
     (auto simp: unat_minus_one word_neq_0_conv [symmetric] unat_eq_0 intro: diff_less simp flip: unat_eq_0)

declare destroy_nodes.simps [simp del]

definition LIST_DESTROY :: "addr \<Rightarrow> qmem \<Rightarrow> qmem option" where
  "LIST_DESTROY l m = do {
     b \<leftarrow> hdrs m l;
     h \<leftarrow> destroy_nodes (bsize b) (head b) (nodes m);
     Some (m\<lparr>nodes := h, hdrs := (hdrs m)(l := None), g_queue := None\<rparr>)
   }"

section \<open>The operations of \<open>queue.c\<close>\<close>

definition empty_list :: BUF_LIST where
  "empty_list = \<lparr>head = None, tail = None, bsize = 0, blen = 0\<rparr>"

definition QueueInit :: "ptr \<Rightarrow> qmem \<Rightarrow> ERROR_MESSAGE \<times> qmem" where
  "QueueInit malloc_ret m =
     (case malloc_ret of
        None \<Rightarrow> (MEM_MALLOC_FAIL, m\<lparr>g_queue := None\<rparr>)
      | Some l \<Rightarrow> (SUCCESS, set_list l empty_list (m\<lparr>g_queue := Some l\<rparr>)))"

text \<open>
  \<open>BufferInQueue(data, len)\<close>: \<open>data\<close> is the memory \<open>data\<close> points to, from which \<open>memcpy\<close>
  reads \<open>len\<close> bytes. The fields \<open>prev\<close> and \<open>next\<close> of the new node are written by the push
  before anything reads them.
\<close>

definition BufferInQueue :: "ptr \<Rightarrow> string \<Rightarrow> u32 \<Rightarrow> qmem \<Rightarrow> (ERROR_MESSAGE \<times> qmem) option" where
  "BufferInQueue malloc_ret data len m =
     (case g_queue m of
        None \<Rightarrow> Some (BUF_EMPTY, m)
      | Some l \<Rightarrow>
          if len > 1024 \<or> len < 20 then Some (DATA_INVALID, m)
          else (case malloc_ret of
                  None \<Rightarrow> Some (MEM_MALLOC_FAIL, m)
                | Some pnew \<Rightarrow>
                    if length data < unat len then None
                    else do {
                      let nd = \<lparr>nprev = None, nnext = None, nlen = len, ndata = take (unat len) data\<rparr>;
                      m1 \<leftarrow> atomic_lock_api (set_node pnew nd m);
                      m2 \<leftarrow> LIST_RPUSH l pnew m1;
                      m3 \<leftarrow> atomic_unlock_api m2;
                      Some (SUCCESS, m3)
                    }))"

definition IsEmptyQueue :: "qmem \<Rightarrow> (byte \<times> qmem) option" where
  "IsEmptyQueue m =
     (case g_queue m of
        None \<Rightarrow> Some (err8 TRUE, m)
      | Some l \<Rightarrow> do {
          m1 \<leftarrow> atomic_lock_api m;
          b \<leftarrow> hdrs m1 l;
          m2 \<leftarrow> atomic_unlock_api m1;
          Some (err8 (if bsize b \<noteq> 0 then FALSE else TRUE), m2)
        })"

text \<open>\<open>BufferOutQueue(&node)\<close>: \<open>node\<close> is the caller's pointer, returned as it is afterwards.\<close>

definition BufferOutQueue :: "ptr \<Rightarrow> qmem \<Rightarrow> (ERROR_MESSAGE \<times> ptr \<times> qmem) option" where
  "BufferOutQueue node m = do {
     let list = g_queue m;
     (e, m1) \<leftarrow> IsEmptyQueue m;
     if e = err8 TRUE then Some (BUF_EMPTY, node, m1)
     else do {
       l \<leftarrow> list;
       m2 \<leftarrow> atomic_lock_api m1;
       (ppop, m3) \<leftarrow> LIST_LPOP l None m2;
       m4 \<leftarrow> atomic_unlock_api m3;
       (if ppop = None then Some (BUF_EMPTY, node, m4) else Some (SUCCESS, ppop, m4))
     }
   }"

definition GetQueueSize :: "qmem \<Rightarrow> (u32 \<times> qmem) option" where
  "GetQueueSize m =
     (case g_queue m of
        None \<Rightarrow> Some (0, m)
      | Some l \<Rightarrow> do {
          m1 \<leftarrow> atomic_lock_api m;
          b \<leftarrow> hdrs m1 l;
          m2 \<leftarrow> atomic_unlock_api m1;
          Some (bsize b, m2)
        })"

definition bufferDestroy :: "qmem \<Rightarrow> qmem option" where
  "bufferDestroy m = (case g_queue m of None \<Rightarrow> Some m | Some l \<Rightarrow> LIST_DESTROY l m)"

text \<open>\<open>free(node)\<close>, which the consumer calls on a node it has taken out.\<close>

definition free_node :: "addr \<Rightarrow> qmem \<Rightarrow> qmem option" where
  "free_node n m = (case nodes m n of None \<Rightarrow> None | Some _ \<Rightarrow> Some (m\<lparr>nodes := (nodes m)(n := None)\<rparr>))"

section \<open>Doubly linked segments\<close>

text \<open>
  \<open>dseg h pv p as e\<close>: from \<open>p\<close> the \<open>next\<close> pointers run through the nodes \<open>as\<close> and reach \<open>e\<close>,
  and each node's \<open>prev\<close> points back to the one before it, the first one's to \<open>pv\<close>.
\<close>

fun dseg :: "(addr \<rightharpoonup> List_Node) \<Rightarrow> ptr \<Rightarrow> ptr \<Rightarrow> addr list \<Rightarrow> ptr \<Rightarrow> bool" where
  "dseg h pv p [] e \<longleftrightarrow> p = e"
| "dseg h pv p (a # as) e \<longleftrightarrow>
     p = Some a \<and>
     (case h a of None \<Rightarrow> False | Some nd \<Rightarrow> nprev nd = pv \<and> dseg h (Some a) (nnext nd) as e)"

definition last_of :: "ptr \<Rightarrow> addr list \<Rightarrow> ptr" where
  "last_of pv as = (if as = [] then pv else Some (last as))"

lemma last_of_simps [simp]:
  "last_of pv [] = pv"
  "last_of pv (a # as) = last_of (Some a) as"
  "last_of pv (as @ bs) = last_of (last_of pv as) bs"
  by (auto simp: last_of_def)

lemma last_of_None [simp]: "last_of None as = None \<longleftrightarrow> as = []"
  by (simp add: last_of_def)

lemma dseg_append [heap_simps]:
  "dseg h pv p (as @ bs) e \<longleftrightarrow> (\<exists>q. dseg h pv p as q \<and> dseg h (last_of pv as) q bs e)"
  by (induction as arbitrary: pv p) (auto split: option.splits)

lemma dseg_upd [simp]: "a \<notin> set as \<Longrightarrow> dseg (h(a := v)) pv p as e = dseg h pv p as e"
  by (induction as arbitrary: pv p) (auto split: option.splits)

lemma dseg_alloc: "dseg h pv p as e \<Longrightarrow> a \<in> set as \<Longrightarrow> h a \<noteq> None"
  by (induction as arbitrary: pv p) (auto split: option.splits)

lemma dseg_None_start [simp]: "dseg h pv None as e \<longleftrightarrow> as = [] \<and> e = None"
  by (cases as) auto

section \<open>Representation of the queue\<close>

definition payload :: "List_Node \<Rightarrow> u32 \<times> string" where
  "payload nd = (nlen nd, ndata nd)"

definition node_len :: "qmem \<Rightarrow> addr \<Rightarrow> u32" where
  "node_len m a = (case nodes m a of None \<Rightarrow> 0 | Some nd \<Rightarrow> nlen nd)"

definition node_data :: "qmem \<Rightarrow> addr \<Rightarrow> string" where
  "node_data m a = (case nodes m a of None \<Rightarrow> [] | Some nd \<Rightarrow> ndata nd)"

text \<open>The header at \<open>l\<close> is the list of the nodes \<open>as\<close>, its size and total length up to date.\<close>

definition qlist :: "addr \<Rightarrow> qmem \<Rightarrow> addr list \<Rightarrow> bool" where
  "qlist l m as \<longleftrightarrow>
     (case hdrs m l of
        None \<Rightarrow> False
      | Some b \<Rightarrow>
          dseg (nodes m) None (head b) as None \<and> distinct as \<and> tail b = last_of None as \<and>
          bsize b = of_nat (length as) \<and> length as < 2 ^ 31 \<and>
          blen b = sum_list (map (node_len m) as))"

definition packets :: "qmem \<Rightarrow> addr list \<Rightarrow> string list" where
  "packets m as = map (node_data m) as"

text \<open>No step of the queue changes what a node carries, only how the nodes are linked.\<close>

definition same_payload :: "qmem \<Rightarrow> qmem \<Rightarrow> bool" where
  "same_payload m m' \<longleftrightarrow> (\<forall>a. map_option payload (nodes m' a) = map_option payload (nodes m a))"

lemma same_payload_len: "same_payload m m' \<Longrightarrow> node_len m' a = node_len m a"
  unfolding same_payload_def node_len_def payload_def
  by (drule spec [of _ a]) (auto split: option.splits)

lemma same_payload_data: "same_payload m m' \<Longrightarrow> node_data m' a = node_data m a"
  unfolding same_payload_def node_data_def payload_def
  by (drule spec [of _ a]) (auto split: option.splits)

lemma same_payload_packets: "same_payload m m' \<Longrightarrow> packets m' as = packets m as"
  by (simp add: packets_def same_payload_data)

lemma same_payload_refl [simp]: "same_payload m m"
  by (simp add: same_payload_def)

lemma same_payload_trans: "same_payload m m' \<Longrightarrow> same_payload m' m'' \<Longrightarrow> same_payload m m''"
  by (simp add: same_payload_def)

lemma qlist_nil: "hdrs m l = Some empty_list \<Longrightarrow> qlist l m []"
  by (simp add: qlist_def empty_list_def)

lemma node_lock [simp]:
  "node_len (m\<lparr>lock := v\<rparr>) = node_len m"
  "node_data (m\<lparr>lock := v\<rparr>) = node_data m"
  by (auto simp: node_len_def node_data_def fun_eq_iff)

lemma qlist_lock [simp]: "qlist l (m\<lparr>lock := v\<rparr>) as = qlist l m as"
  by (auto simp: qlist_def split: option.splits)

lemma packets_lock [simp]: "packets (m\<lparr>lock := v\<rparr>) as = packets m as"
  by (simp add: packets_def)

lemma qlistE:
  assumes "qlist l m as"
  obtains b where "hdrs m l = Some b" "dseg (nodes m) None (head b) as None" "distinct as"
    "tail b = last_of None as" "bsize b = of_nat (length as)" "length as < 2 ^ 31"
    "blen b = sum_list (map (node_len m) as)"
  using assms by (auto simp: qlist_def split: option.splits)

lemma qlist_head: "qlist l m as \<Longrightarrow> hdrs m l = Some b \<Longrightarrow> head b = None \<longleftrightarrow> as = []"
  by (cases as) (auto simp: qlist_def)

lemma qlist_size_zero: "qlist l m as \<Longrightarrow> hdrs m l = Some b \<Longrightarrow> bsize b = 0 \<longleftrightarrow> as = []"
  by (auto simp: qlist_def word_unat_eq_iff unat_of_nat)

lemma qlist_fresh: "qlist l m as \<Longrightarrow> nodes m a = None \<Longrightarrow> a \<notin> set as"
  by (auto simp: qlist_def dest: dseg_alloc split: option.splits)

lemma qlist_set_fresh:
  assumes "qlist l m as" "a \<notin> set as"
  shows "qlist l (set_node a nd m) as"
proof -
  have "sum_list (map (node_len (set_node a nd m)) as) = sum_list (map (node_len m) as)"
    using assms(2) by (intro arg_cong [where f = sum_list] map_cong) (auto simp: node_len_def)
  then show ?thesis using assms by (auto simp: qlist_def split: option.splits)
qed

lemma packets_set_fresh: "a \<notin> set as \<Longrightarrow> packets (set_node a nd m) as = packets m as"
  by (auto simp: packets_def node_data_def)

lemma LIST_RPUSH_correct:
  assumes q: "qlist l m as" and n: "nodes m n = Some nd" "n \<notin> set as"
    and len: "Suc (length as) < 2 ^ 31"
  obtains m' where "LIST_RPUSH l n m = Some m'" "qlist l m' (as @ [n])" "same_payload m m'"
    "g_queue m' = g_queue m" "lock m' = lock m"
proof (cases as rule: rev_cases)
  case Nil
  with q obtain b where b: "hdrs m l = Some b" "head b = None" "bsize b = 0" "blen b = 0"
    by (auto elim!: qlistE)
  define m2 where "m2 = set_list l (b\<lparr>head := Some n, tail := Some n, bsize := 1, blen := nlen nd\<rparr>)
     (set_node n (nd\<lparr>nprev := None, nnext := None\<rparr>) m)"
  have "LIST_RPUSH l n m = Some m2"
    using b n by (simp add: LIST_RPUSH_def m2_def set_list_def set_node_def)
  moreover have "qlist l m2 (as @ [n])"
    using Nil by (simp add: qlist_def m2_def node_len_def)
  moreover have "same_payload m m2"
    using n by (auto simp: same_payload_def payload_def m2_def)
  moreover have "g_queue m2 = g_queue m" "lock m2 = lock m" by (simp_all add: m2_def)
  ultimately show ?thesis by (rule that)
next
  case (snoc bs t)
  from q obtain b where b: "hdrs m l = Some b" "dseg (nodes m) None (head b) as None" "distinct as"
    "tail b = last_of None as" "bsize b = of_nat (length as)"
    "blen b = sum_list (map (node_len m) as)" by (rule qlistE)
  from b snoc obtain tn where t: "nodes m t = Some tn" "nprev tn = last_of None bs"
    "nnext tn = None" "dseg (nodes m) None (head b) bs (Some t)"
    by (auto simp: dseg_append split: option.splits)
  have head: "head b \<noteq> None" using qlist_head [OF q b(1)] snoc by simp
  have nt: "n \<noteq> t" "n \<notin> set bs" "t \<notin> set bs" using n snoc b by auto
  define m2 where "m2 = set_list l (b\<lparr>tail := Some n, bsize := bsize b + 1, blen := blen b + nlen nd\<rparr>)
     (set_node t (tn\<lparr>nnext := Some n\<rparr>) (set_node n (nd\<lparr>nprev := Some t, nnext := None\<rparr>) m))"
  have run: "LIST_RPUSH l n m = Some m2"
    using b snoc n t head nt by (auto simp: LIST_RPUSH_def m2_def set_list_def set_node_def)
  have same: "same_payload m m2"
    using t n nt by (auto simp: same_payload_def m2_def payload_def)
  have "dseg (nodes m2) None (head b) (bs @ [t, n]) None"
    using t nt by (auto simp: dseg_append m2_def fun_upd_twist)
  moreover have "node_len m2 = node_len m" "node_len m n = nlen nd"
    using same n by (simp_all add: fun_eq_iff same_payload_len) (simp add: node_len_def)
  moreover have "hdrs m2 l = Some (b\<lparr>tail := Some n, bsize := bsize b + 1, blen := blen b + nlen nd\<rparr>)"
    by (simp add: m2_def)
  ultimately have "qlist l m2 (as @ [n])"
    using b snoc n len nt unfolding qlist_def by simp
  with run same show ?thesis by (intro that [of m2]) (simp_all add: m2_def)
qed

lemma LIST_LPOP_empty:
  assumes "qlist l m []"
  shows "LIST_LPOP l node m = Some (node, m)"
  using assms by (auto simp: LIST_LPOP_def elim!: qlistE)

lemma LIST_LPOP_correct:
  assumes q: "qlist l m (a # as)"
  obtains m' where "LIST_LPOP l node m = Some (Some a, m')" "qlist l m' as" "same_payload m m'"
    "g_queue m' = g_queue m" "lock m' = lock m" "nodes m' a \<noteq> None"
proof -
  from q obtain b nd where b: "hdrs m l = Some b" "head b = Some a" "nodes m a = Some nd"
    "nprev nd = None" "dseg (nodes m) (Some a) (nnext nd) as None" "a \<notin> set as" "distinct as"
    "tail b = last_of (Some a) as" "bsize b = of_nat (length as) + 1" "Suc (length as) < 2 ^ 31"
    "blen b = nlen nd + sum_list (map (node_len m) as)"
    by (auto elim!: qlistE simp: node_len_def split: option.splits)
  have size: "bsize b \<noteq> 0" "bsize b - 1 = of_nat (length as)"
    using qlist_size_zero [OF q b(1)] b by simp_all
  show ?thesis
  proof (cases as)
    case Nil
    define m2 where "m2 = set_list l (b\<lparr>bsize := 0, head := None, tail := None, blen := 0\<rparr>)
      (set_node a (nd\<lparr>nnext := None, nprev := None\<rparr>) m)"
    have "LIST_LPOP l node m = Some (Some a, m2)"
      using b Nil by (simp add: LIST_LPOP_def m2_def set_list_def set_node_def)
    moreover have "qlist l m2 as" using Nil by (simp add: qlist_def m2_def)
    moreover have "same_payload m m2" using b by (auto simp: same_payload_def payload_def m2_def)
    moreover have "g_queue m2 = g_queue m" "lock m2 = lock m" "nodes m2 a \<noteq> None"
      by (simp_all add: m2_def)
    ultimately show ?thesis by (rule that)
  next
    case (Cons c cs)
    with b obtain nc where c: "nnext nd = Some c" "nodes m c = Some nc" "nprev nc = Some a"
      "dseg (nodes m) (Some c) (nnext nc) cs None" "a \<noteq> c" "a \<notin> set cs" "c \<notin> set cs"
      by (auto split: option.splits)
    have size1: "bsize b - 1 \<noteq> 0"
      using b(10) Cons unfolding size(2) by (subst of_nat_u32_0) simp_all
    define m2 where "m2 = set_list l (b\<lparr>bsize := bsize b - 1, head := Some c, blen := blen b - nlen nd\<rparr>)
      (set_node a (nd\<lparr>nnext := None, nprev := None\<rparr>) (set_node c (nc\<lparr>nprev := None\<rparr>) m))"
    have "LIST_LPOP l node m = Some (Some a, m2)"
      using b c size size1 by (simp add: LIST_LPOP_def m2_def set_list_def set_node_def)
    moreover have same: "same_payload m m2"
      using b c by (auto simp: same_payload_def payload_def m2_def)
    moreover have "qlist l m2 as"
    proof -
      have "node_len m2 = node_len m"
        using same by (simp add: fun_eq_iff same_payload_len)
      moreover have "hdrs m2 l =
          Some (b\<lparr>bsize := bsize b - 1, head := Some c, blen := blen b - nlen nd\<rparr>)"
        by (simp add: m2_def)
      moreover have "dseg (nodes m2) None (Some c) (c # cs) None"
        using c by (simp add: m2_def fun_upd_twist)
      ultimately show ?thesis using b Cons size unfolding qlist_def by simp
    qed
    moreover have "g_queue m2 = g_queue m" "lock m2 = lock m" "nodes m2 a \<noteq> None"
      by (simp_all add: m2_def)
    ultimately show ?thesis by (intro that [of m2])
  qed
qed

lemma destroy_nodes_correct:
  assumes "dseg h pv p as None" "distinct as" "length as < 2 ^ 31"
  shows "destroy_nodes (of_nat (length as)) p h = Some (h |` (- set as))"
  using assms
proof (induction as arbitrary: h pv p)
  case Nil
  then show ?case by (simp add: destroy_nodes.simps)
next
  case (Cons a as)
  then obtain nd where a: "p = Some a" "h a = Some nd" "dseg (h(a := None)) (Some a) (nnext nd) as None"
    by (auto split: option.splits)
  have "of_nat (length (a # as)) \<noteq> (0 :: u32)"
    using Cons.prems(3) by (subst of_nat_u32_0) simp_all
  then have "destroy_nodes (of_nat (length (a # as))) p h =
      destroy_nodes (of_nat (length as)) (nnext nd) (h(a := None))"
    using a by (subst destroy_nodes.simps) simp
  also have "\<dots> = Some ((h(a := None)) |` (- set as))"
    by (rule Cons.IH [OF a(3)]) (use Cons.prems in simp_all)
  also have "(h(a := None)) |` (- set as) = h |` (- set (a # as))"
    by (auto simp: restrict_map_def fun_eq_iff)
  finally show ?case .
qed

lemma LIST_DESTROY_correct:
  assumes "qlist l m as"
  shows "LIST_DESTROY l m =
    Some (m\<lparr>nodes := nodes m |` (- set as), hdrs := (hdrs m)(l := None), g_queue := None\<rparr>)"
  using assms by (auto simp: LIST_DESTROY_def elim!: qlistE dest: destroy_nodes_correct)

lemma LIST_LPUSH_correct:
  assumes q: "qlist l m as" and n: "nodes m n = Some nd" "n \<notin> set as"
  shows "\<exists>m' b b'. LIST_LPUSH l n m = Some m' \<and> hdrs m l = Some b \<and> hdrs m' l = Some b' \<and>
    dseg (nodes m') None (head b') (n # as) None \<and> bsize b' = bsize b \<and>
    g_queue m' = g_queue m \<and> lock m' = lock m"
proof -
  from q obtain b where b: "hdrs m l = Some b" "dseg (nodes m) None (head b) as None" "distinct as"
    "tail b = last_of None as" "bsize b = of_nat (length as)" "length as < 2 ^ 31"
    by (auto elim!: qlistE)
  show ?thesis
  proof (cases as)
    case Nil
    then show ?thesis using b n by (auto simp: LIST_LPUSH_def)
  next
    case (Cons c cs)
    have size: "bsize b \<noteq> 0" using qlist_size_zero [OF q b(1)] Cons by simp
    from Cons b obtain nc where c: "head b = Some c" "nodes m c = Some nc" "nprev nc = None"
      "dseg (nodes m) (Some c) (nnext nc) cs None" "n \<noteq> c" "c \<notin> set cs" "n \<notin> set cs"
      using n by (auto split: option.splits)
    then show ?thesis using b n Cons size by (auto simp: LIST_LPUSH_def fun_upd_twist)
  qed
qed

text \<open>Removing a node anywhere in the list: its neighbours are linked to each other.\<close>

lemma dseg_unlink:
  assumes "dseg h None p (as @ n # bs) None" "distinct (as @ n # bs)" "h n = Some nd"
  shows "nprev nd = last_of None as"
    and "nnext nd = (case bs of [] \<Rightarrow> None | c # _ \<Rightarrow> Some c)"
  using assms by (cases bs; auto simp: dseg_append split: option.splits)+

definition relink :: "(addr \<rightharpoonup> List_Node) \<Rightarrow> ptr \<Rightarrow> ptr \<Rightarrow> (addr \<rightharpoonup> List_Node)" where
  "relink h p q =
     (let h1 = (case p of None \<Rightarrow> h | Some a \<Rightarrow> h(a := map_option (nnext_update (\<lambda>_. q)) (h a)))
      in (case q of None \<Rightarrow> h1 | Some a \<Rightarrow> h1(a := map_option (nprev_update (\<lambda>_. p)) (h1 a))))"

lemma dseg_relink:
  assumes "dseg h None p (as @ n # bs) None" "distinct (as @ n # bs)" "h n = Some nd"
  shows "dseg (relink h (nprev nd) (nnext nd)) None (if as = [] then nnext nd else p) (as @ bs) None"
proof -
  note nb = dseg_unlink [OF assms]
  show ?thesis
  proof (cases as rule: rev_cases)
    case Nil
    then show ?thesis using assms nb
      by (cases bs) (auto simp: relink_def split: option.splits)
  next
    case (snoc ps t)
    then show ?thesis using assms nb
      by (cases bs) (auto simp: relink_def dseg_append fun_upd_twist split: option.splits)
  qed
qed

lemma dseg_at: "dseg h pv p (as @ n # bs) e \<Longrightarrow> h n \<noteq> None"
  by (rule dseg_alloc [of h pv p "as @ n # bs"]) simp_all

lemma relink_payload: "map_option payload (relink h p q a) = map_option payload (h a)"
proof -
  have upd: "payload \<circ> nnext_update f = payload" "payload \<circ> nprev_update f = payload" for f
    by (auto simp: payload_def)
  show ?thesis
    by (auto simp: relink_def option.map_comp upd split: option.splits)
qed

lemma LIST_REMOVE_NODE_step:
  assumes b: "hdrs m l = Some b" and d: "dseg (nodes m) None (head b) (as @ n # bs) None"
    and dist: "distinct (as @ n # bs)" and t: "tail b = last_of None (as @ n # bs)"
    and n: "nodes m n = Some nd"
  shows "\<exists>m'. LIST_REMOVE_NODE l n m = Some m' \<and> g_queue m' = g_queue m \<and> lock m' = lock m \<and>
    nodes m' = (relink (nodes m) (nprev nd) (nnext nd))(n := None) \<and>
    hdrs m' l = Some (b\<lparr>head := (if as = [] then nnext nd else head b),
      tail := last_of None (as @ bs), blen := blen b - nlen nd, bsize := bsize b - 1\<rparr>)"
proof -
  note nb = dseg_unlink [OF d dist n]
  show ?thesis
  proof (cases as rule: rev_cases)
    case Nil
    then show ?thesis using b d dist t n nb
      by (cases bs) (auto simp: LIST_REMOVE_NODE_def relink_def split: option.splits)
  next
    case (snoc ps p)
    moreover from this d obtain pn where "nodes m p = Some pn"
      using dseg_at [of "nodes m" None "head b" ps p "n # bs"] by auto
    ultimately show ?thesis using b d dist t n nb
      by (cases bs) (auto simp: LIST_REMOVE_NODE_def relink_def dseg_append fun_upd_twist split: option.splits)
  qed
qed

lemma LIST_REMOVE_NODE_correct:
  assumes q: "qlist l m (as @ n # bs)"
  shows "\<exists>m'. LIST_REMOVE_NODE l n m = Some m' \<and> qlist l m' (as @ bs) \<and> nodes m' n = None \<and>
    packets m' (as @ bs) = packets m (as @ bs)"
proof -
  from q obtain b where b: "hdrs m l = Some b" "dseg (nodes m) None (head b) (as @ n # bs) None"
    "distinct (as @ n # bs)" "tail b = last_of None (as @ n # bs)"
    "bsize b = of_nat (length (as @ n # bs))" "length (as @ n # bs) < 2 ^ 31"
    "blen b = sum_list (map (node_len m) (as @ n # bs))" by (rule qlistE)
  from b(2) obtain nd where n: "nodes m n = Some nd" using dseg_at by blast
  from LIST_REMOVE_NODE_step [OF b(1-4) n] obtain m' where m': "LIST_REMOVE_NODE l n m = Some m'"
    "nodes m' = (relink (nodes m) (nprev nd) (nnext nd))(n := None)"
    "hdrs m' l = Some (b\<lparr>head := (if as = [] then nnext nd else head b),
      tail := last_of None (as @ bs), blen := blen b - nlen nd, bsize := bsize b - 1\<rparr>)"
    by auto
  have fresh: "n \<notin> set (as @ bs)" using b(3) by auto
  have pay: "map_option payload (nodes m' a) = map_option payload (nodes m a)" if "a \<in> set (as @ bs)" for a
    using fresh that by (auto simp: m'(2) relink_payload)
  have len: "node_len m' a = node_len m a" and data: "node_data m' a = node_data m a"
    if "a \<in> set (as @ bs)" for a
    using pay [OF that]
    by (auto simp: node_len_def node_data_def payload_def split: option.splits)
  have "sum_list (map (node_len m') (as @ bs)) = sum_list (map (node_len m) (as @ bs))"
    using len by (intro arg_cong [where f = sum_list] map_cong) auto
  moreover have "dseg (nodes m') None (if as = [] then nnext nd else head b) (as @ bs) None"
    unfolding m'(2) dseg_upd [OF fresh] by (rule dseg_relink [OF b(2,3) n])
  ultimately have "qlist l m' (as @ bs)"
    using b m'(3) n by (simp add: qlist_def node_len_def [of m n])
  moreover have "packets m' (as @ bs) = packets m (as @ bs)"
    using data by (auto simp: packets_def)
  ultimately show ?thesis using m' by auto
qed

section \<open>The operations on a well-formed queue\<close>

definition packet_ok :: "List_Node option \<Rightarrow> bool" where
  "packet_ok c \<longleftrightarrow> (case c of None \<Rightarrow> False
     | Some nd \<Rightarrow> length (ndata nd) = unat (nlen nd) \<and> 20 \<le> nlen nd \<and> nlen nd \<le> 1024)"

text \<open>
  The invariant of the queue: the lock is free, \<open>g_queue\<close> points to a well-formed list of the
  nodes \<open>as\<close>, and every node holds a packet of 20 to 1024 bytes.
\<close>

definition queue_ok :: "qmem \<Rightarrow> addr list \<Rightarrow> bool" where
  "queue_ok m as \<longleftrightarrow>
     lock m = 0 \<and> (case g_queue m of None \<Rightarrow> False | Some l \<Rightarrow> qlist l m as) \<and>
     (\<forall>a \<in> set as. packet_ok (nodes m a))"

lemma same_payload_packet_ok:
  "same_payload m m' \<Longrightarrow> packet_ok (nodes m' a) = packet_ok (nodes m a)"
  unfolding same_payload_def packet_ok_def payload_def
  by (drule spec [of _ a]) (auto split: option.splits)

lemma queue_okE:
  assumes "queue_ok m as"
  obtains l b where "lock m = 0" "g_queue m = Some l" "qlist l m as" "hdrs m l = Some b"
    "bsize b = of_nat (length as)" "length as < 2 ^ 31" "\<forall>a \<in> set as. packet_ok (nodes m a)"
  using assms by (auto simp: queue_ok_def qlist_def split: option.splits)

lemma queue_ok_fresh: "queue_ok m as \<Longrightarrow> nodes m a = None \<Longrightarrow> a \<notin> set as"
  by (auto elim!: queue_okE dest: qlist_fresh)

lemma QueueInit_ok:
  "lock m = 0 \<Longrightarrow> QueueInit (Some l) m = (e, m') \<Longrightarrow> e = SUCCESS \<and> queue_ok m' []"
  by (auto simp: QueueInit_def queue_ok_def intro!: qlist_nil)

lemma IsEmptyQueue_ok:
  assumes "queue_ok m as"
  shows "IsEmptyQueue m = Some (err8 (if as = [] then TRUE else FALSE), m)"
  using assms
  by (auto simp: IsEmptyQueue_def elim!: queue_okE dest: qlist_size_zero)

lemma GetQueueSize_ok:
  assumes "queue_ok m as"
  shows "GetQueueSize m = Some (of_nat (length as), m)"
  using assms by (auto simp: GetQueueSize_def elim!: queue_okE)

lemma BufferInQueue_ok:
  assumes q: "queue_ok m as" and fresh: "nodes m pnew = None"
    and len: "20 \<le> len" "len \<le> 1024" "unat len \<le> length data"
    and room: "Suc (length as) < 2 ^ 31"
  shows "\<exists>m'. BufferInQueue (Some pnew) data len m = Some (SUCCESS, m') \<and>
    queue_ok m' (as @ [pnew]) \<and> packets m' (as @ [pnew]) = packets m as @ [take (unat len) data] \<and>
    (\<forall>a. a \<noteq> pnew \<longrightarrow> map_option payload (nodes m' a) = map_option payload (nodes m a))"
proof -
  from q obtain l where l: "lock m = 0" "g_queue m = Some l" "qlist l m as"
    "\<forall>a \<in> set as. packet_ok (nodes m a)" by (rule queue_okE)
  define nd where "nd = \<lparr>nprev = None, nnext = None, nlen = len, ndata = take (unat len) data\<rparr>"
  let ?m1 = "(set_node pnew nd m)\<lparr>lock := 1\<rparr>"
  have pnew: "pnew \<notin> set as" using qlist_fresh [OF l(3) fresh] .
  have q1: "qlist l ?m1 as" using qlist_set_fresh [OF l(3) pnew] by simp
  obtain m2 where m2: "LIST_RPUSH l pnew ?m1 = Some m2" "qlist l m2 (as @ [pnew])"
    "same_payload ?m1 m2" "g_queue m2 = g_queue ?m1" "lock m2 = lock ?m1"
    by (rule LIST_RPUSH_correct [OF q1 _ pnew room, of nd]) (auto intro: that)
  have run: "BufferInQueue (Some pnew) data len m = Some (SUCCESS, m2\<lparr>lock := 0\<rparr>)"
    using l len m2 by (simp add: BufferInQueue_def nd_def not_less)
  have pk: "packet_ok (nodes m2 a) = packet_ok (nodes ?m1 a)" for a
    using same_payload_packet_ok [OF m2(3)] .
  have "queue_ok (m2\<lparr>lock := 0\<rparr>) (as @ [pnew])"
    using m2 l pnew len by (auto simp: queue_ok_def pk) (auto simp: packet_ok_def nd_def)
  moreover have "packets m2 (as @ [pnew]) = packets m as @ [take (unat len) data]"
    using same_payload_packets [OF m2(3), of "as @ [pnew]"] packets_set_fresh [OF pnew, of nd m]
    by (simp add: packets_def) (simp add: node_data_def nd_def)
  moreover have "map_option payload (nodes m2 a) = map_option payload (nodes m a)" if "a \<noteq> pnew" for a
    using m2(3) that by (simp add: same_payload_def)
  ultimately show ?thesis using run by simp
qed

lemma BufferOutQueue_empty:
  "queue_ok m [] \<Longrightarrow> BufferOutQueue node m = Some (BUF_EMPTY, node, m)"
  by (simp add: BufferOutQueue_def IsEmptyQueue_ok)

lemma BufferOutQueue_ok:
  assumes q: "queue_ok m (a # as)"
  shows "\<exists>m'. BufferOutQueue node m = Some (SUCCESS, Some a, m') \<and> queue_ok m' as \<and>
    same_payload m m' \<and> packet_ok (nodes m' a)"
proof -
  from q obtain l where l: "lock m = 0" "g_queue m = Some l" "qlist l m (a # as)"
    "\<forall>c \<in> set (a # as). packet_ok (nodes m c)" by (rule queue_okE)
  have q1: "qlist l (m\<lparr>lock := 1\<rparr>) (a # as)" using l(3) by simp
  obtain m3 where m3: "LIST_LPOP l None (m\<lparr>lock := 1\<rparr>) = Some (Some a, m3)" "qlist l m3 as"
    "same_payload (m\<lparr>lock := 1\<rparr>) m3" "g_queue m3 = g_queue m" "lock m3 = 1"
    by (rule LIST_LPOP_correct [OF q1, of None]) (auto intro: that)
  have "same_payload m m3" using m3(3) by (simp add: same_payload_def)
  moreover from this have "packet_ok (nodes m3 c) = packet_ok (nodes m c)" for c
    by (rule same_payload_packet_ok)
  moreover have "BufferOutQueue node m = Some (SUCCESS, Some a, m3\<lparr>lock := 0\<rparr>)"
    using IsEmptyQueue_ok [OF q] l m3 by (simp add: BufferOutQueue_def)
  ultimately show ?thesis using l m3 by (auto simp: queue_ok_def same_payload_def)
qed

lemma bufferDestroy_ok:
  assumes "queue_ok m as"
  shows "\<exists>m'. bufferDestroy m = Some m' \<and> g_queue m' = None \<and> nodes m' = nodes m |` (- set as)"
  using assms by (auto simp: bufferDestroy_def LIST_DESTROY_correct elim!: queue_okE)

section \<open>The queue as a \<open>packet_fifo\<close>\<close>

definition queue_put :: "addr \<Rightarrow> string \<Rightarrow> qmem \<Rightarrow> qmem option" where
  "queue_put a v m =
     (case BufferInQueue (Some a) v (of_nat (length v)) m of
        None \<Rightarrow> None
      | Some (e, m') \<Rightarrow> if e = SUCCESS then Some m' else None)"

definition queue_get :: "qmem \<Rightarrow> (ptr \<times> qmem) option" where
  "queue_get m = map_option snd (BufferOutQueue None m)"

definition free_cell :: "qmem \<Rightarrow> addr \<Rightarrow> bool" where
  "free_cell m a \<longleftrightarrow> nodes m a = None"

definition packet_size_ok :: "string \<Rightarrow> bool" where
  "packet_size_ok v \<longleftrightarrow> 20 \<le> length v \<and> length v \<le> 1024"

lemma packet_size_words:
  assumes "packet_size_ok v"
  shows "20 \<le> (of_nat (length v) :: u32)" "(of_nat (length v) :: u32) \<le> 1024"
    "unat (of_nat (length v) :: u32) = length v"
  using assms by (auto simp: packet_size_ok_def word_le_nat_alt)

lemma same_payload_free: "same_payload m m' \<Longrightarrow> free_cell m' a = free_cell m a"
  unfolding same_payload_def free_cell_def by (drule spec [of _ a]) auto

interpretation lq: packet_fifo queue_ok node_data free_cell packet_size_ok queue_put queue_get "2 ^ 31 - 1"
proof (unfold_locales, goal_cases)
  case (1 m as a v)
  with packet_size_words [OF 1(3)] BufferInQueue_ok [of m as a "of_nat (length v)" v]
  obtain m' where m': "BufferInQueue (Some a) v (of_nat (length v)) m = Some (SUCCESS, m')"
    "queue_ok m' (as @ [a])" "packets m' (as @ [a]) = packets m as @ [v]"
    "\<forall>c. c \<noteq> a \<longrightarrow> map_option payload (nodes m' c) = map_option payload (nodes m c)"
    by (auto simp: free_cell_def)
  have "free_cell m' c" if "c \<noteq> a" "free_cell m c" for c
    using m'(4) that unfolding free_cell_def by (metis None_eq_map_option_iff)
  with m' show ?case by (auto simp: queue_put_def packets_def)
next
  case (2 m)
  then show ?case by (simp add: queue_get_def BufferOutQueue_empty)
next
  case (3 m a as)
  from BufferOutQueue_ok [OF 3, of None] obtain m' where m':
    "BufferOutQueue None m = Some (SUCCESS, Some a, m')" "queue_ok m' as" "same_payload m m'"
    by auto
  then show ?case
    by (intro exI [of _ m']) (simp add: queue_get_def same_payload_data same_payload_free)
qed

section \<open>Properties of the queue\<close>

text \<open>A queue as \<open>QueueInit\<close> leaves it, for the witnesses.\<close>

definition demo_queue :: qmem where
  "demo_queue = snd (QueueInit (Some 1) init_qmem)"

definition demo_packet :: string where
  "demo_packet = replicate 20 CHR ''a''"

lemma demo_queue_ok: "queue_ok demo_queue []"
  using QueueInit_ok [of init_qmem 1 SUCCESS demo_queue]
  by (simp add: demo_queue_def QueueInit_def init_qmem_def)

lemma demo_nodes [simp]: "nodes demo_queue = Map.empty"
  by (simp add: demo_queue_def QueueInit_def init_qmem_def)

text \<open>
  C4: Any sequence of enqueues (of packets the queue accepts, at addresses \<open>malloc\<close> may return)
  and dequeues runs without a fault or a hang; the packets that come out, followed by those
  still queued, are the packets that were queued before followed by those put in, byte for byte
  and in order, and the queue is well formed afterwards.
\<close>

theorem queue_fifo_order:
  assumes "queue_ok m as" "\<forall>a \<in> set (put_keys ops). nodes m a = None" "distinct (put_keys ops)"
    "\<forall>v \<in> set (put_vals ops). 20 \<le> length v \<and> length v \<le> 1024"
    "length as + length (put_keys ops) < 2 ^ 31"
  shows "\<exists>out m' as'. fifo_run queue_put queue_get node_data ops m = Some (out, m') \<and>
    queue_ok m' as' \<and> out @ packets m' as' = packets m as @ put_vals ops"
proof -
  have "\<exists>m' as'. fifo_run queue_put queue_get node_data ops m =
      Some (fst (fifo_spec ops (packets m as)), m') \<and> queue_ok m' as' \<and>
      packets m' as' = snd (fifo_spec ops (packets m as))"
    unfolding packets_def using assms
    by (intro lq.run_refines) (auto simp: free_cell_def packet_size_ok_def)
  then show ?thesis using fifo_spec_order [of ops "packets m as"] by metis
qed

theorem queue_fifo_order_witness:
  "\<exists>out m' as'. fifo_run queue_put queue_get node_data
      [Put 2 demo_packet, Put 3 demo_packet, Get] demo_queue = Some (out, m') \<and>
    queue_ok m' as' \<and> out @ packets m' as' = packets demo_queue [] @ [demo_packet, demo_packet]"
  using queue_fifo_order [OF demo_queue_ok, of "[Put 2 demo_packet, Put 3 demo_packet, Get]"]
  by (simp add: demo_packet_def)

text \<open>
  \<open>BufferInQueue\<close> on a well-formed queue returns on every branch: a length outside 20..1024 is
  DATA_INVALID, a failed \<open>malloc\<close> is MEM_MALLOC_FAIL, both without a change of memory; otherwise
  the first \<open>len\<close> bytes of the data become the last packet and the other packets stay as they are.
\<close>

theorem BufferInQueue_branches:
  assumes "queue_ok m as" "length as < 2 ^ 31 - 1" "\<forall>a. r = Some a \<longrightarrow> nodes m a = None"
    "unat len \<le> length data"
  shows "(len < 20 \<or> 1024 < len \<longrightarrow> BufferInQueue r data len m = Some (DATA_INVALID, m)) \<and>
    (20 \<le> len \<and> len \<le> 1024 \<and> r = None \<longrightarrow> BufferInQueue r data len m = Some (MEM_MALLOC_FAIL, m)) \<and>
    (20 \<le> len \<and> len \<le> 1024 \<longrightarrow> (\<forall>a. r = Some a \<longrightarrow>
      (\<exists>m'. BufferInQueue r data len m = Some (SUCCESS, m') \<and> queue_ok m' (as @ [a]) \<and>
        packets m' (as @ [a]) = packets m as @ [take (unat len) data])))"
proof -
  obtain l where "g_queue m = Some l" using assms(1) by (rule queue_okE)
  moreover have "\<exists>m'. BufferInQueue r data len m = Some (SUCCESS, m') \<and> queue_ok m' (as @ [a]) \<and>
      packets m' (as @ [a]) = packets m as @ [take (unat len) data]"
    if "20 \<le> len" "len \<le> 1024" "r = Some a" for a
    using BufferInQueue_ok [of m as a len data] assms that by auto
  ultimately show ?thesis by (auto simp: BufferInQueue_def)
qed

theorem BufferInQueue_branches_witness:
  "\<exists>m'. BufferInQueue (Some 2) demo_packet 20 demo_queue = Some (SUCCESS, m') \<and>
    queue_ok m' [2] \<and> packets m' [2] = [demo_packet]"
  using BufferInQueue_branches [OF demo_queue_ok, of "Some 2" 20 demo_packet]
  by (simp add: demo_packet_def packets_def)

text \<open>
  \<open>BufferOutQueue\<close> on a well-formed queue reports BUF_EMPTY and leaves the caller's pointer and
  the memory alone exactly when the queue is empty; otherwise it returns SUCCESS with the oldest
  packet, and the rest of the queue is intact. The branch of a failed pop after a non-empty check
  is not taken.
\<close>

theorem BufferOutQueue_branches:
  assumes "queue_ok m as"
  shows "case as of
      [] \<Rightarrow> BufferOutQueue node m = Some (BUF_EMPTY, node, m)
    | a # bs \<Rightarrow> \<exists>m'. BufferOutQueue node m = Some (SUCCESS, Some a, m') \<and> queue_ok m' bs \<and>
        node_data m' a = node_data m a \<and> packets m' bs = packets m bs"
proof (cases as)
  case Nil
  then show ?thesis using assms by (simp add: BufferOutQueue_empty)
next
  case (Cons a bs)
  then show ?thesis using assms BufferOutQueue_ok [of m a bs node]
    by (auto simp: same_payload_data same_payload_packets)
qed

theorem BufferOutQueue_branches_witness:
  "queue_ok demo_queue [] \<and> BufferOutQueue (Some 7) demo_queue = Some (BUF_EMPTY, Some 7, demo_queue)"
  using BufferOutQueue_branches [OF demo_queue_ok, of "Some 7"] demo_queue_ok by simp

text \<open>
  \<open>bufferDestroy\<close> frees every node of the queue, once, and no other cell, and clears
  \<open>g_queue\<close>: afterwards the queue reports itself empty and refuses every packet.
\<close>

theorem bufferDestroy_frees:
  assumes "queue_ok m as"
  shows "\<exists>m'. bufferDestroy m = Some m' \<and> nodes m' = nodes m |` (- set as) \<and>
    IsEmptyQueue m' = Some (err8 TRUE, m') \<and> GetQueueSize m' = Some (0, m') \<and>
    BufferInQueue r data len m' = Some (BUF_EMPTY, m') \<and>
    BufferOutQueue node m' = Some (BUF_EMPTY, node, m')"
proof -
  obtain m' where "bufferDestroy m = Some m'" "g_queue m' = None" "nodes m' = nodes m |` (- set as)"
    using bufferDestroy_ok [OF assms] by blast
  then show ?thesis
    by (simp add: IsEmptyQueue_def GetQueueSize_def BufferInQueue_def BufferOutQueue_def)
qed

theorem bufferDestroy_frees_witness:
  "\<exists>m'. bufferDestroy demo_queue = Some m' \<and> IsEmptyQueue m' = Some (err8 TRUE, m')"
  using bufferDestroy_frees [OF demo_queue_ok] by blast

text \<open>
  \<open>LIST_REMOVE_NODE\<close> takes a node out of any position of a well-formed list: the node is freed,
  the list of the remaining nodes is well formed with size and total length adjusted, and their
  packets are unchanged.
\<close>

theorem LIST_REMOVE_NODE_removes:
  assumes "qlist l m (as @ n # bs)"
  shows "\<exists>m'. LIST_REMOVE_NODE l n m = Some m' \<and> qlist l m' (as @ bs) \<and> nodes m' n = None \<and>
    packets m' (as @ bs) = packets m (as @ bs)"
  using assms by (rule LIST_REMOVE_NODE_correct)

text \<open>A queue of one packet, written out.\<close>

definition demo_one :: qmem where
  "demo_one = set_list 1 \<lparr>head = Some 2, tail = Some 2, bsize = 1, blen = 20\<rparr>
     (set_node 2 \<lparr>nprev = None, nnext = None, nlen = 20, ndata = demo_packet\<rparr> demo_queue)"

lemma demo_one_qlist: "qlist 1 demo_one ([] @ 2 # [])"
  by (simp add: demo_one_def qlist_def node_len_def)

theorem LIST_REMOVE_NODE_removes_witness:
  "\<exists>m'. LIST_REMOVE_NODE 1 2 demo_one = Some m' \<and> qlist 1 m' [] \<and> nodes m' 2 = None"
  using LIST_REMOVE_NODE_removes [OF demo_one_qlist] by auto

text \<open>
  \<open>LIST_LPUSH\<close> links the node in front of the list but does not count it: the size stays as it
  was, so the header no longer describes its list, and a node pushed on an empty list is never
  popped again.
\<close>

theorem LIST_LPUSH_not_counted:
  assumes "qlist l m as" "nodes m n = Some nd" "n \<notin> set as"
  shows "\<exists>m' b'. LIST_LPUSH l n m = Some m' \<and> hdrs m' l = Some b' \<and>
    dseg (nodes m') None (head b') (n # as) None \<and> bsize b' = of_nat (length as) \<and>
    \<not> qlist l m' (n # as) \<and> (as = [] \<longrightarrow> LIST_LPOP l None m' = Some (None, m'))"
proof -
  from LIST_LPUSH_correct [OF assms] obtain m' b b' where m': "LIST_LPUSH l n m = Some m'"
    "hdrs m l = Some b" "hdrs m' l = Some b'" "dseg (nodes m') None (head b') (n # as) None"
    "bsize b' = bsize b" by blast
  have size: "bsize b' = of_nat (length as)" using assms(1) m' by (auto simp: qlist_def)
  then have "\<not> qlist l m' (n # as)" using m'(3) by (simp add: qlist_def)
  with m' size show ?thesis by (auto simp: LIST_LPOP_def)
qed

theorem LIST_LPUSH_not_counted_witness:
  "\<exists>m' b'. LIST_LPUSH 1 2 (set_node 2 \<lparr>nprev = None, nnext = None, nlen = 20, ndata = demo_packet\<rparr>
      demo_queue) = Some m' \<and> hdrs m' 1 = Some b' \<and> bsize b' = 0 \<and> LIST_LPOP 1 None m' = Some (None, m')"
proof -
  have "qlist 1 demo_queue []" using demo_queue_ok
    by (simp add: queue_ok_def demo_queue_def QueueInit_def)
  then show ?thesis
    using LIST_LPUSH_not_counted [OF qlist_set_fresh, of 1 demo_queue "[]" 2] by fastforce
qed


section \<open>Showing the queue\<close>

text \<open>
  \<open>ShowQueue\<close> (built with \<open>DEBUG\<close>): the count of bytes and, by \<open>LIST_FOR_EACH\<close>, each node with its length, or nothing
  for an empty queue.
\<close>

partial_function (option) for_each :: "ptr \<Rightarrow> qmem \<Rightarrow> (addr \<times> u32) list option" where
  "for_each p m =
     (case p of
        None \<Rightarrow> Some []
      | Some a \<Rightarrow> do { nd \<leftarrow> nodes m a; out \<leftarrow> for_each (nnext nd) m; Some ((a, nlen nd) # out) })"

definition ShowQueue :: "qmem \<Rightarrow> ((u32 \<times> (addr \<times> u32) list) option \<times> qmem) option" where
  "ShowQueue m = do {
     let list = g_queue m;
     (e, m) \<leftarrow> IsEmptyQueue m;
     if e = err8 TRUE then Some (None, m)
     else do {
       l \<leftarrow> list;
       b \<leftarrow> hdrs m l;
       m \<leftarrow> atomic_lock_api m;
       c \<leftarrow> hdrs m l;
       out \<leftarrow> for_each (head c) m;
       m \<leftarrow> atomic_unlock_api m;
       Some (Some (blen b, out), m) } }"

lemma for_each_seg: "dseg (nodes m) pv p as None \<Longrightarrow> for_each p m = Some (map (\<lambda>a. (a, node_len m a)) as)"
proof (induction as arbitrary: pv p)
  case Nil
  then show ?case by (simp add: for_each.simps)
next
  case (Cons a as)
  then show ?case by (subst for_each.simps) (auto simp: node_len_def split: option.splits)
qed

text \<open>It shows every packet, in order, and leaves the queue as it is.\<close>

lemma ShowQueue_shows:
  assumes "queue_ok m as"
  shows "ShowQueue m = Some (if as = [] then None else Some (sum_list (map (node_len m) as), map (\<lambda>a. (a, node_len m a)) as), m)"
proof -
  obtain l where l: "lock m = 0" "g_queue m = Some l" "qlist l m as" using assms by (rule queue_okE)
  obtain b where b: "hdrs m l = Some b" "dseg (nodes m) None (head b) as None" "blen b = sum_list (map (node_len m) as)"
    using l(3) by (rule qlistE)
  have "for_each (head b) (m\<lparr>lock := 1\<rparr>) = Some (map (\<lambda>a. (a, node_len m a)) as)"
    using for_each_seg [of "m\<lparr>lock := 1\<rparr>" None "head b" as] b(2) by simp
  then show ?thesis using IsEmptyQueue_ok [OF assms] l b by (auto simp: ShowQueue_def)
qed

end
