(* ===== verification/Queue_Threads.thy ===== *)
theory Queue_Threads
  imports Queue
begin

text \<open>
  The two threads that share the queue, interleaved: the receiver (\<open>udp_server_loop\<close>, which asks
  for the size, enqueues, and asks for the size again for its message) and the worker
  (\<open>main_loop\<close>, which checks for emptiness, pops, processes and frees). A step is one exchange on
  the lock, one critical section body, or a piece of local code between them; a failed exchange
  is a thread that does not move. The steps are a relation, so the properties hold for every
  schedule and every sequence of datagrams.

  The receiver ends when \<open>recvfrom\<close> fails. Two pieces of local code can be undefined in C: the
  receiver's terminator behind a datagram of 1024 bytes, and what the worker does with a packet (a packet
  without a terminator, a field or a list of addresses that is too long; \<open>Dns_Client\<close> and \<open>Service\<close> say
  when). Here the processing of any packet may go wrong. A step into \<open>P_fault\<close> or \<open>C_fault\<close> is the last
  one of a schedule. In the queue calls a fault (a NULL queue, a broken link) is a step that does not exist.
  The signal handler is not one of the threads; the last lemma shows what it does to a thread
  that is inside a queue call.
\<close>

definition MAX_PCK :: int where
  "MAX_PCK = 1000"

definition MAX_LEN :: nat where
  "MAX_LEN = 1024"

section \<open>Program counters and steps\<close>

text \<open>The argument of the size calls: \<open>Some v\<close> before enqueuing \<open>v\<close>, \<open>None\<close> for the message.\<close>

datatype ppc =
  P_recv
| P_size_lock "string option" | P_size "string option" | P_size_unlock "string option" u32
| P_enqueue string
| P_push_lock addr | P_push addr | P_push_unlock
| P_ended | P_fault

datatype cpc =
  C_empty_lock | C_empty | C_empty_unlock u32
| C_pop_lock | C_pop | C_pop_unlock ptr
| C_process addr
| C_fault addr

record threads =
  mem :: qmem
  ppc :: ppc
  cpc :: cpc
  sent :: "string list"        \<comment> \<open>packets pushed so far\<close>
  processed :: "string list"   \<comment> \<open>packets processed so far\<close>

inductive thr_step :: "threads \<Rightarrow> threads \<Rightarrow> bool" where
  recv: "ppc s = P_recv \<Longrightarrow> length v < MAX_LEN \<Longrightarrow> thr_step s (s\<lparr>ppc := P_size_lock (Some v)\<rparr>)"
| recv_error: "ppc s = P_recv \<Longrightarrow> thr_step s (s\<lparr>ppc := P_ended\<rparr>)"
| recv_full: "ppc s = P_recv \<Longrightarrow> length (v :: string) = MAX_LEN \<Longrightarrow> thr_step s (s\<lparr>ppc := P_fault\<rparr>)"
| size_lock: "ppc s = P_size_lock k \<Longrightarrow> atomic_cas 0 1 (mem s) = (True, m) \<Longrightarrow>
     thr_step s (s\<lparr>mem := m, ppc := P_size k\<rparr>)"
| size: "ppc s = P_size k \<Longrightarrow> g_queue (mem s) = Some l \<Longrightarrow> hdrs (mem s) l = Some b \<Longrightarrow>
     thr_step s (s\<lparr>ppc := P_size_unlock k (bsize b)\<rparr>)"
| size_unlock: "ppc s = P_size_unlock k n \<Longrightarrow> atomic_cas 1 0 (mem s) = (True, m) \<Longrightarrow>
     thr_step s (s\<lparr>mem := m, ppc := (case k of None \<Rightarrow> P_recv
       | Some v \<Rightarrow> if sint n > MAX_PCK then P_recv else P_enqueue v)\<rparr>)"
| reject: "ppc s = P_enqueue v \<Longrightarrow> 1024 < length v \<or> length v < 20 \<Longrightarrow> thr_step s (s\<lparr>ppc := P_recv\<rparr>)"
| malloc_fail: "ppc s = P_enqueue v \<Longrightarrow> 20 \<le> length v \<Longrightarrow> length v \<le> 1024 \<Longrightarrow>
     thr_step s (s\<lparr>ppc := P_recv\<rparr>)"
| malloc_ok: "ppc s = P_enqueue v \<Longrightarrow> 20 \<le> length v \<Longrightarrow> length v \<le> 1024 \<Longrightarrow> nodes (mem s) a = None \<Longrightarrow>
     thr_step s (s\<lparr>mem := set_node a \<lparr>nprev = None, nnext = None, nlen = of_nat (length v), ndata = v\<rparr> (mem s),
       ppc := P_push_lock a\<rparr>)"
| push_lock: "ppc s = P_push_lock a \<Longrightarrow> atomic_cas 0 1 (mem s) = (True, m) \<Longrightarrow>
     thr_step s (s\<lparr>mem := m, ppc := P_push a\<rparr>)"
| push: "ppc s = P_push a \<Longrightarrow> g_queue (mem s) = Some l \<Longrightarrow> LIST_RPUSH l a (mem s) = Some m \<Longrightarrow>
     thr_step s (s\<lparr>mem := m, ppc := P_push_unlock, sent := sent s @ [node_data m a]\<rparr>)"
| push_unlock: "ppc s = P_push_unlock \<Longrightarrow> atomic_cas 1 0 (mem s) = (True, m) \<Longrightarrow>
     thr_step s (s\<lparr>mem := m, ppc := P_size_lock None\<rparr>)"
| empty_lock: "cpc s = C_empty_lock \<Longrightarrow> atomic_cas 0 1 (mem s) = (True, m) \<Longrightarrow>
     thr_step s (s\<lparr>mem := m, cpc := C_empty\<rparr>)"
| empty: "cpc s = C_empty \<Longrightarrow> g_queue (mem s) = Some l \<Longrightarrow> hdrs (mem s) l = Some b \<Longrightarrow>
     thr_step s (s\<lparr>cpc := C_empty_unlock (bsize b)\<rparr>)"
| empty_unlock: "cpc s = C_empty_unlock n \<Longrightarrow> atomic_cas 1 0 (mem s) = (True, m) \<Longrightarrow>
     thr_step s (s\<lparr>mem := m, cpc := (if n \<noteq> 0 then C_pop_lock else C_empty_lock)\<rparr>)"
| pop_lock: "cpc s = C_pop_lock \<Longrightarrow> atomic_cas 0 1 (mem s) = (True, m) \<Longrightarrow>
     thr_step s (s\<lparr>mem := m, cpc := C_pop\<rparr>)"
| pop: "cpc s = C_pop \<Longrightarrow> g_queue (mem s) = Some l \<Longrightarrow> LIST_LPOP l None (mem s) = Some (p, m) \<Longrightarrow>
     thr_step s (s\<lparr>mem := m, cpc := C_pop_unlock p\<rparr>)"
| pop_unlock: "cpc s = C_pop_unlock p \<Longrightarrow> atomic_cas 1 0 (mem s) = (True, m) \<Longrightarrow>
     thr_step s (s\<lparr>mem := m, cpc := (case p of None \<Rightarrow> C_empty_lock | Some a \<Rightarrow> C_process a)\<rparr>)"
| process: "cpc s = C_process a \<Longrightarrow> free_node a (mem s) = Some m \<Longrightarrow>
     thr_step s (s\<lparr>mem := m, cpc := C_empty_lock, processed := processed s @ [node_data (mem s) a]\<rparr>)"
| process_fault: "cpc s = C_process a \<Longrightarrow> thr_step s (s\<lparr>cpc := C_fault a\<rparr>)"

text \<open>A thread has run into undefined behaviour.\<close>

definition crashed :: "threads \<Rightarrow> bool" where
  "crashed s \<longleftrightarrow> ppc s = P_fault \<or> (\<exists>a. cpc s = C_fault a)"

definition thr_init :: "addr \<Rightarrow> threads" where
  "thr_init l = \<lparr>mem = snd (QueueInit (Some l) init_qmem), ppc = P_recv, cpc = C_empty_lock,
     sent = [], processed = []\<rparr>"

inductive thr_reach :: "threads \<Rightarrow> bool" where
  init: "thr_reach (thr_init l)"
| step: "thr_reach s \<Longrightarrow> \<not> crashed s \<Longrightarrow> thr_step s t \<Longrightarrow> thr_reach t"

section \<open>The invariant\<close>

text \<open>Inside a critical section: between a successful lock and the unlock.\<close>

fun p_cs :: "ppc \<Rightarrow> bool" where
  "p_cs (P_size k) = True"
| "p_cs (P_size_unlock k n) = True"
| "p_cs (P_push a) = True"
| "p_cs P_push_unlock = True"
| "p_cs _ = False"

fun c_cs :: "cpc \<Rightarrow> bool" where
  "c_cs C_empty = True"
| "c_cs (C_empty_unlock n) = True"
| "c_cs C_pop = True"
| "c_cs (C_pop_unlock p) = True"
| "c_cs _ = False"

text \<open>The node the receiver is about to push, the node the worker has taken out.\<close>

fun p_node :: "ppc \<Rightarrow> addr list" where
  "p_node (P_push_lock a) = [a]"
| "p_node (P_push a) = [a]"
| "p_node _ = []"

fun c_node :: "cpc \<Rightarrow> addr list" where
  "c_node (C_pop_unlock (Some a)) = [a]"
| "c_node (C_process a) = [a]"
| "c_node (C_fault a) = [a]"
| "c_node _ = []"

text \<open>What the receiver knows of the length of the queue: only the worker shortens it meanwhile.\<close>

fun p_knows :: "ppc \<Rightarrow> nat \<Rightarrow> bool" where
  "p_knows (P_size_unlock k n) len = (len \<le> unat n \<and> unat n \<le> 1001)"
| "p_knows (P_enqueue v) len = (len \<le> 1000)"
| "p_knows (P_push_lock a) len = (len \<le> 1000)"
| "p_knows (P_push a) len = (len \<le> 1000)"
| "p_knows _ len = True"

text \<open>What the worker knows: only it takes packets out.\<close>

fun c_knows :: "cpc \<Rightarrow> nat \<Rightarrow> bool" where
  "c_knows (C_empty_unlock n) len = (n \<noteq> 0 \<longrightarrow> len > 0)"
| "c_knows C_pop_lock len = (len > 0)"
| "c_knows C_pop len = (len > 0)"
| "c_knows (C_pop_unlock p) len = (p \<noteq> None)"
| "c_knows _ len = True"

definition thr_inv_with :: "threads \<Rightarrow> addr \<Rightarrow> addr list \<Rightarrow> bool" where
  "thr_inv_with s l as \<longleftrightarrow>
     g_queue (mem s) = Some l \<and> qlist l (mem s) as \<and>
     lock (mem s) = of_bool (p_cs (ppc s) \<or> c_cs (cpc s)) \<and> \<not> (p_cs (ppc s) \<and> c_cs (cpc s)) \<and>
     distinct (p_node (ppc s) @ c_node (cpc s) @ as) \<and>
     (\<forall>a \<in> set (p_node (ppc s) @ c_node (cpc s) @ as). packet_ok (nodes (mem s) a)) \<and>
     length as \<le> 1001 \<and> p_knows (ppc s) (length as) \<and> c_knows (cpc s) (length as) \<and>
     sent s = processed s @ map (node_data (mem s)) (c_node (cpc s) @ as)"

definition thr_inv :: "threads \<Rightarrow> bool" where
  "thr_inv s \<longleftrightarrow> (\<exists>l as. thr_inv_with s l as)"

lemma thr_inv_init: "thr_inv (thr_init l)"
  unfolding thr_inv_def thr_inv_with_def thr_init_def
  by (rule exI [of _ l], rule exI [of _ "[]"])
     (auto simp: QueueInit_def init_qmem_def intro!: qlist_nil)

section \<open>Every step keeps the invariant\<close>

lemma atomic_cas_True [simp]:
  "atomic_cas old new m = (True, m') \<longleftrightarrow> lock m = old \<and> m' = m\<lparr>lock := new\<rparr>"
  by (auto simp: atomic_cas_def)

lemma same_payload_maps:
  "same_payload m m' \<Longrightarrow> node_data m' = node_data m"
  by (rule ext) (rule same_payload_data)

lemma c_knows_mono: "c_knows c n \<Longrightarrow> n \<le> k \<Longrightarrow> c_knows c k"
  by (cases c) auto

lemma p_knows_antimono: "p_knows c n \<Longrightarrow> k \<le> n \<Longrightarrow> p_knows c k"
  by (cases c) auto

lemma inv_malloc:
  assumes "thr_inv_with s l as" "ppc s = P_enqueue v" "20 \<le> length v" "length v \<le> 1024"
    "nodes (mem s) a = None"
  shows "thr_inv_with (s\<lparr>mem := set_node a \<lparr>nprev = None, nnext = None, nlen = of_nat (length v), ndata = v\<rparr> (mem s),
    ppc := P_push_lock a\<rparr>) l as"
proof -
  have fresh: "a \<notin> set (c_node (cpc s) @ as)"
    using assms by (auto simp: thr_inv_with_def packet_ok_def dest!: bspec [where x = a])
  have pk: "packet_ok (Some \<lparr>nprev = None, nnext = None, nlen = of_nat (length v), ndata = v\<rparr>)"
    using packet_size_words [of v] assms by (simp add: packet_ok_def packet_size_ok_def)
  have data: "map (node_data (set_node a nd (mem s))) (c_node (cpc s) @ as) =
      map (node_data (mem s)) (c_node (cpc s) @ as)" for nd
    using packets_set_fresh [OF fresh] by (simp add: packets_def)
  show ?thesis
    unfolding thr_inv_with_def using assms fresh pk data
    by (auto simp: thr_inv_with_def intro!: qlist_set_fresh)
qed

lemma inv_push:
  assumes inv: "thr_inv_with s l as" and pc: "ppc s = P_push a" and run: "LIST_RPUSH l a (mem s) = Some m"
  shows "thr_inv_with (s\<lparr>mem := m, ppc := P_push_unlock, sent := sent s @ [node_data m a]\<rparr>) l (as @ [a])"
proof -
  from inv pc obtain nd where nd: "nodes (mem s) a = Some nd" "a \<notin> set as" "length as \<le> 1000"
    "qlist l (mem s) as" "g_queue (mem s) = Some l" "lock (mem s) = 1"
    by (auto simp: thr_inv_with_def packet_ok_def split: option.splits)
  obtain m' where m': "LIST_RPUSH l a (mem s) = Some m'" "qlist l m' (as @ [a])"
    "same_payload (mem s) m'" "g_queue m' = g_queue (mem s)" "lock m' = lock (mem s)"
    by (rule LIST_RPUSH_correct [OF nd(4,1,2)]) (use nd(3) in \<open>auto intro: that\<close>)
  then show ?thesis using run inv pc nd
    by (auto simp: thr_inv_with_def same_payload_packet_ok [OF m'(3)] same_payload_maps [OF m'(3)]
        elim: c_knows_mono)
qed

lemma inv_pop:
  assumes inv: "thr_inv_with s l as" and pc: "cpc s = C_pop" and run: "LIST_LPOP l None (mem s) = Some (p, m)"
  shows "thr_inv_with (s\<lparr>mem := m, cpc := C_pop_unlock p\<rparr>) l (tl as)"
proof -
  from inv pc obtain a bs where as: "as = a # bs" by (cases as) (auto simp: thr_inv_with_def)
  with inv have q: "qlist l (mem s) (a # bs)" by (simp add: thr_inv_with_def)
  obtain m' where m': "LIST_LPOP l None (mem s) = Some (Some a, m')" "qlist l m' bs"
    "same_payload (mem s) m'" "g_queue m' = g_queue (mem s)" "lock m' = lock (mem s)"
    by (rule LIST_LPOP_correct [OF q, of None]) (auto intro: that)
  have "p_knows (ppc s) (length bs)" if "p_knows (ppc s) (length as)"
    using that as by (auto elim: p_knows_antimono)
  with m' show ?thesis using run inv pc as
    by (auto simp: thr_inv_with_def same_payload_packet_ok [OF m'(3)] same_payload_maps [OF m'(3)])
qed

lemma inv_process:
  assumes inv: "thr_inv_with s l as" and pc: "cpc s = C_process a" and run: "free_node a (mem s) = Some m"
  shows "thr_inv_with (s\<lparr>mem := m, cpc := C_empty_lock, processed := processed s @ [node_data (mem s) a]\<rparr>) l as"
proof -
  from run have m: "m = (mem s)\<lparr>nodes := (nodes (mem s))(a := None)\<rparr>"
    by (auto simp: free_node_def split: option.splits)
  have fresh: "a \<notin> set as" "a \<notin> set (p_node (ppc s))" using inv pc by (auto simp: thr_inv_with_def)
  have data: "map (node_data m) as = map (node_data (mem s)) as"
    and len: "sum_list (map (node_len m) as) = sum_list (map (node_len (mem s)) as)"
    using fresh(1)
    by (auto simp: m node_data_def node_len_def intro!: arg_cong [where f = sum_list])
  have "qlist l m as"
    using inv len fresh(1) by (auto simp: thr_inv_with_def qlist_def m split: option.splits)
  then show ?thesis using inv pc fresh data by (auto simp: thr_inv_with_def m)
qed

lemma packet_ok_lock [simp]: "nodes (m\<lparr>lock := v\<rparr>) = nodes m"
  by simp

lemma thr_step_inv:
  assumes "thr_step s t" "thr_inv s"
  shows "thr_inv t"
proof -
  from assms(2) obtain l as where inv: "thr_inv_with s l as" by (auto simp: thr_inv_def)
  have bsize: "g_queue (mem s) = Some k \<Longrightarrow> hdrs (mem s) k = Some b \<Longrightarrow>
      k = l \<and> unat (bsize b) = length as \<and> (bsize b = 0 \<longleftrightarrow> as = [])" for k b
    using inv by (auto simp: thr_inv_with_def qlist_def unat_of_nat)
  from assms(1) have "\<exists>bs. thr_inv_with t l bs"
  proof cases
    case (malloc_ok v a) then show ?thesis using inv_malloc [OF inv] by blast
  next
    case (push a k m)
    moreover have "k = l" using inv push by (simp add: thr_inv_with_def)
    ultimately show ?thesis using inv_push [OF inv] by blast
  next
    case (pop k p m)
    moreover have "k = l" using inv pop by (simp add: thr_inv_with_def)
    ultimately show ?thesis using inv_pop [OF inv] by blast
  next
    case (process a m) then show ?thesis using inv_process [OF inv] by blast
  next
    case (size_unlock k n m)
    have "1000 < sint n \<longleftrightarrow> 1000 < unat n" if "unat n \<le> 1001"
      using that sint_small [of n] by (simp del: of_nat_unat)
    then show ?thesis using inv size_unlock
      by (intro exI [of _ as]) (auto simp: thr_inv_with_def MAX_PCK_def split: option.splits)
  next
    case (size k j b) then show ?thesis using inv bsize
      by (intro exI [of _ as]) (auto simp: thr_inv_with_def)
  next
    case (empty j b) then show ?thesis using inv bsize
      by (intro exI [of _ as]) (auto simp: thr_inv_with_def)
  next
    case (pop_unlock p m) then show ?thesis using inv
      by (intro exI [of _ as]) (cases p; auto simp: thr_inv_with_def)
  qed (use inv in \<open>intro exI [of _ as]; auto simp: thr_inv_with_def\<close>)+
  then show ?thesis by (auto simp: thr_inv_def)
qed

lemma thr_reach_inv: "thr_reach s \<Longrightarrow> thr_inv s"
  by (induction rule: thr_reach.induct) (auto intro: thr_inv_init thr_step_inv)

section \<open>Properties of every schedule\<close>

lemma reach_invE:
  assumes "thr_reach s"
  obtains l as b where "thr_inv_with s l as" "hdrs (mem s) l = Some b" "g_queue (mem s) = Some l"
proof -
  obtain l as where inv: "thr_inv_with s l as"
    using thr_reach_inv [OF assms] by (auto simp: thr_inv_def)
  then have "qlist l (mem s) as" "g_queue (mem s) = Some l" by (simp_all add: thr_inv_with_def)
  with inv that show thesis by (auto elim: qlistE)
qed


fun c_waits :: "cpc \<Rightarrow> bool" where
  "c_waits C_empty_lock = True"
| "c_waits C_pop_lock = True"
| "c_waits _ = False"

lemma thr_go: "thr_reach s \<Longrightarrow> thr_step s t \<Longrightarrow> \<not> crashed s \<Longrightarrow> thr_reach t"
  by (rule thr_reach.step)

lemma demo_reach: "thr_reach (thr_init 1)"
  by (rule thr_reach.init)

lemma demo_inside:
  "\<exists>s. thr_reach s \<and> \<not> crashed s \<and> ppc s = P_size (Some []) \<and> cpc s = C_empty_lock"
proof -
  let ?s = "thr_init 1" let ?t = "?s\<lparr>ppc := P_size_lock (Some [])\<rparr>"
  let ?u = "?t\<lparr>mem := (mem ?t)\<lparr>lock := 1\<rparr>, ppc := P_size (Some [])\<rparr>"
  have "thr_reach ?t"
    by (intro thr_go [OF demo_reach] thr_step.recv) (simp_all add: thr_init_def MAX_LEN_def crashed_def)
  then have "thr_reach ?u"
    by (intro thr_go [OF _ thr_step.size_lock])
       (simp_all add: thr_init_def crashed_def QueueInit_def init_qmem_def)
  then show ?thesis by (intro exI [of _ ?u]) (simp add: thr_init_def crashed_def)
qed

text \<open>C12: The receiver and the worker are never inside their critical sections at the same time.\<close>

theorem thr_mutual_exclusion:
  assumes "thr_reach s"
  shows "\<not> (p_cs (ppc s) \<and> c_cs (cpc s))"
  using assms by (rule reach_invE) (simp add: thr_inv_with_def)

theorem thr_mutual_exclusion_witness:
  "\<exists>s. thr_reach s \<and> p_cs (ppc s) \<and> c_waits (cpc s) \<and> \<not> (p_cs (ppc s) \<and> c_cs (cpc s))"
  using demo_inside thr_mutual_exclusion by fastforce

text \<open>
  C5: Under every schedule the packets processed, then the one in the worker's hand, then those in
  the queue are exactly the packets pushed, in order: none is lost, doubled, changed or overtaken.
\<close>

theorem thr_fifo:
  assumes "thr_reach s"
  shows "\<exists>l as. g_queue (mem s) = Some l \<and> qlist l (mem s) as \<and>
    sent s = processed s @ packets (mem s) (c_node (cpc s)) @ packets (mem s) as"
  using assms by (rule reach_invE) (auto simp: thr_inv_with_def packets_def)








text \<open>
  C37: Under every schedule the queue holds at most \<open>MAX_PCK + 1\<close> packets, each of 20 to 1024 bytes,
  so its memory is bounded; the size field (a 32-bit int) never wraps.
\<close>

theorem thr_queue_bound:
  assumes "thr_reach s"
  shows "\<exists>l b as. g_queue (mem s) = Some l \<and> hdrs (mem s) l = Some b \<and> qlist l (mem s) as \<and>
    sint (bsize b) = int (length as) \<and> int (length as) \<le> MAX_PCK + 1 \<and>
    (\<forall>a \<in> set as. 20 \<le> length (node_data (mem s) a) \<and> length (node_data (mem s) a) \<le> 1024)"
proof -
  obtain l as b where inv: "thr_inv_with s l as" "hdrs (mem s) l = Some b" "g_queue (mem s) = Some l"
    using assms by (rule reach_invE)
  then have "bsize b = of_nat (length as)" "length as \<le> 1001" by (auto simp: thr_inv_with_def qlist_def)
  then have "sint (bsize b) = int (length as)" by (subst sint_small) simp_all
  moreover have "20 \<le> length (node_data (mem s) a) \<and> length (node_data (mem s) a) \<le> 1024"
    if "a \<in> set as" for a
  proof -
    have "packet_ok (nodes (mem s) a)" using inv(1) that by (auto simp: thr_inv_with_def)
    then show ?thesis
      by (auto simp: packet_ok_def node_data_def word_le_nat_alt split: option.splits)
  qed
  ultimately show ?thesis using inv by (auto simp: thr_inv_with_def MAX_PCK_def)
qed

theorem thr_queue_bound_witness:
  "\<exists>l b as. g_queue (mem (thr_init 1)) = Some l \<and> hdrs (mem (thr_init 1)) l = Some b \<and>
    qlist l (mem (thr_init 1)) as \<and> int (length as) \<le> MAX_PCK + 1"
  using thr_queue_bound [OF demo_reach] by blast

text \<open>The bound is reached: the receiver alone can fill the queue one packet past \<open>MAX_PCK\<close>.\<close>

definition at_rest :: "threads \<Rightarrow> nat \<Rightarrow> bool" where
  "at_rest s n \<longleftrightarrow> thr_reach s \<and> ppc s = P_recv \<and> cpc s = C_empty_lock \<and> finite (dom (nodes (mem s))) \<and>
     (\<exists>l as. thr_inv_with s l as \<and> length as = n)"

lemma same_payload_dom: "same_payload m m' \<Longrightarrow> dom (nodes m') = dom (nodes m)"
  unfolding same_payload_def dom_def by (metis None_eq_map_option_iff)

lemma size_call:
  assumes "thr_reach s" "ppc s = P_size_lock k" "cpc s = C_empty_lock" "thr_inv_with s l as"
  shows "thr_reach (s\<lparr>ppc := (case k of None \<Rightarrow> P_recv
    | Some v \<Rightarrow> if length as > 1000 then P_recv else P_enqueue v)\<rparr>)"
proof -
  let ?m = "mem s"
  have m: "lock ?m = 0" "g_queue ?m = Some l" "qlist l ?m as" "length as \<le> 1001"
    using assms by (auto simp: thr_inv_with_def)
  from m(3) obtain b where b: "hdrs ?m l = Some b" "bsize b = of_nat (length as)" by (rule qlistE)
  have "1000 < sint (bsize b) \<longleftrightarrow> 1000 < length as" using b m(4) by (subst sint_small) simp_all
  moreover have "thr_reach (s\<lparr>mem := ?m\<lparr>lock := 1\<rparr>, ppc := P_size k\<rparr>)"
    using assms(2,3) m by (intro thr_go [OF assms(1) thr_step.size_lock]) (simp_all add: crashed_def)
  then have "thr_reach (s\<lparr>mem := ?m\<lparr>lock := 1\<rparr>, ppc := P_size_unlock k (bsize b)\<rparr>)"
    by (rule thr_go) (use m b assms(3) thr_step.size [of "s\<lparr>mem := ?m\<lparr>lock := 1\<rparr>, ppc := P_size k\<rparr>" k l b]
      in \<open>simp_all add: crashed_def\<close>)
  then have "thr_reach (s\<lparr>mem := ?m, ppc := (case k of None \<Rightarrow> P_recv
      | Some v \<Rightarrow> if sint (bsize b) > MAX_PCK then P_recv else P_enqueue v)\<rparr>)"
    by (rule thr_go)
       (use m assms(3) thr_step.size_unlock [of "s\<lparr>mem := ?m\<lparr>lock := 1\<rparr>, ppc := P_size_unlock k (bsize b)\<rparr>"
          k "bsize b" ?m] in \<open>simp_all add: crashed_def\<close>)
  ultimately show ?thesis by (simp add: MAX_PCK_def cong: option.case_cong)
qed

lemma at_rest_push:
  assumes "at_rest s n" "n \<le> 1000"
  shows "\<exists>t. at_rest t (Suc n)"
proof -
  from assms(1) obtain l as where s: "thr_reach s" "ppc s = P_recv" "cpc s = C_empty_lock"
    "finite (dom (nodes (mem s)))" "thr_inv_with s l as" "length as = n"
    by (auto simp: at_rest_def)
  define v where "v = replicate 20 CHR ''x''"
  obtain a where a: "nodes (mem s) a = None" using ex_new_if_finite [OF _ s(4)] by (auto simp: dom_def)
  let ?nd = "\<lparr>nprev = None, nnext = None, nlen = of_nat (length v), ndata = v\<rparr>"
  let ?s1 = "s\<lparr>ppc := P_size_lock (Some v)\<rparr>"
  have "thr_reach ?s1" using s(2,3)
    by (intro thr_go [OF s(1)] thr_step.recv) (simp_all add: v_def MAX_LEN_def crashed_def)
  moreover have "thr_inv_with ?s1 l as" using s by (simp add: thr_inv_with_def)
  ultimately have r2: "thr_reach (s\<lparr>ppc := P_enqueue v\<rparr>)"
    using size_call [of ?s1 "Some v" l as] s assms(2) by simp
  have i2: "thr_inv_with (s\<lparr>ppc := P_enqueue v\<rparr>) l as"
    using s assms(2) by (simp add: thr_inv_with_def)
  let ?s3 = "s\<lparr>mem := set_node a ?nd (mem s), ppc := P_push_lock a\<rparr>"
  have r3: "thr_reach ?s3"
    using thr_go [OF r2 thr_step.malloc_ok [of _ v a]] a s(3) by (simp add: v_def crashed_def)
  have i3: "thr_inv_with ?s3 l as" using inv_malloc [OF i2, of v a] a by (simp add: v_def)
  let ?s4 = "s\<lparr>mem := (set_node a ?nd (mem s))\<lparr>lock := 1\<rparr>, ppc := P_push a\<rparr>"
  have st: "thr_step ?s3 ?s4" using i3 s(3) thr_step.push_lock [of ?s3 a "(mem ?s3)\<lparr>lock := 1\<rparr>"]
    by (simp add: thr_inv_with_def)
  have r4: "thr_reach ?s4" by (rule thr_go [OF r3 st]) (use s(3) in \<open>simp add: crashed_def\<close>)
  have i4: "thr_inv_with ?s4 l as" using i3 s(3) by (simp add: thr_inv_with_def)
  have pre: "qlist l (mem ?s4) as" "nodes (mem ?s4) a = Some ?nd" "a \<notin> set as" "Suc (length as) < 2 ^ 31"
    using i4 s(6) assms(2) by (simp_all add: thr_inv_with_def)
  obtain m where m: "LIST_RPUSH l a (mem ?s4) = Some m" "same_payload (mem ?s4) m"
    by (rule LIST_RPUSH_correct [OF pre])
  let ?s5 = "s\<lparr>mem := m, ppc := P_push_unlock, sent := sent s @ [node_data m a]\<rparr>"
  have r5: "thr_reach ?s5"
    using thr_go [OF r4 thr_step.push [of ?s4 a l m]] m i4 s(3) by (simp add: thr_inv_with_def crashed_def)
  have i5: "thr_inv_with ?s5 l (as @ [a])" using inv_push [OF i4 _ m(1)] by simp
  let ?s6 = "?s5\<lparr>mem := m\<lparr>lock := 0\<rparr>, ppc := P_size_lock None\<rparr>"
  have r6: "thr_reach ?s6"
    using thr_go [OF r5 thr_step.push_unlock [of ?s5 "m\<lparr>lock := 0\<rparr>"]] i5 s(3)
    by (simp add: thr_inv_with_def crashed_def)
  have i6: "thr_inv_with ?s6 l (as @ [a])" using i5 s(3) by (simp add: thr_inv_with_def)
  let ?t = "?s6\<lparr>ppc := P_recv\<rparr>"
  have "thr_reach ?t" using size_call [OF r6 _ _ i6] s(3) by simp
  moreover have "thr_inv_with ?t l (as @ [a])" using i6 by (simp add: thr_inv_with_def)
  moreover have "finite (dom (nodes m))" using same_payload_dom [OF m(2)] s(4) by simp
  ultimately have "at_rest ?t (Suc n)" unfolding at_rest_def
    using s by (intro conjI exI [of _ l] exI [of _ "as @ [a]"]) simp_all
  then show ?thesis by blast
qed

lemma at_rest_all: "n \<le> 1001 \<Longrightarrow> \<exists>s. at_rest s n"
proof (induction n)
  case 0
  have "at_rest (thr_init 1) 0"
    using demo_reach thr_inv_init [of 1]
    by (auto simp: at_rest_def thr_init_def QueueInit_def init_qmem_def thr_inv_with_def intro!: qlist_nil exI)
  then show ?case by blast
next
  case (Suc n)
  then show ?case using at_rest_push [of _ n] by auto
qed

theorem thr_fifo_witness:
  "\<exists>s. thr_reach s \<and> 3 \<le> length (sent s) \<and> (\<exists>l as. g_queue (mem s) = Some l \<and> qlist l (mem s) as \<and>
    sent s = processed s @ packets (mem s) (c_node (cpc s)) @ packets (mem s) as)"
proof -
  obtain s where s: "thr_reach s" "\<exists>l as. thr_inv_with s l as \<and> length as = 3"
    using at_rest_all [of 3] by (auto simp: at_rest_def)
  from s(2) have "3 \<le> length (sent s)" by (auto simp: thr_inv_with_def)
  then show ?thesis using s(1) thr_fifo [OF s(1)] by blast
qed

text \<open>
  The queue can hold 1001 packets, one more than \<open>MAX_PCK\<close>, which its comment calls the maximal
  number of packets: the receiver drops only when the size is already above \<open>MAX_PCK\<close>.
\<close>

theorem thr_queue_reaches_1001:
  "\<exists>s l as. thr_reach s \<and> g_queue (mem s) = Some l \<and> qlist l (mem s) as \<and> int (length as) = MAX_PCK + 1"
proof -
  obtain s where "at_rest s 1001" using at_rest_all [of 1001] by auto
  then show ?thesis by (auto simp: at_rest_def thr_inv_with_def MAX_PCK_def)
qed

text \<open>
  The signal handler calls \<open>bufferDestroy\<close>, which does not take the lock. Where it runs while a thread is about to
  use the queue inside its critical section, that thread finds no queue any more and has no step: in C it
  follows a null pointer.
\<close>

theorem destroy_inside_queue_call:
  assumes "thr_reach s" "ppc s = P_size k \<or> ppc s = P_push a" "bufferDestroy (mem s) = Some m"
  shows "lock m = 1 \<and> \<not> (\<exists>t. thr_step (s\<lparr>mem := m\<rparr>) t \<and> ppc t \<noteq> ppc s)"
proof -
  obtain l as where inv: "thr_inv_with s l as" using assms(1) by (rule reach_invE)
  then have "m = (mem s)\<lparr>nodes := nodes (mem s) |` (- set as), hdrs := (hdrs (mem s))(l := None), g_queue := None\<rparr>"
    using assms(3) by (auto simp: bufferDestroy_def thr_inv_with_def LIST_DESTROY_correct)
  then show ?thesis using inv assms(2) by (auto simp: thr_inv_with_def elim!: thr_step.cases)
qed

theorem destroy_inside_queue_call_witness:
  "\<exists>s k m. thr_reach s \<and> ppc s = P_size k \<and> bufferDestroy (mem s) = Some m \<and>
    \<not> (\<exists>t. thr_step (s\<lparr>mem := m\<rparr>) t \<and> ppc t \<noteq> ppc s)"
proof -
  obtain s where s: "thr_reach s" "ppc s = P_size (Some [])" using demo_inside by blast
  obtain l as where "thr_inv_with s l as" using s(1) by (rule reach_invE)
  then obtain m where "bufferDestroy (mem s) = Some m"
    by (auto simp: bufferDestroy_def thr_inv_with_def LIST_DESTROY_correct)
  then show ?thesis using s destroy_inside_queue_call [OF s(1)] by blast
qed

end
