(* ===== verification/Cjson_Number.thy ===== *)
theory Cjson_Number
  imports Prelude Complex_Main
begin

text \<open>
  The numbers of \<open>cJSON.c\<close>: a binary64 \<open>double\<close> with the library conversions the code calls
  (\<open>strtod\<close>, \<open>sprintf\<close> with \<open>%1.15g\<close> and \<open>%1.17g\<close>, \<open>sscanf\<close> with \<open>%lg\<close>), \<open>compare_double\<close>, the
  saturating conversion to \<open>int\<close>, the text that \<open>print_number\<close> writes and the scan of
  \<open>parse_number\<close>. A finite double is the rational it stands for; the sign of zero, which the code
  never looks at, is not kept.
\<close>

section \<open>Doubles\<close>

datatype dbl = NaN | Inf bool | Fin rat

definition pow_int :: "rat \<Rightarrow> int \<Rightarrow> rat" where
  "pow_int b e = (if 0 \<le> e then b ^ nat e else 1 / b ^ nat (- e))"

fun bits :: "nat \<Rightarrow> nat" where
  "bits n = (if n = 0 then 0 else Suc (bits (n div 2)))"

declare bits.simps [simp del]

text \<open>The exponents of the leading binary and decimal digit of a positive number.\<close>

definition ilog2 :: "rat \<Rightarrow> int" where
  "ilog2 a = (if 1 \<le> a then int (bits (nat \<lfloor>a\<rfloor>)) - 1 else - int (bits (nat (\<lceil>1 / a\<rceil> - 1))))"

definition ilog10 :: "rat \<Rightarrow> int" where
  "ilog10 a = (if 1 \<le> a then int (length (show_nat (nat \<lfloor>a\<rfloor>))) - 1
               else - int (length (show_nat (nat (\<lceil>1 / a\<rceil> - 1)))))"

definition round_half_even :: "rat \<Rightarrow> int" where
  "round_half_even q =
     (let f = \<lfloor>q\<rfloor>; r = q - of_int f in
      if r < 1 / 2 then f else if 1 / 2 < r then f + 1 else if even f then f else f + 1)"

text \<open>Rounding to binary64, subnormal numbers and overflow to infinity included.\<close>

definition round_dbl :: "rat \<Rightarrow> dbl" where
  "round_dbl q =
     (if q = 0 then Fin 0
      else let u = pow_int 2 (max (ilog2 \<bar>q\<bar>) (- 1022) - 52);
               v = of_int (round_half_even (\<bar>q\<bar> / u)) * u in
           if v \<ge> 2 ^ 1024 then Inf (q < 0) else Fin (sgn q * v))"

definition dbl_of_int :: "int \<Rightarrow> dbl" where
  "dbl_of_int i = round_dbl (of_int i)"

fun dbl_eq :: "dbl \<Rightarrow> dbl \<Rightarrow> bool" where
  "dbl_eq (Fin a) (Fin b) = (a = b)"
| "dbl_eq (Inf a) (Inf b) = (a = b)"
| "dbl_eq _ _ = False"

fun dbl_le :: "dbl \<Rightarrow> dbl \<Rightarrow> bool" where
  "dbl_le (Fin a) (Fin b) = (a \<le> b)"
| "dbl_le (Inf a) (Inf b) = (a \<or> \<not> b)"
| "dbl_le (Inf a) (Fin b) = a"
| "dbl_le (Fin a) (Inf b) = (\<not> b)"
| "dbl_le _ _ = False"

fun dbl_abs :: "dbl \<Rightarrow> dbl" where
  "dbl_abs (Fin a) = Fin \<bar>a\<bar>"
| "dbl_abs (Inf a) = Inf False"
| "dbl_abs NaN = NaN"

fun dbl_minus :: "dbl \<Rightarrow> dbl \<Rightarrow> dbl" where
  "dbl_minus (Fin a) (Fin b) = round_dbl (a - b)"
| "dbl_minus (Inf a) (Fin b) = Inf a"
| "dbl_minus (Fin a) (Inf b) = Inf (\<not> b)"
| "dbl_minus (Inf a) (Inf b) = (if a = b then NaN else Inf a)"
| "dbl_minus _ _ = NaN"

text \<open>Times a positive finite number.\<close>

fun dbl_scale :: "dbl \<Rightarrow> rat \<Rightarrow> dbl" where
  "dbl_scale (Fin a) k = round_dbl (a * k)"
| "dbl_scale (Inf a) k = Inf a"
| "dbl_scale NaN k = NaN"

definition DBL_EPSILON :: rat where
  "DBL_EPSILON = 1 / 2 ^ 52"

definition compare_double :: "dbl \<Rightarrow> dbl \<Rightarrow> bool" where
  "compare_double a b =
     (let maxVal = (if dbl_le (dbl_abs a) (dbl_abs b) \<or> a = NaN \<or> b = NaN then dbl_abs b else dbl_abs a) in
      dbl_le (dbl_abs (dbl_minus a b)) (dbl_scale maxVal DBL_EPSILON))"

text \<open>
  The conversion to \<open>int\<close> of \<open>parse_number\<close>, \<open>cJSON_SetNumberHelper\<close> and \<open>cJSON_CreateNumber\<close>:
  saturating, towards zero. Of a NaN it is undefined (\<open>None\<close>).
\<close>

definition INT_MAX :: int where "INT_MAX = 2147483647"
definition INT_MIN :: int where "INT_MIN = - 2147483648"

definition int_of_dbl :: "dbl \<Rightarrow> int option" where
  "int_of_dbl d =
     (if dbl_le (Fin (of_int INT_MAX)) d then Some INT_MAX
      else if dbl_le d (Fin (of_int INT_MIN)) then Some INT_MIN
      else case d of Fin q \<Rightarrow> Some (if 0 \<le> q then \<lfloor>q\<rfloor> else \<lceil>q\<rceil>) | _ \<Rightarrow> None)"

section \<open>Decimal text\<close>

definition strip_zeros :: "string \<Rightarrow> string" where
  "strip_zeros s = rev (dropWhile (\<lambda>c. c = CHR ''0'') (rev s))"

definition with_point :: "string \<Rightarrow> string \<Rightarrow> string" where
  "with_point ip fp = (let fp = strip_zeros fp in if fp = [] then ip else ip @ CHR ''.'' # fp)"

text \<open>
  \<open>sprintf("%1.Pg")\<close> of a finite number: \<open>P\<close> significant digits of the exact value, rounded half to
  even, in fixed or exponent notation, without trailing zeros.
\<close>

definition show_g :: "nat \<Rightarrow> rat \<Rightarrow> string" where
  "show_g P q =
     (if q = 0 then ''0''
      else let a = \<bar>q\<bar>; x0 = ilog10 a;
               m0 = round_half_even (a * pow_int 10 (int P - 1 - x0));
               (m, x) = (if m0 = 10 ^ P then (10 ^ (P - 1), x0 + 1) else (m0, x0));
               ds = show_nat (nat m);
               body = (if - 4 \<le> x \<and> x < int P then
                         (if 0 \<le> x then with_point (take (nat x + 1) ds) (drop (nat x + 1) ds)
                          else with_point ''0'' (replicate (nat (- x) - 1) CHR ''0'' @ ds))
                       else with_point (take 1 ds) (drop 1 ds) @ ''e'' @ (if x < 0 then ''-'' else ''+'') @
                            (let e = show_nat (nat \<bar>x\<bar>) in if length e < 2 then CHR ''0'' # e else e)) in
           (if q < 0 then CHR ''-'' # body else body))"

text \<open>
  \<open>strtod\<close> on a text of digits, signs, points and \<open>e\<close>: the longest prefix that is a number, its value
  rounded to a double, and its length; length 0 when there is none.
\<close>

definition scan_sign :: "string \<Rightarrow> bool \<times> string" where
  "scan_sign s = (case s of CHR ''-'' # r \<Rightarrow> (True, r) | CHR ''+'' # r \<Rightarrow> (False, r) | _ \<Rightarrow> (False, s))"

definition scan_exp :: "string \<Rightarrow> int \<times> string" where
  "scan_exp s =
     (case s of
        [] \<Rightarrow> (0, s)
      | c # r \<Rightarrow>
          if c = CHR ''e'' \<or> c = CHR ''E'' then
            (let (neg, t) = scan_sign r; ds = takeWhile is_digit t in
             if ds = [] then (0, s)
             else ((if neg then - int (dec_val ds) else int (dec_val ds)), dropWhile is_digit t))
          else (0, s))"

definition strtod :: "string \<Rightarrow> dbl \<times> nat" where
  "strtod s =
     (let (neg, t) = scan_sign s;
          ip = takeWhile is_digit t; t1 = dropWhile is_digit t;
          (fp, t2) = (case t1 of CHR ''.'' # r \<Rightarrow>
                        if ip = [] \<and> takeWhile is_digit r = [] then ([], t1)
                        else (takeWhile is_digit r, dropWhile is_digit r)
                      | _ \<Rightarrow> ([], t1)) in
      if ip = [] \<and> fp = [] then (Fin 0, 0)
      else let (x, rest) = scan_exp t2;
               v = of_nat (dec_val (ip @ fp)) * pow_int 10 (x - int (length fp)) in
           (round_dbl (if neg then - v else v), length s - length rest))"

section \<open>\<open>print_number\<close> and \<open>parse_number\<close>\<close>

text \<open>
  The text in \<open>number_buffer\<close>. \<open>get_decimal_point\<close> is the point: locales are not enabled.
\<close>

definition get_decimal_point :: char where
  "get_decimal_point = CHR ''.''"

definition number_text :: "dbl \<Rightarrow> int \<Rightarrow> string" where
  "number_text d valueint =
     (case d of
        NaN \<Rightarrow> ''null''
      | Inf _ \<Rightarrow> ''null''
      | Fin q \<Rightarrow>
          if dbl_eq d (dbl_of_int valueint) then show_int valueint
          else let t15 = show_g 15 q; (test, n) = strtod t15 in
               if n = 0 \<or> \<not> compare_double test d then show_g 17 q else t15)"

text \<open>The part of the input that \<open>parse_number\<close> copies for \<open>strtod\<close>: at most 63 characters.\<close>

definition number_char :: "char \<Rightarrow> bool" where
  "number_char c \<longleftrightarrow> is_digit c \<or> c = CHR ''+'' \<or> c = CHR ''-'' \<or> c = CHR ''e'' \<or> c = CHR ''E'' \<or> c = CHR ''.''"

definition number_c_string :: "string \<Rightarrow> string" where
  "number_c_string input = map (\<lambda>c. if c = CHR ''.'' then get_decimal_point else c)
     (takeWhile number_char (take 63 input))"

section \<open>Integers\<close>

lemma bits_bound: "n < 2 ^ k \<Longrightarrow> bits n \<le> k"
proof (induction k arbitrary: n)
  case 0
  then show ?case by (simp add: bits.simps)
next
  case (Suc k)
  then have "n div 2 < 2 ^ k" by simp
  then show ?case using Suc.IH [of "n div 2"] by (simp add: bits.simps [of n])
qed

lemma bits_pos: "0 < n \<Longrightarrow> 0 < bits n"
  by (simp add: bits.simps [of n])

lemma bits_eq: "2 ^ k \<le> n \<Longrightarrow> n < 2 ^ Suc k \<Longrightarrow> bits n = Suc k"
proof (induction k arbitrary: n)
  case 0
  then have "n = 1" by simp
  then show ?case by (simp add: bits.simps)
next
  case (Suc k)
  have "2 ^ k \<le> n div 2" "n div 2 < 2 ^ Suc k" using Suc.prems by simp_all
  then have "bits (n div 2) = Suc k" by (rule Suc.IH)
  moreover have "n \<noteq> 0" using Suc.prems(1) by (intro notI) simp
  ultimately show ?case by (subst bits.simps) simp
qed

lemma length_show_nat: "10 ^ k \<le> n \<Longrightarrow> n < 10 ^ Suc k \<Longrightarrow> length (show_nat n) = Suc k"
proof (induction k arbitrary: n)
  case 0
  then show ?case by (simp add: show_nat.simps)
next
  case (Suc k)
  have "10 ^ k \<le> n div 10" "n div 10 < 10 ^ Suc k" using Suc.prems by simp_all
  then have "length (show_nat (n div 10)) = Suc k" by (rule Suc.IH)
  moreover have "\<not> n < 10"
  proof -
    have "(1 :: nat) \<le> 10 ^ k" by simp
    then show ?thesis using Suc.prems(1) unfolding power_Suc by linarith
  qed
  ultimately show ?case by (subst show_nat.simps) simp
qed

lemma round_half_even_int [simp]: "round_half_even (of_int i) = i"
  by (simp add: round_half_even_def Let_def)

text \<open>Integers below \<open>2^53\<close> in absolute value are doubles.\<close>

lemma round_dbl_int:
  assumes "\<bar>i\<bar> < 2 ^ 53"
  shows "round_dbl (of_int i) = Fin (of_int i)"
proof (cases "i = 0")
  case False
  let ?n = "nat \<bar>i\<bar>"
  let ?k = "53 - bits ?n"
  have b: "0 < bits ?n" "bits ?n \<le> 53"
    using bits_pos [of ?n] bits_bound [of ?n 53] assms False by (auto simp: nat_less_iff)
  have a: "\<bar>of_int i\<bar> = (of_int \<bar>i\<bar> :: rat)" "(1 :: rat) \<le> of_int \<bar>i\<bar>" using False by auto
  have l: "ilog2 (of_int \<bar>i\<bar>) = int (bits ?n) - 1" using a by (simp add: ilog2_def del: of_int_abs)
  have u: "pow_int 2 (max (ilog2 (of_int \<bar>i\<bar>)) (- 1022) - 52) = 1 / 2 ^ ?k"
    unfolding l using b by (simp add: pow_int_def nat_diff_distrib max_def)
  have d: "of_int \<bar>i\<bar> / (1 / 2 ^ ?k) = (of_int (\<bar>i\<bar> * 2 ^ ?k) :: rat)" by simp
  have "(of_int \<bar>i\<bar> :: rat) < of_int (2 ^ 53)" using assms by (simp only: of_int_less_iff)
  also have "\<dots> \<le> 2 ^ 1024" by simp
  finally have small: "\<not> (2 :: rat) ^ 1024 \<le> of_int \<bar>i\<bar>" by simp
  have v: "of_int (round_half_even (of_int \<bar>i\<bar> / (1 / 2 ^ ?k))) * (1 / 2 ^ ?k) = (of_int \<bar>i\<bar> :: rat)"
    unfolding d round_half_even_int by simp
  have s: "sgn (of_int i) * (of_int \<bar>i\<bar> :: rat) = of_int i" by (simp add: sgn_if)
  show ?thesis
    using False small unfolding round_dbl_def a(1) Let_def u v s by simp
qed (simp add: round_dbl_def)

lemma dbl_of_int_eq: "\<bar>i\<bar> < 2 ^ 53 \<Longrightarrow> dbl_of_int i = Fin (of_int i)"
  by (simp add: dbl_of_int_def round_dbl_int)

lemma int_of_dbl_int: "INT_MIN \<le> i \<Longrightarrow> i \<le> INT_MAX \<Longrightarrow> int_of_dbl (Fin (of_int i)) = Some i"
  by (auto simp: int_of_dbl_def INT_MIN_def INT_MAX_def)

lemma number_text_int: "\<bar>i\<bar> < 2 ^ 53 \<Longrightarrow> number_text (Fin (of_int i)) i = show_int i"
  by (simp add: number_text_def dbl_of_int_eq)

lemma number_char_digit: "is_digit c \<Longrightarrow> number_char c"
  by (simp add: number_char_def)

lemma digit_not_sign: "is_digit c \<Longrightarrow> c \<noteq> CHR ''-'' \<and> c \<noteq> CHR ''+'' \<and> c \<noteq> CHR ''.''"
  by (auto simp: is_digit_def)

lemma takeWhile_show_nat [simp]: "takeWhile is_digit (show_nat n) = show_nat n" "dropWhile is_digit (show_nat n) = []"
  by (auto simp: takeWhile_eq_all_conv dropWhile_eq_Nil_conv intro: show_nat_digits)

lemma scan_sign_show: "scan_sign (show_nat n) = (False, show_nat n)"
proof -
  obtain c cs where c: "show_nat n = c # cs" by (cases "show_nat n") auto
  then have "is_digit c" using show_nat_digits [of c n] by simp
  then show ?thesis unfolding c scan_sign_def using digit_not_sign [of c] by (auto split: char.splits bool.splits)
qed

lemma strtod_show_int:
  assumes "\<bar>i\<bar> < 2 ^ 53"
  shows "strtod (show_int i) = (Fin (of_int i), length (show_int i))"
proof (cases "i < 0")
  case True
  have "scan_sign (show_int i) = (True, show_nat (nat (- i)))" using True by (simp add: scan_sign_def show_int_def)
  moreover have "- rat_of_int (int (nat (- i))) = of_int i" using True by simp
  ultimately show ?thesis
    using round_dbl_int [OF assms] True by (simp add: strtod_def scan_exp_def pow_int_def)
next
  case False
  then have "scan_sign (show_int i) = (False, show_nat (nat i))" by (simp add: show_int_def scan_sign_show)
  moreover have "rat_of_nat (nat i) = of_int i" using False by simp
  ultimately show ?thesis
    using round_dbl_int [OF assms] False by (simp add: strtod_def scan_exp_def pow_int_def show_int_def)
qed

lemma char_eqI: "ord_c c = ord_c d \<Longrightarrow> c = d"
  by (simp only: of_char_eq_iff)

lemma digit_chars:
  "digit_char 0 = CHR ''0''" "digit_char (Suc 0) = CHR ''1''" "digit_char 1 = CHR ''1''" "digit_char 2 = CHR ''2''"
  "digit_char 3 = CHR ''3''" "digit_char 4 = CHR ''4''" "digit_char 5 = CHR ''5''" "digit_char 6 = CHR ''6''"
  "digit_char 7 = CHR ''7''" "digit_char 8 = CHR ''8''" "digit_char 9 = CHR ''9''"
  by (rule char_eqI; simp add: digit_char_def)+

text \<open>An infinite value passes \<open>compare_double\<close> against any finite one: both sides are infinite.\<close>

lemma compare_double_inf: "compare_double (Inf s) (Fin q)"
  by (simp add: compare_double_def Let_def)

end
