(* ===== verification/Cjson_Limits.thy ===== *)
theory Cjson_Limits
  imports Cjson_Number
begin

text \<open>
  One number at the edge: the largest finite double, the text that \<open>print_number\<close> writes for it, and
  what \<open>strtod\<close> makes of that text. The arithmetic is on numerals of 1024 bits.
\<close>

section \<open>The largest double\<close>

definition DBL_MAX :: rat where
  "DBL_MAX = 9007199254740991 * 2 ^ 971"

lemma ilog10_nat: "10 ^ k \<le> n \<Longrightarrow> n < 10 ^ Suc k \<Longrightarrow> ilog10 (of_nat n) = int k"
  using length_show_nat [of k n] one_le_power [of "10 :: nat" k] by (simp add: ilog10_def)

lemma ilog2_nat: "2 ^ k \<le> n \<Longrightarrow> n < 2 ^ Suc k \<Longrightarrow> ilog2 (of_nat n) = int k"
  using bits_eq [of k n] one_le_power [of "2 :: nat" k] by (simp add: ilog2_def)

text \<open>Rounding a fraction, computed on integers.\<close>

lemma round_half_even_near:
  assumes "x - of_int q < 1 / 2" "- (1 / 2) < x - of_int q"
  shows "round_half_even x = q"
proof (cases "of_int q \<le> x")
  case True
  then have "\<lfloor>x\<rfloor> = q" using assms by (intro floor_unique) linarith+
  then show ?thesis using assms by (simp add: round_half_even_def Let_def)
next
  case False
  then have f: "\<lfloor>x\<rfloor> = q - 1" using assms by (intro floor_unique; simp; linarith)
  have "1 / 2 < x - of_int (q - 1)" using assms(2) by simp
  then show ?thesis unfolding round_half_even_def Let_def f by simp
qed

lemma round_half_even_div:
  assumes "2 * \<bar>n - d * q\<bar> < d"
  shows "round_half_even (of_int n / of_int d) = q"
proof -
  have d: "0 < d" by (rule le_less_trans [OF _ assms]) simp
  have r: "of_int n / of_int d - of_int q = (of_int (n - d * q) / of_int d :: rat)"
    using d by (simp add: field_simps)
  have "\<bar>2 * (n - d * q)\<bar> < d" using assms by (simp only: abs_mult abs_numeral)
  then have "2 * (n - d * q) < d" "- d < 2 * (n - d * q)" by (simp_all only: abs_less_iff) linarith
  then have "(of_int (2 * (n - d * q)) :: rat) < of_int d" "of_int (- d) < (of_int (2 * (n - d * q)) :: rat)"
    by (simp_all only: of_int_less_iff)
  then have b: "of_int n / of_int d - of_int q < (1 / 2 :: rat)" "- (1 / 2 :: rat) < of_int n / of_int d - of_int q"
    unfolding r using d by (simp_all add: divide_less_eq less_divide_eq mult.commute)
  then show ?thesis by (rule round_half_even_near)
qed

lemma show_g_dbl_max: "show_g 15 DBL_MAX = ''1.79769313486232e+308''"
proof -
  have "DBL_MAX = of_nat (9007199254740991 * 2 ^ 971)" by (simp only: DBL_MAX_def of_nat_mult of_nat_power of_nat_numeral)
  moreover have "ilog10 (of_nat (9007199254740991 * 2 ^ 971)) = int 308" by (rule ilog10_nat) simp_all
  ultimately have l: "ilog10 DBL_MAX = 308" by simp
  have "DBL_MAX = of_int (9007199254740991 * 2 ^ 971)"
    by (simp only: DBL_MAX_def of_int_mult of_int_power of_int_numeral)
  moreover have "pow_int 10 (int 15 - 1 - 308) = 1 / of_int (10 ^ 294)"
    by (simp add: pow_int_def)
  ultimately have e: "DBL_MAX * pow_int 10 (int 15 - 1 - 308) = of_int (9007199254740991 * 2 ^ 971) / of_int (10 ^ 294)"
    by (simp only: times_divide_eq_right mult_1_right)
  have m: "round_half_even (DBL_MAX * pow_int 10 (int 15 - 1 - 308)) = 179769313486232"
    unfolding e by (rule round_half_even_div) simp
  have p: "\<bar>DBL_MAX\<bar> = DBL_MAX" "DBL_MAX \<noteq> 0" "\<not> DBL_MAX < 0" by (simp_all add: DBL_MAX_def)
  have s: "show_nat 179769313486232 = ''179769313486232''" "show_nat 308 = ''308''"
    by (simp_all add: show_nat.simps digit_chars)
  show ?thesis
    unfolding show_g_def p(1) l Let_def m by (simp add: p s with_point_def strip_zeros_def)
qed

lemma round_dbl_beyond_max: "round_dbl (of_int (179769313486232 * 10 ^ 294)) = Inf False"
proof -
  let ?n = "179769313486232 * 10 ^ 294 :: int"
  have n: "(of_int ?n :: rat) = of_nat (179769313486232 * 10 ^ 294)"
    by (simp only: of_nat_mult of_nat_power of_int_mult of_int_power of_nat_numeral of_int_numeral)
  have "ilog2 (of_nat (179769313486232 * 10 ^ 294)) = int 1024" by (rule ilog2_nat) simp_all
  then have l: "ilog2 (of_int ?n) = 1024" unfolding n by simp
  have u: "pow_int 2 (max 1024 (- 1022) - 52) = of_int (2 ^ 972)" by (simp add: pow_int_def)
  have m: "round_half_even (of_int ?n / of_int (2 ^ 972)) = 4503599627370506"
    by (rule round_half_even_div) simp
  have pos: "0 < (of_int ?n :: rat)" by (simp only: of_int_0_less_iff) simp
  then have p: "\<bar>of_int ?n\<bar> = (of_int ?n :: rat)" "(of_int ?n :: rat) \<noteq> 0" "\<not> (of_int ?n :: rat) < 0"
    by (simp_all only: abs_of_pos less_imp_neq [symmetric] not_less_iff_gr_or_eq simp_thms)
  have "(2 ^ 52 * 2 ^ 972 :: rat) \<le> of_int 4503599627370506 * of_int (2 ^ 972)"
    by (intro mult_mono) simp_all
  then have big: "(2 ^ 1024 :: rat) \<le> of_int 4503599627370506 * of_int (2 ^ 972)"
    by (simp only: flip: power_add) (simp only: numeral_plus_numeral add_num_simps)
  show ?thesis
    unfolding round_dbl_def p(1) l u Let_def m using p(2,3) big by (simp only: if_False if_True)
qed

lemma strtod_dbl_max_text: "strtod ''1.79769313486232e+308'' = (Inf False, 21)"
proof -
  have x: "scan_exp ''e+308'' = (308, [])"
    by (simp add: scan_exp_def scan_sign_def is_digit_def digit_val_def)
  have d: "strtod ''1.79769313486232e+308'' = (round_dbl (of_nat (dec_val ''179769313486232'') * pow_int 10 294), 21)"
    by (simp add: strtod_def scan_sign_def x is_digit_def del: dec_val_from_simps)
  have "of_nat (dec_val ''179769313486232'') = (179769313486232 :: rat)" by (simp add: digit_val_def)
  moreover have "pow_int 10 294 = (10 ^ 294 :: rat)" by (simp only: pow_int_def) simp
  ultimately have "of_nat (dec_val ''179769313486232'') * pow_int 10 294 = of_int (179769313486232 * 10 ^ 294)"
    by (simp only: of_int_mult of_int_power of_int_numeral)
  then show ?thesis by (simp only: d round_dbl_beyond_max)
qed

text \<open>
  The largest finite double is printed with 15 digits, although that text reads back as
  infinity: \<open>compare_double\<close> accepts an infinite value for any finite one, because its difference
  and its tolerance are both infinite.
\<close>

theorem number_text_dbl_max:
  "number_text (Fin DBL_MAX) INT_MAX = ''1.79769313486232e+308'' \<and>
   strtod ''1.79769313486232e+308'' = (Inf False, 21) \<and> compare_double (Inf False) (Fin DBL_MAX)"
proof -
  have "DBL_MAX \<noteq> of_int INT_MAX" by (simp add: DBL_MAX_def INT_MAX_def)
  moreover have "dbl_of_int INT_MAX = Fin (of_int INT_MAX)" by (rule dbl_of_int_eq) (simp add: INT_MAX_def)
  moreover have "compare_double (Inf False) (Fin DBL_MAX)" by (simp add: compare_double_def Let_def)
  ultimately show ?thesis
    by (simp add: number_text_def show_g_dbl_max strtod_dbl_max_text Let_def)
qed

end
