(* ===== verification/Cjson_Print.thy ===== *)
theory Cjson_Print
  imports Cjson_Number
begin

text \<open>
  The printer of \<open>cJSON.c\<close>: the item type, the growing print buffer (\<open>ensure\<close>, \<open>update_offset\<close>), the
  printers of strings, numbers, arrays and objects, and the entry points \<open>cJSON_Print\<close>,
  \<open>cJSON_PrintUnformatted\<close>, \<open>cJSON_PrintBuffered\<close> and \<open>cJSON_PrintPreallocated\<close>. The buffer is its
  bytes; a write outside it is \<open>None\<close>. An item holds its children as a list, in the order in which
  the code walks the \<open>next\<close> pointers. Against the buffer code stands \<open>json_text\<close>, the text of an item.
\<close>

section \<open>Items\<close>

definition cJSON_Invalid :: nat where "cJSON_Invalid = 0"
definition cJSON_False :: nat where "cJSON_False = 1"
definition cJSON_True :: nat where "cJSON_True = 2"
definition cJSON_NULL :: nat where "cJSON_NULL = 4"
definition cJSON_Number :: nat where "cJSON_Number = 8"
definition cJSON_String :: nat where "cJSON_String = 16"
definition cJSON_Array :: nat where "cJSON_Array = 32"
definition cJSON_Object :: nat where "cJSON_Object = 64"
definition cJSON_Raw :: nat where "cJSON_Raw = 128"
definition cJSON_IsReference :: nat where "cJSON_IsReference = 256"
definition cJSON_StringIsConst :: nat where "cJSON_StringIsConst = 512"

lemmas cJSON_types = cJSON_Invalid_def cJSON_False_def cJSON_True_def cJSON_NULL_def cJSON_Number_def
  cJSON_String_def cJSON_Array_def cJSON_Object_def cJSON_Raw_def cJSON_IsReference_def
  cJSON_StringIsConst_def

text \<open>\<open>valuestring\<close> and \<open>cname\<close> (the C field \<open>string\<close>) are NULL or a C string.\<close>

datatype cJSON =
  Item (ctype: nat) (valuestring: "string option") (valueint: int) (valuedouble: dbl)
    (cname: "string option") (child: "cJSON list")

definition new_item :: cJSON where
  "new_item = Item cJSON_Invalid None 0 (Fin 0) None []"

section \<open>The print buffer\<close>

text \<open>
  The requests for memory of one call of the printer or the parser, with their sizes. The printer asks for its buffer
  (\<open>Buffer_Of\<close>), each time for a larger one, and at last for the block that it returns (\<open>Result_Of\<close>); the parser asks
  for items and for strings at a level of nesting and a position in the text, which only grows within a level. So
  the requests of a call are all different, and \<open>can_alloc\<close>, which says which ones are granted, can let any of them
  fail. \<open>fill\<close> is what fresh memory holds. \<open>has_realloc\<close>: the \<open>reallocate\<close> hook is set.
\<close>

datatype request =
  Buffer_Of nat
| Result_Of nat
| Item_At nat nat nat     \<comment> \<open>level, position, size\<close>
| Text_At nat nat nat

record internal_hooks =
  can_alloc :: "request \<Rightarrow> bool"
  has_realloc :: bool
  fill :: char

record printbuffer =
  pbuf :: "string option"
  plen :: nat
  poff :: nat
  pdepth :: nat
  noalloc :: bool
  pformat :: bool
  phooks :: internal_hooks

definition IMAX :: nat where
  "IMAX = 2147483647"

text \<open>
  \<open>ensure\<close>: whether a pointer to the offset comes back, and the buffer. The manual path copies
  \<open>offset + 1\<close> bytes of the old buffer, which must be there.
\<close>

definition ensure :: "nat \<Rightarrow> printbuffer \<Rightarrow> (bool \<times> printbuffer) option" where
  "ensure needed p =
     (case pbuf p of
        None \<Rightarrow> Some (False, p)
      | Some b \<Rightarrow>
          if 0 < plen p \<and> plen p \<le> poff p then Some (False, p)
          else if IMAX < needed then Some (False, p)
          else let needed = needed + poff p + 1 in
            if needed \<le> plen p then Some (True, p)
            else if noalloc p then Some (False, p)
            else if IMAX div 2 < needed \<and> \<not> needed \<le> IMAX then Some (False, p)
            else let newsize = (if IMAX div 2 < needed then IMAX else needed * 2) in
              if has_realloc (phooks p) then
                if can_alloc (phooks p) (Buffer_Of newsize) then
                  Some (True, p\<lparr>pbuf := Some (take newsize (b @ replicate newsize (fill (phooks p)))), plen := newsize\<rparr>)
                else Some (False, p\<lparr>pbuf := None, plen := 0\<rparr>)
              else
                if can_alloc (phooks p) (Buffer_Of newsize) then
                  if poff p + 1 \<le> length b then
                    Some (True, p\<lparr>pbuf := Some (take newsize (take (poff p + 1) b @ replicate newsize (fill (phooks p)))),
                                   plen := newsize\<rparr>)
                  else None
                else Some (False, p\<lparr>pbuf := None, plen := 0\<rparr>))"

definition update_offset :: "printbuffer \<Rightarrow> printbuffer option" where
  "update_offset p =
     (case pbuf p of
        None \<Rightarrow> Some p
      | Some b \<Rightarrow> do { s \<leftarrow> c_string (drop (poff p) b); Some (p\<lparr>poff := poff p + length s\<rparr>) })"

text \<open>A write through the pointer that \<open>ensure\<close> gave, \<open>i\<close> bytes on; and the early return on failure.\<close>

definition pwrite :: "nat \<Rightarrow> string \<Rightarrow> printbuffer \<Rightarrow> printbuffer option" where
  "pwrite i bs p =
     (case pbuf p of
        None \<Rightarrow> None
      | Some b \<Rightarrow> do { b \<leftarrow> write_at b (poff p + i) bs; Some (p\<lparr>pbuf := Some b\<rparr>) })"

definition pthen ::
  "(bool \<times> printbuffer) option \<Rightarrow> (printbuffer \<Rightarrow> (bool \<times> printbuffer) option) \<Rightarrow> (bool \<times> printbuffer) option" where
  "pthen r f = do { (ok, p) \<leftarrow> r; if ok then f p else Some (False, p) }"

section \<open>Strings and numbers\<close>

definition hex_digit :: "nat \<Rightarrow> char" where
  "hex_digit n = char_of (if n < 10 then 48 + n else 87 + n)"

text \<open>\<open>escape_extra\<close> is the counting switch, \<open>escape_char\<close> the copying one.\<close>

definition escape_extra :: "char \<Rightarrow> nat" where
  "escape_extra c =
     (if c \<in> {CHR 0x22, CHR 0x5C, CHR 0x08, CHR 0x0C, CHR 0x0A, CHR 0x0D, CHR 0x09} then 1
      else if ord_c c < 32 then 5 else 0)"

definition escape_char :: "char \<Rightarrow> string" where
  "escape_char c =
     (if 31 < ord_c c \<and> c \<noteq> CHR 0x22 \<and> c \<noteq> CHR 0x5C then [c]
      else CHR 0x5C #
        (if c = CHR 0x5C then [CHR 0x5C]
         else if c = CHR 0x22 then [CHR 0x22]
         else if c = CHR 0x08 then ''b''
         else if c = CHR 0x0C then ''f''
         else if c = CHR 0x0A then ''n''
         else if c = CHR 0x0D then ''r''
         else if c = CHR 0x09 then ''t''
         else ''u00'' @ [hex_digit (ord_c c div 16), hex_digit (ord_c c mod 16)]))"

definition escape_text :: "string \<Rightarrow> string" where
  "escape_text s = concat (map escape_char s)"

definition print_string_ptr :: "string option \<Rightarrow> printbuffer \<Rightarrow> (bool \<times> printbuffer) option" where
  "print_string_ptr input p =
     (case input of
        None \<Rightarrow> pthen (ensure 3 p) (\<lambda>p. do { p \<leftarrow> pwrite 0 [CHR 0x22, CHR 0x22, NUL] p; Some (True, p) })
      | Some s \<Rightarrow>
          (let escape_characters = sum_list (map escape_extra s);
               output_length = length s + escape_characters in
           pthen (ensure (output_length + 3) p) (\<lambda>p.
             if escape_characters = 0 then do {
               p \<leftarrow> pwrite 0 [CHR 0x22] p;
               p \<leftarrow> pwrite 1 (take output_length s) p;
               p \<leftarrow> pwrite (output_length + 1) [CHR 0x22, NUL] p;
               Some (True, p) }
             else do {
               p \<leftarrow> pwrite 0 [CHR 0x22] p;
               p \<leftarrow> pwrite 1 (escape_text s) p;
               p \<leftarrow> pwrite (output_length + 1) [CHR 0x22, NUL] p;
               Some (True, p) })))"

definition print_string :: "cJSON \<Rightarrow> printbuffer \<Rightarrow> (bool \<times> printbuffer) option" where
  "print_string it p = print_string_ptr (valuestring it) p"

definition print_number :: "cJSON \<Rightarrow> printbuffer \<Rightarrow> (bool \<times> printbuffer) option" where
  "print_number it p =
     (let number_buffer = number_text (valuedouble it) (valueint it); n = length number_buffer in
      if 25 < n then Some (False, p)
      else pthen (ensure (n + 1) p) (\<lambda>p. do {
        p \<leftarrow> pwrite 0 (map (\<lambda>c. if c = get_decimal_point then CHR ''.'' else c) number_buffer) p;
        p \<leftarrow> pwrite n [NUL] p;
        Some (True, p\<lparr>poff := poff p + n\<rparr>) }))"

section \<open>Values\<close>

text \<open>\<open>ensure\<close> and \<open>strcpy\<close> of a literal; \<open>n\<close> is the size the code asks for.\<close>

definition print_literal :: "nat \<Rightarrow> string \<Rightarrow> printbuffer \<Rightarrow> (bool \<times> printbuffer) option" where
  "print_literal n lit p = pthen (ensure n p) (\<lambda>p. do { p \<leftarrow> pwrite 0 (lit @ [NUL]) p; Some (True, p) })"

text \<open>The values: \<open>print_elems\<close> and \<open>print_members\<close> are the loops of \<open>print_array\<close> and \<open>print_object\<close>.\<close>

fun print_value :: "cJSON \<Rightarrow> printbuffer \<Rightarrow> (bool \<times> printbuffer) option"
  and print_elems :: "cJSON list \<Rightarrow> printbuffer \<Rightarrow> (bool \<times> printbuffer) option"
  and print_members :: "cJSON list \<Rightarrow> printbuffer \<Rightarrow> (bool \<times> printbuffer) option"
where
  "print_value (Item ty vs vi vd nm cs) p =
     (let t = ty AND 0xFF in
      if t = cJSON_NULL then print_literal 5 ''null'' p
      else if t = cJSON_False then print_literal 6 ''false'' p
      else if t = cJSON_True then print_literal 5 ''true'' p
      else if t = cJSON_Number then print_number (Item ty vs vi vd nm cs) p
      else if t = cJSON_Raw then
        (case vs of None \<Rightarrow> Some (False, p) | Some raw \<Rightarrow> print_literal (length raw + 1) raw p)
      else if t = cJSON_String then print_string (Item ty vs vi vd nm cs) p
      else if t = cJSON_Array then
        pthen (ensure 1 p) (\<lambda>p. do {
          p \<leftarrow> pwrite 0 ''['' p;
          pthen (print_elems cs (p\<lparr>poff := poff p + 1, pdepth := pdepth p + 1\<rparr>)) (\<lambda>p.
            pthen (ensure 2 p) (\<lambda>p. do {
              p \<leftarrow> pwrite 0 ('']'' @ [NUL]) p;
              Some (True, p\<lparr>pdepth := pdepth p - 1\<rparr>) })) })
      else if t = cJSON_Object then
        pthen (ensure ((if pformat p then 2 else 1) + 1) p) (\<lambda>p. do {
          p \<leftarrow> pwrite 0 (if pformat p then [CHR ''{'', CHR 0x0A] else ''{'') p;
          pthen (print_members cs (p\<lparr>pdepth := pdepth p + 1, poff := poff p + (if pformat p then 2 else 1)\<rparr>)) (\<lambda>p.
            pthen (ensure (if pformat p then pdepth p + 1 else 2) p) (\<lambda>p. do {
              p \<leftarrow> pwrite 0 ((if pformat p then replicate (pdepth p - 1) (CHR 0x09) else []) @ ''}'' @ [NUL]) p;
              Some (True, p\<lparr>pdepth := pdepth p - 1\<rparr>) })) })
      else Some (False, p))"
| "print_elems [] p = Some (True, p)"
| "print_elems (e # es) p =
     pthen (print_value e p) (\<lambda>p. do {
       p \<leftarrow> update_offset p;
       if es \<noteq> [] then
         pthen (ensure ((if pformat p then 2 else 1) + 1) p) (\<lambda>p. do {
           p \<leftarrow> pwrite 0 ((if pformat p then '', '' else '','') @ [NUL]) p;
           print_elems es (p\<lparr>poff := poff p + (if pformat p then 2 else 1)\<rparr>) })
       else print_elems es p })"
| "print_members [] p = Some (True, p)"
| "print_members (e # es) p =
     pthen (if pformat p then
              pthen (ensure (pdepth p) p) (\<lambda>p. do {
                p \<leftarrow> pwrite 0 (replicate (pdepth p) (CHR 0x09)) p;
                Some (True, p\<lparr>poff := poff p + pdepth p\<rparr>) })
            else Some (True, p)) (\<lambda>p.
     pthen (print_string_ptr (cname e) p) (\<lambda>p. do {
       p \<leftarrow> update_offset p;
       pthen (ensure (if pformat p then 2 else 1) p) (\<lambda>p. do {
         p \<leftarrow> pwrite 0 (if pformat p then [CHR '':'', CHR 0x09] else '':'') p;
         pthen (print_value e (p\<lparr>poff := poff p + (if pformat p then 2 else 1)\<rparr>)) (\<lambda>p. do {
           p \<leftarrow> update_offset p;
           pthen (ensure ((if pformat p then 1 else 0) + (if es \<noteq> [] then 1 else 0) + 1) p) (\<lambda>p. do {
             p \<leftarrow> pwrite 0 ((if es \<noteq> [] then '','' else []) @ (if pformat p then [CHR 0x0A] else []) @ [NUL]) p;
             print_members es (p\<lparr>poff := poff p + ((if pformat p then 1 else 0) + (if es \<noteq> [] then 1 else 0))\<rparr>) }) }) }) }))"

section \<open>Entry points\<close>

text \<open>
  The results are the bytes of the block returned, NULL being \<open>None\<close> inside the option; \<open>item\<close> may
  be NULL.
\<close>

definition print_top :: "cJSON option \<Rightarrow> printbuffer \<Rightarrow> (bool \<times> printbuffer) option" where
  "print_top item p = (case item of None \<Rightarrow> Some (False, p) | Some it \<Rightarrow> print_value it p)"

definition fresh_buffer :: "nat \<Rightarrow> bool \<Rightarrow> internal_hooks \<Rightarrow> printbuffer" where
  "fresh_buffer n format hooks = \<lparr>pbuf = Some (replicate n (fill hooks)), plen = n, poff = 0, pdepth = 0,
     noalloc = False, pformat = format, phooks = hooks\<rparr>"

definition print :: "cJSON option \<Rightarrow> bool \<Rightarrow> internal_hooks \<Rightarrow> string option option" where
  "print item format hooks =
     (if \<not> can_alloc hooks (Buffer_Of 256) then Some None
      else do {
        (ok, p) \<leftarrow> print_top item (fresh_buffer 256 format hooks);
        if \<not> ok then Some None
        else do {
          p \<leftarrow> update_offset p;
          case pbuf p of
            None \<Rightarrow> None
          | Some b \<Rightarrow>
              if \<not> can_alloc hooks (Result_Of (poff p + 1)) then Some None
              else if has_realloc hooks then
                Some (Some (take (poff p + 1) (b @ replicate (poff p + 1) (fill hooks))))
              else do {
                printed \<leftarrow> write_at (replicate (poff p + 1) (fill hooks)) 0 (take (min (plen p) (poff p + 1)) b);
                printed \<leftarrow> write_at printed (poff p) [NUL];
                Some (Some printed) } } })"

definition cJSON_Print :: "cJSON option \<Rightarrow> internal_hooks \<Rightarrow> string option option" where
  "cJSON_Print item hooks = print item True hooks"

definition cJSON_PrintUnformatted :: "cJSON option \<Rightarrow> internal_hooks \<Rightarrow> string option option" where
  "cJSON_PrintUnformatted item hooks = print item False hooks"

definition cJSON_PrintBuffered ::
  "cJSON option \<Rightarrow> int \<Rightarrow> bool \<Rightarrow> internal_hooks \<Rightarrow> string option option" where
  "cJSON_PrintBuffered item prebuffer fmt hooks =
     (if prebuffer < 0 then Some None
      else if \<not> can_alloc hooks (Buffer_Of (nat prebuffer)) then Some None
      else do {
        (ok, p) \<leftarrow> print_top item (fresh_buffer (nat prebuffer) fmt hooks);
        if \<not> ok then Some None else Some (pbuf p) })"

text \<open>\<open>buffer\<close> is the caller's array; the result is the return value and the array after the call.\<close>

definition cJSON_PrintPreallocated ::
  "cJSON option \<Rightarrow> string option \<Rightarrow> int \<Rightarrow> bool \<Rightarrow> internal_hooks \<Rightarrow> (bool \<times> string option) option" where
  "cJSON_PrintPreallocated item buffer len format hooks =
     (if len < 0 \<or> buffer = None then Some (False, buffer)
      else do {
        (ok, p) \<leftarrow> print_top item \<lparr>pbuf = buffer, plen = nat len, poff = 0, pdepth = 0,
                     noalloc = True, pformat = format, phooks = hooks\<rparr>;
        Some (ok, pbuf p) })"

section \<open>The text of an item\<close>

definition quoted :: "string option \<Rightarrow> string" where
  "quoted s = CHR 0x22 # (case s of None \<Rightarrow> [] | Some s \<Rightarrow> escape_text s) @ [CHR 0x22]"

text \<open>Without any buffer: \<open>None\<close> for an item that cannot be printed.\<close>

fun json_text :: "bool \<Rightarrow> nat \<Rightarrow> cJSON \<Rightarrow> string option"
  and elems_text :: "bool \<Rightarrow> nat \<Rightarrow> cJSON list \<Rightarrow> string option"
  and members_text :: "bool \<Rightarrow> nat \<Rightarrow> cJSON list \<Rightarrow> string option"
where
  "json_text f d (Item ty vs vi vd nm cs) =
     (let t = ty AND 0xFF in
      if t = cJSON_NULL then Some ''null''
      else if t = cJSON_False then Some ''false''
      else if t = cJSON_True then Some ''true''
      else if t = cJSON_Number then
        (if length (number_text vd vi) \<le> 25 then Some (number_text vd vi) else None)
      else if t = cJSON_Raw then vs
      else if t = cJSON_String then Some (quoted vs)
      else if t = cJSON_Array then
        map_option (\<lambda>es. ''['' @ es @ '']'') (elems_text f (Suc d) cs)
      else if t = cJSON_Object then
        map_option (\<lambda>ms. (if f then [CHR ''{'', CHR 0x0A] else ''{'') @ ms @
          (if f then replicate d (CHR 0x09) else []) @ ''}'') (members_text f (Suc d) cs)
      else None)"
| "elems_text f d [] = Some []"
| "elems_text f d (e # es) =
     (case (json_text f d e, elems_text f d es) of
        (Some t, Some ts) \<Rightarrow> Some (t @ (if es \<noteq> [] then (if f then '', '' else '','') else []) @ ts)
      | _ \<Rightarrow> None)"
| "members_text f d [] = Some []"
| "members_text f d (e # es) =
     (case (json_text f d e, members_text f d es) of
        (Some t, Some ts) \<Rightarrow>
          Some ((if f then replicate d (CHR 0x09) else []) @ quoted (cname e) @
            (if f then [CHR '':'', CHR 0x09] else '':'') @ t @
            (if es \<noteq> [] then '','' else []) @ (if f then [CHR 0x0A] else []) @ ts)
      | _ \<Rightarrow> None)"

text \<open>What the code may rely on: its strings are C strings.\<close>

fun item_ok :: "cJSON \<Rightarrow> bool" where
  "item_ok (Item ty vs vi vd nm cs) \<longleftrightarrow>
     (case vs of None \<Rightarrow> True | Some s \<Rightarrow> no_nul s) \<and> (case nm of None \<Rightarrow> True | Some s \<Rightarrow> no_nul s) \<and>
     list_all item_ok cs"

section \<open>The buffer invariant\<close>

text \<open>
  \<open>holds p s\<close>: the buffer is as long as \<open>length\<close> says, the offset is behind the text \<open>s\<close> written so
  far. \<open>written p s t\<close>: behind \<open>s\<close> stands \<open>t\<close> with its NUL, and the offset is inside \<open>t\<close>, so that
  \<open>update_offset\<close> moves it to the NUL.
\<close>

definition buf_ok :: "printbuffer \<Rightarrow> bool" where
  "buf_ok p \<longleftrightarrow> (case pbuf p of None \<Rightarrow> False | Some b \<Rightarrow> length b = plen p) \<and>
     (0 < plen p \<or> noalloc p \<or> has_realloc (phooks p))"

definition holds :: "printbuffer \<Rightarrow> string \<Rightarrow> bool" where
  "holds p s \<longleftrightarrow> buf_ok p \<and> poff p = length s \<and> (length s < plen p \<or> plen p = 0) \<and> (\<exists>r. pbuf p = Some (s @ r))"

definition written :: "printbuffer \<Rightarrow> string \<Rightarrow> string \<Rightarrow> bool" where
  "written p s t \<longleftrightarrow> buf_ok p \<and> length s \<le> poff p \<and> poff p \<le> length s + length t \<and> no_nul t \<and>
     (\<exists>r. pbuf p = Some (s @ t @ NUL # r))"

definition frame :: "printbuffer \<Rightarrow> printbuffer \<Rightarrow> bool" where
  "frame p q \<longleftrightarrow> noalloc q = noalloc p \<and> pformat q = pformat p \<and> phooks q = phooks p \<and> pdepth q = pdepth p \<and>
     plen p \<le> plen q \<and> (noalloc p \<longrightarrow> plen q = plen p)"

definition unlimited :: "printbuffer \<Rightarrow> bool" where
  "unlimited p \<longleftrightarrow> \<not> noalloc p \<and> (\<forall>n. can_alloc (phooks p) n)"

lemma frame_refl [simp]: "frame p p"
  by (simp add: frame_def)

lemma frame_trans: "frame p q \<Longrightarrow> frame q r \<Longrightarrow> frame p r"
  by (simp add: frame_def)

text \<open>\<open>room p n\<close>: a text that ends before byte \<open>n\<close> can be written, in the buffer as it is or as it may grow.\<close>

definition room :: "printbuffer \<Rightarrow> nat \<Rightarrow> bool" where
  "room p n \<longleftrightarrow> n \<le> IMAX \<and> (unlimited p \<or> n \<le> plen p)"

lemma room_mono: "room p n \<Longrightarrow> m \<le> n \<Longrightarrow> room p m"
  by (auto simp: room_def)

lemma frame_room: "frame p q \<Longrightarrow> room p n \<Longrightarrow> room q n"
  by (auto simp: frame_def room_def unlimited_def)

lemma holds_grown:
  assumes "holds p s" "pbuf p = Some b" "length s + 1 \<le> n"
    and "c = b \<or> (c = take (length s + 1) b \<and> 0 < plen p)"
  shows "holds (p\<lparr>pbuf := Some (take n (c @ replicate n x)), plen := n\<rparr>) s"
proof -
  obtain r where r: "b = s @ r" using assms(1,2) by (auto simp: holds_def)
  have l: "plen p = length s + length r" using assms(1,2) r by (auto simp: holds_def buf_ok_def)
  have "length s < plen p \<or> plen p = 0" using assms(1) by (simp add: holds_def)
  have "take n (c @ replicate n x) = s @ drop (length s) (take n (c @ replicate n x))"
  proof -
    have "take (length s) (take n (c @ replicate n x)) = s"
      using assms(3,4) r l by auto
    then show ?thesis by (metis append_take_drop_id)
  qed
  moreover have "length (take n (c @ replicate n x)) = n" by simp
  ultimately show ?thesis
    using assms(1,3) unfolding holds_def buf_ok_def by auto
qed

lemma ensure_ok:
  assumes "holds p s"
  shows "\<exists>ok q. ensure n p = Some (ok, q) \<and>
    (ok \<longrightarrow> holds q s \<and> frame p q \<and> length s + n + 1 \<le> plen q) \<and>
    (room p (length s + n + 1) \<longrightarrow> ok)"
proof -
  obtain b where b: "pbuf p = Some b" "length b = plen p" "poff p = length s" "length s < plen p \<or> plen p = 0"
    "0 < plen p \<or> noalloc p \<or> has_realloc (phooks p)"
    using assms by (auto simp: holds_def buf_ok_def split: option.splits)
  let ?need = "n + length s + 1"
  let ?size = "if IMAX div 2 < ?need then IMAX else ?need * 2"
  have u: "unlimited p \<Longrightarrow> \<not> noalloc p \<and> can_alloc (phooks p) k" for k by (simp add: unlimited_def)
  consider (fits) "n \<le> IMAX" "?need \<le> plen p"
    | (big) "IMAX < ?need" "\<not> (n \<le> IMAX \<and> ?need \<le> plen p)"
    | (fixed) "?need \<le> IMAX" "plen p < ?need" "noalloc p"
    | (grow) "?need \<le> IMAX" "plen p < ?need" "\<not> noalloc p"
    by linarith
  then show ?thesis
  proof cases
    case fits
    then show ?thesis using assms b by (intro exI [of _ True] exI [of _ p]) (auto simp: ensure_def)
  next
    case big
    have "\<exists>q. ensure n p = Some (False, q)"
      using big b(1,3) by (auto simp: ensure_def Let_def)
    then show ?thesis using big(1) by (auto simp: room_def)
  next
    case fixed
    then show ?thesis using b u by (intro exI [of _ False] exI [of _ p]) (auto simp: ensure_def Let_def room_def)
  next
    case grow
    have size: "?need \<le> ?size" using grow(1) by simp
    show ?thesis
    proof (cases "can_alloc (phooks p) (Buffer_Of ?size)")
      case False
      then have "\<exists>q. ensure n p = Some (False, q)" using grow b by (auto simp: ensure_def Let_def)
      moreover have "\<not> room p (length s + n + 1)" using u False grow(2) by (auto simp: room_def)
      ultimately show ?thesis by auto
    next
      case True
      define c where "c = (if has_realloc (phooks p) then b else take (length s + 1) b)"
      let ?q = "p\<lparr>pbuf := Some (take ?size (c @ replicate ?size (fill (phooks p)))), plen := ?size\<rparr>"
      have "ensure n p = Some (True, ?q)"
        using grow b True by (auto simp: ensure_def Let_def c_def)
      moreover have "holds ?q s"
        using b size grow(3) by (intro holds_grown [OF assms b(1)]) (auto simp: c_def)
      moreover have "plen p \<le> ?size" using grow(2) size by linarith
      then have "frame p ?q" using grow(3) by (simp add: frame_def)
      moreover have "length s + n + 1 \<le> plen ?q" using size by simp
      ultimately show ?thesis by blast
    qed
  qed
qed

text \<open>\<open>filled p s t\<close>: \<open>t\<close> has been written through the pointer that \<open>ensure\<close> gave, behind \<open>s\<close>.\<close>

definition filled :: "printbuffer \<Rightarrow> string \<Rightarrow> string \<Rightarrow> bool" where
  "filled p s t \<longleftrightarrow> buf_ok p \<and> poff p = length s \<and> (\<exists>r. pbuf p = Some (s @ t @ r))"

lemma filled_start: "holds p s \<Longrightarrow> filled p s []"
  by (simp add: holds_def filled_def)

lemma pwrite_filled:
  assumes "filled p s t" "i = length t" "length s + length t + length bs \<le> plen p"
  shows "\<exists>q. pwrite i bs p = Some q \<and> filled q s (t @ bs) \<and> frame p q \<and> plen q = plen p"
proof -
  obtain r where r: "pbuf p = Some (s @ t @ r)" using assms(1) by (auto simp: filled_def)
  have "plen p = length s + length t + length r" using assms(1) r by (simp add: filled_def buf_ok_def)
  then show ?thesis
    using assms r by (auto simp: pwrite_def filled_def buf_ok_def write_at_def frame_def)
qed

lemma written_filled:
  "filled p s (t @ [NUL]) \<Longrightarrow> no_nul t \<Longrightarrow> written p s t"
  "filled p s (t @ [NUL]) \<Longrightarrow> no_nul t \<Longrightarrow> written (p\<lparr>poff := poff p + length t\<rparr>) s t"
  by (auto simp: filled_def written_def buf_ok_def)

lemma holds_filled:
  "filled p s t \<Longrightarrow> length s + length t < plen p \<Longrightarrow> n = length t \<Longrightarrow> holds (p\<lparr>poff := poff p + n\<rparr>) (s @ t)"
  by (auto simp: filled_def holds_def buf_ok_def)

lemma update_offset_ok:
  assumes "written p s t"
  shows "\<exists>q. update_offset p = Some q \<and> holds q (s @ t) \<and> frame p q"
proof -
  obtain r where r: "pbuf p = Some (s @ t @ NUL # r)" "length s \<le> poff p" "poff p \<le> length s + length t"
    "no_nul t" "buf_ok p" using assms by (auto simp: written_def)
  let ?u = "drop (poff p - length s) t"
  have d: "drop (poff p) (s @ t @ NUL # r) = ?u @ NUL # r" using r(2,3) by simp
  have "no_nul ?u" using r(4) by (auto simp: no_nul_def dest: in_set_dropD)
  then have c: "c_string (drop (poff p) (s @ t @ NUL # r)) = Some ?u" unfolding d by simp
  have "update_offset p = Some (p\<lparr>poff := poff p + length ?u\<rparr>)" 
    by (simp only: update_offset_def r(1) option.case c Option.bind.simps)
  moreover have "poff p + length ?u = length (s @ t)" using r(2,3) by simp
  ultimately show ?thesis using r by (auto simp: holds_def buf_ok_def frame_def)
qed

section \<open>The printers against the text\<close>

text \<open>
  What a printer's result says: no fault; on success the text and an intact buffer; and success is
  certain when memory is there and the text fits an \<open>int\<close>. \<open>emits\<close> leaves the offset behind the
  text, \<open>prints\<close> as \<open>print_value\<close> does, with \<open>update_offset\<close> still to come.
\<close>

definition emits :: "printbuffer \<Rightarrow> string \<Rightarrow> string option \<Rightarrow> (bool \<times> printbuffer) option \<Rightarrow> bool" where
  "emits p s T res \<longleftrightarrow> (\<exists>ok q. res = Some (ok, q) \<and>
     (ok \<longrightarrow> (\<exists>t. T = Some t \<and> holds q (s @ t) \<and> frame p q)) \<and>
     ((\<exists>t. T = Some t \<and> room p (length s + length t + 3)) \<longrightarrow> ok))"

definition prints :: "printbuffer \<Rightarrow> string \<Rightarrow> string option \<Rightarrow> (bool \<times> printbuffer) option \<Rightarrow> bool" where
  "prints p s T res \<longleftrightarrow> (\<exists>ok q. res = Some (ok, q) \<and>
     (ok \<longrightarrow> (\<exists>t. T = Some t \<and> written q s t \<and> frame p q)) \<and>
     ((\<exists>t. T = Some t \<and> room p (length s + length t + 3)) \<longrightarrow> ok))"

text \<open>One write after \<open>ensure\<close>: a text with its NUL, or a text that the offset then skips.\<close>

lemma ensure_then_prints:
  assumes "holds p s" "n \<le> length t + 2" "no_nul t"
    and "\<And>q. holds q s \<Longrightarrow> frame p q \<Longrightarrow> length s + n + 1 \<le> plen q \<Longrightarrow>
      \<exists>q'. f q = Some (True, q') \<and> written q' s t \<and> frame q q'"
  shows "prints p s (Some t) (pthen (ensure n p) f)"
proof -
  obtain ok q where e: "ensure n p = Some (ok, q)" "ok \<Longrightarrow> holds q s" "ok \<Longrightarrow> frame p q"
    "ok \<Longrightarrow> length s + n + 1 \<le> plen q" "room p (length s + n + 1) \<longrightarrow> ok"
    using ensure_ok [OF assms(1), of n] by blast
  show ?thesis
  proof (cases ok)
    case True
    obtain q' where "f q = Some (True, q')" "written q' s t" "frame q q'"
      using assms(4) e(2-4) True by blast
    moreover have "frame p q'" using frame_trans [OF e(3) [OF True]] calculation by blast
    ultimately show ?thesis
      unfolding prints_def using e(1) True by (intro exI [of _ True] exI [of _ q']) (simp add: pthen_def)
  next
    case False
    then have "\<not> (room p (length s + length t + 3))" using e(5) assms(2) room_mono [of p "length s + length t + 3" "length s + n + 1"] by auto
    then show ?thesis using e(1) False unfolding prints_def
      by (intro exI [of _ False] exI [of _ q]) (simp add: pthen_def)
  qed
qed

lemma ensure_then_emits:
  assumes "holds p s" "length t \<le> n" "n \<le> length t + 2"
  shows "emits p s (Some t) (pthen (ensure n p) (\<lambda>p. do {
    p \<leftarrow> pwrite 0 t p; Some (True, p\<lparr>poff := poff p + length t\<rparr>) }))"
proof -
  obtain ok q where e: "ensure n p = Some (ok, q)" "ok \<Longrightarrow> holds q s" "ok \<Longrightarrow> frame p q"
    "ok \<Longrightarrow> length s + n + 1 \<le> plen q" "room p (length s + n + 1) \<longrightarrow> ok"
    using ensure_ok [OF assms(1), of n] by blast
  show ?thesis
  proof (cases ok)
    case True
    then obtain q' where q': "pwrite 0 t q = Some q'" "filled q' s t" "frame q q'" "plen q' = plen q"
      using pwrite_filled [OF filled_start, of q s 0 t] e assms(2) by auto
    have "holds (q'\<lparr>poff := poff q' + length t\<rparr>) (s @ t)"
      using holds_filled [OF q'(2)] q'(4) e(4) True assms(2) by simp
    moreover have "frame p (q'\<lparr>poff := poff q' + length t\<rparr>)"
      using frame_trans [OF e(3) [OF True] q'(3)] by (simp add: frame_def)
    ultimately show ?thesis
      unfolding emits_def using e(1) True q'(1)
      by (intro exI [of _ True] exI [of _ "q'\<lparr>poff := poff q' + length t\<rparr>"]) (simp add: pthen_def)
  next
    case False
    then have "\<not> (room p (length s + length t + 3))" using e(5) assms(3) room_mono [of p "length s + length t + 3" "length s + n + 1"] by auto
    then show ?thesis using e(1) False unfolding emits_def
      by (intro exI [of _ False] exI [of _ q]) (simp add: pthen_def)
  qed
qed

lemma print_literal_prints:
  assumes "holds p s" "no_nul lit" "n = length lit + 1"
  shows "prints p s (Some lit) (print_literal n lit p)"
  unfolding print_literal_def
proof (rule ensure_then_prints [OF assms(1) _ assms(2)])
  fix q assume q: "holds q s" "length s + n + 1 \<le> plen q"
  then show "\<exists>q'. do { p \<leftarrow> pwrite 0 (lit @ [NUL]) q; Some (True, p) } = Some (True, q') \<and> written q' s lit \<and> frame q q'"
    using pwrite_filled [OF filled_start, of q s 0 "lit @ [NUL]"] written_filled(1) assms by auto
qed (use assms in simp)

lemma escape_char_length: "length (escape_char c) = Suc (escape_extra c)"
  by (auto simp: escape_char_def escape_extra_def)

lemma escape_text_length: "length (escape_text s) = length s + sum_list (map escape_extra s)"
  by (induction s) (simp_all add: escape_text_def escape_char_length)

lemma escape_text_plain:
  assumes "sum_list (map escape_extra s) = 0"
  shows "escape_text s = s"
  using assms
proof (induction s)
  case (Cons c s)
  have "escape_char c = [c]"
    using Cons.prems by (auto simp: escape_char_def escape_extra_def split: if_splits)
  then show ?case using Cons by (simp add: escape_text_def)
qed (simp add: escape_text_def)

lemma hex_digit_ord: "n < 16 \<Longrightarrow> ord_c (hex_digit n) = (if n < 10 then 48 + n else 87 + n)"
  by (simp add: hex_digit_def)

lemma hex_digit_not_nul: "n < 16 \<Longrightarrow> hex_digit n \<noteq> NUL"
  using hex_digit_ord [of n] by (intro notI) (simp split: if_splits)

lemma escape_char_no_nul: "c \<noteq> NUL \<Longrightarrow> no_nul (escape_char c)"
proof -
  have "ord_c c < 256" by (rule nat_of_char_less_256)
  then have "ord_c c div 16 < 16" "ord_c c mod 16 < 16" using less_mult_imp_div_less [of "ord_c c" 16 16] by simp_all
  then show "c \<noteq> NUL \<Longrightarrow> no_nul (escape_char c)"
    using hex_digit_not_nul [of "ord_c c div 16"] hex_digit_not_nul [of "ord_c c mod 16"]
    by (auto simp: no_nul_def escape_char_def)
qed

lemma no_nul_append [simp]: "no_nul (s @ t) \<longleftrightarrow> no_nul s \<and> no_nul t"
  "no_nul (c # s) \<longleftrightarrow> c \<noteq> NUL \<and> no_nul s" "no_nul []"
  by (auto simp: no_nul_def)

lemma escape_text_no_nul: "no_nul s \<Longrightarrow> no_nul (escape_text s)"
  by (induction s) (simp_all add: escape_text_def escape_char_no_nul)

lemma print_string_ptr_prints:
  assumes "holds p s" "case input of None \<Rightarrow> True | Some x \<Rightarrow> no_nul x"
  shows "prints p s (Some (quoted input)) (print_string_ptr input p)"
proof (cases input)
  case None
  have "prints p s (Some [CHR 0x22, CHR 0x22])
      (pthen (ensure 3 p) (\<lambda>p. do { p \<leftarrow> pwrite 0 [CHR 0x22, CHR 0x22, NUL] p; Some (True, p) }))"
  proof (rule ensure_then_prints [OF assms(1)])
    fix q assume q: "holds q s" "length s + 3 + 1 \<le> plen q"
    then show "\<exists>q'. do { p \<leftarrow> pwrite 0 [CHR 0x22, CHR 0x22, NUL] q; Some (True, p) } = Some (True, q') \<and>
        written q' s [CHR 0x22, CHR 0x22] \<and> frame q q'"
      using pwrite_filled [OF filled_start, of q s 0 "[CHR 0x22, CHR 0x22, NUL]"]
        written_filled(1) [of _ s "[CHR 0x22, CHR 0x22]"] by auto
  qed simp_all
  then show ?thesis by (simp add: None print_string_ptr_def quoted_def)
next
  case (Some x)
  let ?n = "length x + sum_list (map escape_extra x)"
  have x: "no_nul (escape_text x)" using assms(2) by (simp add: Some escape_text_no_nul)
  have len: "length (escape_text x) = ?n" by (rule escape_text_length)
  let ?f = "\<lambda>p. do { p \<leftarrow> pwrite 0 [CHR 0x22] p; p \<leftarrow> pwrite 1 (escape_text x) p;
    p \<leftarrow> pwrite (?n + 1) [CHR 0x22, NUL] p; Some (True, p) }"
  have "print_string_ptr input p = pthen (ensure (?n + 3) p) ?f"
    using escape_text_plain [of x]
    by (cases "sum_list (map escape_extra x) = 0")
      (simp_all add: print_string_ptr_def Some Let_def del: sum_list_eq_0_iff)
  moreover have "prints p s (Some (quoted input)) (pthen (ensure (?n + 3) p) ?f)"
  proof (rule ensure_then_prints [OF assms(1)])
    fix q assume q: "holds q s" "length s + (?n + 3) + 1 \<le> plen q"
    obtain q1 where q1: "pwrite 0 [CHR 0x22] q = Some q1" "filled q1 s [CHR 0x22]" "frame q q1" "plen q1 = plen q"
      using pwrite_filled [OF filled_start [OF q(1)], of 0 "[CHR 0x22]"] q(2) by auto
    obtain q2 where q2: "pwrite 1 (escape_text x) q1 = Some q2" "filled q2 s (CHR 0x22 # escape_text x)"
      "frame q1 q2" "plen q2 = plen q"
      using pwrite_filled [OF q1(2), of 1 "escape_text x"] q(2) q1(4) len by auto
    obtain q3 where q3: "pwrite (?n + 1) [CHR 0x22, NUL] q2 = Some q3"
      "filled q3 s ((CHR 0x22 # escape_text x) @ [CHR 0x22, NUL])" "frame q2 q3"
      using pwrite_filled [OF q2(2), of "?n + 1" "[CHR 0x22, NUL]"] q(2) q2(4) len by auto
    have "written q3 s (quoted input)"
      using written_filled(1) [of q3 s "quoted input"] q3(2) x by (simp add: quoted_def Some)
    moreover have "frame q q3" using frame_trans [OF frame_trans [OF q1(3) q2(3)] q3(3)] .
    ultimately show "\<exists>q'. ?f q = Some (True, q') \<and> written q' s (quoted input) \<and> frame q q'"
      using q1(1) q2(1) q3(1) by auto
  qed (use x len in \<open>simp_all add: quoted_def Some\<close>)
  ultimately show ?thesis by simp
qed

lemma print_number_prints:
  assumes "holds p s" "no_nul (number_text vd vi)"
  shows "prints p s (if length (number_text vd vi) \<le> 25 then Some (number_text vd vi) else None)
    (print_number (Item ty vs vi vd nm cs) p)"
proof (cases "length (number_text vd vi) \<le> 25")
  case False
  then show ?thesis by (auto simp: print_number_def prints_def Let_def)
next
  case True
  let ?t = "number_text vd vi"
  have m: "map (\<lambda>c. if c = get_decimal_point then CHR ''.'' else c) ?t = ?t"
    by (simp add: get_decimal_point_def map_idI)
  let ?f = "\<lambda>p. do { p \<leftarrow> pwrite 0 ?t p; p \<leftarrow> pwrite (length ?t) [NUL] p;
    Some (True, p\<lparr>poff := poff p + length ?t\<rparr>) }"
  have "prints p s (Some ?t) (pthen (ensure (length ?t + 1) p) ?f)"
  proof (rule ensure_then_prints [OF assms(1) _ assms(2)])
    fix q assume q: "holds q s" "length s + (length ?t + 1) + 1 \<le> plen q"
    obtain q1 where q1: "pwrite 0 ?t q = Some q1" "filled q1 s ?t" "frame q q1" "plen q1 = plen q"
      using pwrite_filled [OF filled_start [OF q(1)], of 0 ?t] q(2) by auto
    obtain q2 where q2: "pwrite (length ?t) [NUL] q1 = Some q2" "filled q2 s (?t @ [NUL])" "frame q1 q2"
      using pwrite_filled [OF q1(2), of "length ?t" "[NUL]"] q(2) q1(4) by auto
    then show "\<exists>q'. ?f q = Some (True, q') \<and> written q' s ?t \<and> frame q q'"
      using q1 written_filled(2) [OF q2(2) assms(2)] by (auto simp: frame_def)
  qed simp
  then show ?thesis using True by (simp add: print_number_def Let_def m)
qed

lemma digit_no_nul: "\<forall>c \<in> set s. is_digit c \<Longrightarrow> no_nul s"
  using not_digit_nul by (auto simp: no_nul_def)

lemma no_nul_sub: "set s \<subseteq> set t \<Longrightarrow> no_nul t \<Longrightarrow> no_nul s"
  by (auto simp: no_nul_def)

lemma strip_zeros_no_nul: "no_nul s \<Longrightarrow> no_nul (strip_zeros s)"
  by (rule no_nul_sub) (auto simp: strip_zeros_def dest: set_dropWhileD)

lemma with_point_no_nul: "no_nul a \<Longrightarrow> no_nul b \<Longrightarrow> no_nul (with_point a b)"
  using strip_zeros_no_nul by (simp add: with_point_def Let_def)

lemma no_nul_take_drop: "no_nul s \<Longrightarrow> no_nul (take n s)" "no_nul s \<Longrightarrow> no_nul (drop n s)"
  by (auto simp: no_nul_def dest: in_set_takeD in_set_dropD)

lemma no_nul_replicate: "c \<noteq> NUL \<Longrightarrow> no_nul (replicate n c)"
  by (simp add: no_nul_def)

lemma show_g_no_nul: "no_nul (show_g P q)"
  by (simp add: show_g_def Let_def split_beta with_point_no_nul no_nul_take_drop no_nul_replicate)

lemma number_text_no_nul: "no_nul (number_text d v)"
  by (cases d) (simp_all add: number_text_def show_int_def show_g_no_nul Let_def split_beta)

text \<open>Sequencing: what comes first, then what comes behind it.\<close>

definition text_cat :: "string option \<Rightarrow> string option \<Rightarrow> string option" where
  "text_cat T U = (case (T, U) of (Some t, Some u) \<Rightarrow> Some (t @ u) | _ \<Rightarrow> None)"

lemma text_cat_Some: "text_cat T U = Some x \<longleftrightarrow> (\<exists>t u. T = Some t \<and> U = Some u \<and> x = t @ u)"
  by (auto simp: text_cat_def split: option.splits)

lemma emits_then:
  assumes "emits p s T r" and "\<And>t q. T = Some t \<Longrightarrow> holds q (s @ t) \<Longrightarrow> frame p q \<Longrightarrow> emits q (s @ t) U (f q)"
  shows "emits p s (text_cat T U) (pthen r f)"
proof -
  obtain ok q where r: "r = Some (ok, q)" "ok \<Longrightarrow> \<exists>t. T = Some t \<and> holds q (s @ t) \<and> frame p q"
    "T = Some t \<Longrightarrow> room p (length s + length t + 3) \<Longrightarrow> ok" for t
    using assms(1) unfolding emits_def by blast
  show ?thesis
  proof (cases ok)
    case False
    then have "\<not> ((\<exists>x. text_cat T U = Some x \<and> room p (length s + length x + 3)))"
      using r(3) by (auto simp: text_cat_Some room_def)
    then show ?thesis using r(1) False unfolding emits_def
      by (intro exI [of _ False] exI [of _ q]) (simp add: pthen_def)
  next
    case True
    then obtain t where t: "T = Some t" "holds q (s @ t)" "frame p q" using r(2) by blast
    obtain ok' q' where f: "f q = Some (ok', q')" "ok' \<Longrightarrow> \<exists>u. U = Some u \<and> holds q' ((s @ t) @ u) \<and> frame q q'"
      "U = Some u \<Longrightarrow> room q (length (s @ t) + length u + 3) \<Longrightarrow> ok'" for u
      using assms(2) [OF t] unfolding emits_def by blast
    have "pthen r f = Some (ok', q')" using r(1) f(1) True by (simp add: pthen_def)
    moreover have "\<exists>x. text_cat T U = Some x \<and> holds q' (s @ x) \<and> frame p q'" if "ok'"
      using f(2) [OF that] t frame_trans by (auto simp: text_cat_Some)
    moreover have "ok'" if "text_cat T U = Some x" "room p (length s + length x + 3)" for x
      using that f(3) t frame_room [OF t(3)] by (auto simp: text_cat_Some add.assoc)
    ultimately show ?thesis unfolding emits_def by blast
  qed
qed

lemma prints_update:
  assumes "prints p s T r"
  shows "emits p s T (pthen r (\<lambda>p. do { p \<leftarrow> update_offset p; Some (True, p) }))"
proof -
  obtain ok q where r: "r = Some (ok, q)" "ok \<Longrightarrow> \<exists>t. T = Some t \<and> written q s t \<and> frame p q"
    "\<exists>t. T = Some t \<and> room p (length s + length t + 3) \<Longrightarrow> ok"
    using assms unfolding prints_def by blast
  show ?thesis
  proof (cases ok)
    case False
    then show ?thesis using r unfolding emits_def
      by (intro exI [of _ False] exI [of _ q]) (auto simp: pthen_def)
  next
    case True
    then obtain t where t: "T = Some t" "written q s t" "frame p q" using r(2) by blast
    obtain q' where q': "update_offset q = Some q'" "holds q' (s @ t)" "frame q q'"
      using update_offset_ok [OF t(2)] by blast
    then show ?thesis using r(1) True t frame_trans [OF t(3) q'(3)] unfolding emits_def
      by (intro exI [of _ True] exI [of _ q']) (auto simp: pthen_def)
  qed
qed

lemma pthen_update:
  "pthen r (\<lambda>p. do { p \<leftarrow> update_offset p; f p }) = pthen (pthen r (\<lambda>p. do { p \<leftarrow> update_offset p; Some (True, p) })) f"
  by (cases r) (auto simp: pthen_def split_beta)

lemma prints_then:
  assumes "prints p s T r" and "\<And>t q. T = Some t \<Longrightarrow> holds q (s @ t) \<Longrightarrow> frame p q \<Longrightarrow> emits q (s @ t) U (f q)"
  shows "emits p s (text_cat T U) (pthen r (\<lambda>p. do { p \<leftarrow> update_offset p; f p }))"
  by (subst pthen_update) (rule emits_then [OF prints_update [OF assms(1)] assms(2)])

lemma emits_nothing: "holds p s \<Longrightarrow> emits p s (Some []) (Some (True, p))"
  by (auto simp: emits_def)

text \<open>
  A text \<open>w\<close> written through \<open>ensure\<close> and then skipped, perhaps with more bytes \<open>z\<close> (a NUL) behind it
  that are not skipped.
\<close>

definition skip :: "nat \<Rightarrow> printbuffer \<Rightarrow> printbuffer" where
  "skip n p = p\<lparr>poff := poff p + n\<rparr>"

lemma ensure_write_then:
  assumes "holds p s" "length w + length z \<le> n" "n \<le> length w + 2"
    and W: "\<And>q. frame p q \<Longrightarrow> W q = w @ z"
    and F: "\<And>q. frame p q \<Longrightarrow> holds (skip (length w) q) (s @ w) \<Longrightarrow> emits (skip (length w) q) (s @ w) U (F q)"
  shows "emits p s (text_cat (Some w) U) (pthen (ensure n p) (\<lambda>p. do { p \<leftarrow> pwrite 0 (W p) p; F p }))"
proof -
  obtain ok q where g: "ensure n p = Some (ok, q)" "ok \<Longrightarrow> holds q s" "ok \<Longrightarrow> frame p q"
    "ok \<Longrightarrow> length s + n + 1 \<le> plen q" "room p (length s + n + 1) \<longrightarrow> ok"
    using ensure_ok [OF assms(1), of n] by blast
  show ?thesis
  proof (cases ok)
    case True
    obtain q' where q': "pwrite 0 (w @ z) q = Some q'" "filled q' s (w @ z)" "frame q q'" "plen q' = plen q"
      using pwrite_filled [OF filled_start [OF g(2) [OF True]], of 0 "w @ z"] g(4) [OF True] assms(2) by auto
    have "filled q' s w" using q'(2) by (auto simp: filled_def)
    then have h: "holds (skip (length w) q') (s @ w)"
      using holds_filled [of q' s w "length w"] q'(4) g(4) [OF True] assms(2) by (simp add: skip_def)
    have fr: "frame p q'" using frame_trans [OF g(3) [OF True] q'(3)] .
    have e: "pthen (ensure n p) (\<lambda>p. do { p \<leftarrow> pwrite 0 (W p) p; F p }) = F q'"
      using g(1) True q'(1) W [OF g(3) [OF True]] by (simp add: pthen_def)
    obtain ok2 r where f: "F q' = Some (ok2, r)"
      "ok2 \<Longrightarrow> \<exists>u. U = Some u \<and> holds r ((s @ w) @ u) \<and> frame (skip (length w) q') r"
      "\<exists>u. U = Some u \<and> room (skip (length w) q') (length (s @ w) + length u + 3) \<Longrightarrow> ok2"
      using F [OF fr h] unfolding emits_def by blast
    have fr2: "frame p (skip (length w) q')" using fr by (simp add: frame_def skip_def)
    have "\<exists>x. text_cat (Some w) U = Some x \<and> holds r (s @ x) \<and> frame p r" if ok2
      using f(2) [OF that] frame_trans [OF fr2] by (auto simp: text_cat_Some)
    moreover have ok2 if "text_cat (Some w) U = Some x" "room p (length s + length x + 3)" for x
      using that f(3) frame_room [OF fr2] by (auto simp: text_cat_Some add.assoc)
    ultimately show ?thesis unfolding e emits_def using f(1) by blast
  next
    case False
    then have "\<not> ((\<exists>x. text_cat (Some w) U = Some x \<and> room p (length s + length x + 3)))"
      using g(5) assms(3) by (auto simp: text_cat_Some room_def)
    then show ?thesis using g(1) False unfolding emits_def
      by (intro exI [of _ False] exI [of _ q]) (simp add: pthen_def)
  qed
qed

lemma elems_text_Cons: "elems_text f d (e # es) = text_cat (json_text f d e)
    (if es \<noteq> [] then text_cat (Some (if f then '', '' else '','')) (elems_text f d es) else elems_text f d es)"
  by (auto simp: text_cat_def split: option.splits)

lemma members_text_Cons: "members_text f d (e # es) =
    text_cat (Some (if f then replicate d (CHR 0x09) else [])) (text_cat (Some (quoted (cname e)))
    (text_cat (Some (if f then [CHR '':'', CHR 0x09] else '':'')) (text_cat (json_text f d e)
    (text_cat (Some ((if es \<noteq> [] then '','' else []) @ (if f then [CHR 0x0A] else []))) (members_text f d es)))))"
  by (auto simp: text_cat_def split: option.splits)

definition value_ok :: "cJSON \<Rightarrow> bool" where
  "value_ok e \<longleftrightarrow> (\<forall>p s. holds p s \<longrightarrow> prints p s (json_text (pformat p) (pdepth p) e) (print_value e p))"

lemma frame_fields: "frame p q \<Longrightarrow> pformat q = pformat p" "frame p q \<Longrightarrow> pdepth q = pdepth p"
  by (simp_all add: frame_def)

lemma skip_frame: "frame p q \<Longrightarrow> frame p (skip n q)"
  by (simp add: frame_def skip_def)

lemma elems_ok:
  assumes "\<forall>e \<in> set es. value_ok e" "holds p s"
  shows "emits p s (elems_text (pformat p) (pdepth p) es) (print_elems es p)"
  using assms
proof (induction es arbitrary: p s)
  case Nil
  then show ?case by (simp add: emits_nothing)
next
  case (Cons e es)
  have e: "prints p s (json_text (pformat p) (pdepth p) e) (print_value e p)"
    using Cons.prems by (simp add: value_ok_def)
  show ?case
    unfolding elems_text_Cons print_elems.simps
  proof (rule prints_then [OF e])
    fix t q assume q: "holds q (s @ t)" "frame p q"
    have IH: "emits q' u (elems_text (pformat p) (pdepth p) es) (print_elems es q')"
      if "holds q' u" "frame p q'" for q' u
      using Cons.IH [OF _ that(1)] Cons.prems frame_fields [OF that(2)] by simp
    have "emits q (s @ t) (text_cat (Some (if pformat p then '', '' else '','')) (elems_text (pformat p) (pdepth p) es))
        (pthen (ensure ((if pformat q then 2 else 1) + 1) q) (\<lambda>p. do {
           p \<leftarrow> pwrite 0 ((if pformat p then '', '' else '','') @ [NUL]) p;
           print_elems es (p\<lparr>poff := poff p + (if pformat p then 2 else 1)\<rparr>) }))"
    proof (rule ensure_write_then [OF q(1), where z = "[NUL]"])
      fix q' assume q': "frame q q'" 
      note fr = frame_trans [OF q(2) q']
      show "(if pformat q' then '', '' else '','') @ [NUL] = (if pformat p then '', '' else '','') @ [NUL]"
        using frame_fields [OF fr] by simp
      assume h: "holds (skip (length (if pformat p then '', '' else '','')) q') ((s @ t) @ (if pformat p then '', '' else '',''))"
      show "emits (skip (length (if pformat p then '', '' else '','')) q') ((s @ t) @ (if pformat p then '', '' else '',''))
          (elems_text (pformat p) (pdepth p) es)
          (print_elems es (q'\<lparr>poff := poff q' + (if pformat q' then 2 else 1)\<rparr>))"
        using IH [OF h skip_frame [OF fr]] frame_fields [OF fr] by (simp add: skip_def split: if_splits)
    qed (use frame_fields [OF q(2)] in simp_all)
    then show "emits q (s @ t)
      (if es \<noteq> [] then text_cat (Some (if pformat p then '', '' else '','')) (elems_text (pformat p) (pdepth p) es)
       else elems_text (pformat p) (pdepth p) es)
      (if es \<noteq> [] then
         pthen (ensure ((if pformat q then 2 else 1) + 1) q) (\<lambda>p. do {
           p \<leftarrow> pwrite 0 ((if pformat p then '', '' else '','') @ [NUL]) p;
           print_elems es (p\<lparr>poff := poff p + (if pformat p then 2 else 1)\<rparr>) })
       else print_elems es q)"
      using IH [OF q] by (cases "es = []") (simp_all only: if_True if_False not_False_eq_True simp_thms)
  qed
qed

lemma members_ok:
  assumes "\<forall>e \<in> set es. value_ok e \<and> (case cname e of None \<Rightarrow> True | Some x \<Rightarrow> no_nul x)" "holds p s"
  shows "emits p s (members_text (pformat p) (pdepth p) es) (print_members es p)"
  using assms
proof (induction es arbitrary: p s)
  case Nil
  then show ?case by (simp add: emits_nothing)
next
  case (Cons e es)
  let ?f = "pformat p" and ?d = "pdepth p"
  have IH: "emits q u (members_text ?f ?d es) (print_members es q)" if "holds q u" "frame p q" for q u
    using Cons.IH [OF _ that(1)] Cons.prems frame_fields [OF that(2)] by simp
  have val: "prints q u (json_text ?f ?d e) (print_value e q)" if "holds q u" "frame p q" for q u
  proof -
    have "value_ok e" using Cons.prems by simp
    then have "prints q u (json_text (pformat q) (pdepth q) e) (print_value e q)"
      using that(1) by (simp add: value_ok_def)
    then show ?thesis by (simp only: frame_fields [OF that(2)])
  qed
  let ?sep = "(if es \<noteq> [] then '','' else []) @ (if ?f then [CHR 0x0A] else [])"
  have sep: "emits q u (text_cat (Some ?sep) (members_text ?f ?d es))
      (pthen (ensure ((if pformat q then 1 else 0) + (if es \<noteq> [] then 1 else 0) + 1) q) (\<lambda>p. do {
         p \<leftarrow> pwrite 0 ((if es \<noteq> [] then '','' else []) @ (if pformat p then [CHR 0x0A] else []) @ [NUL]) p;
         print_members es (p\<lparr>poff := poff p + ((if pformat p then 1 else 0) + (if es \<noteq> [] then 1 else 0))\<rparr>) }))"
    if q: "holds q u" "frame p q" for q u
  proof (rule ensure_write_then [OF q(1), where z = "[NUL]"])
    fix q' assume q': "frame q q'" and h: "holds (skip (length ?sep) q') (u @ ?sep)"
    note fr = frame_trans [OF q(2) q']
    show "emits (skip (length ?sep) q') (u @ ?sep) (members_text ?f ?d es)
        (print_members es (q'\<lparr>poff := poff q' + ((if pformat q' then 1 else 0) + (if es \<noteq> [] then 1 else 0))\<rparr>))"
      using IH [OF h skip_frame [OF fr]] frame_fields [OF fr] by (simp add: skip_def split: if_splits)
  qed (use frame_fields [OF frame_trans [OF q(2)]] frame_fields [OF q(2)] in auto)
  have colon: "emits q u (text_cat (Some (if ?f then [CHR '':'', CHR 0x09] else '':''))
        (text_cat (json_text ?f ?d e) (text_cat (Some ?sep) (members_text ?f ?d es))))
      (pthen (ensure (if pformat q then 2 else 1) q) (\<lambda>p. do {
         p \<leftarrow> pwrite 0 (if pformat p then [CHR '':'', CHR 0x09] else '':'') p;
         pthen (print_value e (p\<lparr>poff := poff p + (if pformat p then 2 else 1)\<rparr>)) (\<lambda>p. do {
           p \<leftarrow> update_offset p;
           pthen (ensure ((if pformat p then 1 else 0) + (if es \<noteq> [] then 1 else 0) + 1) p) (\<lambda>p. do {
             p \<leftarrow> pwrite 0 ((if es \<noteq> [] then '','' else []) @ (if pformat p then [CHR 0x0A] else []) @ [NUL]) p;
             print_members es (p\<lparr>poff := poff p + ((if pformat p then 1 else 0) + (if es \<noteq> [] then 1 else 0))\<rparr>) }) }) }))"
    if q: "holds q u" "frame p q" for q u
  proof (rule ensure_write_then [OF q(1), where z = "[]"])
    let ?c = "if ?f then [CHR '':'', CHR 0x09] else '':''"
    fix q' assume q': "frame q q'" and h: "holds (skip (length ?c) q') (u @ ?c)"
    note fr = frame_trans [OF q(2) q']
    have e: "q'\<lparr>poff := poff q' + (if pformat q' then 2 else 1)\<rparr> = skip (length ?c) q'"
      using frame_fields [OF fr] by (simp add: skip_def)
    show "emits (skip (length ?c) q') (u @ ?c) (text_cat (json_text ?f ?d e) (text_cat (Some ?sep) (members_text ?f ?d es)))
        (pthen (print_value e (q'\<lparr>poff := poff q' + (if pformat q' then 2 else 1)\<rparr>)) (\<lambda>p. do {
           p \<leftarrow> update_offset p;
           pthen (ensure ((if pformat p then 1 else 0) + (if es \<noteq> [] then 1 else 0) + 1) p) (\<lambda>p. do {
             p \<leftarrow> pwrite 0 ((if es \<noteq> [] then '','' else []) @ (if pformat p then [CHR 0x0A] else []) @ [NUL]) p;
             print_members es (p\<lparr>poff := poff p + ((if pformat p then 1 else 0) + (if es \<noteq> [] then 1 else 0))\<rparr>) }) }))"
      unfolding e
      by (rule prints_then [OF val [OF h skip_frame [OF fr]]])
        (rule sep, assumption, erule frame_trans [OF skip_frame [OF fr]])
  qed (use frame_fields [OF frame_trans [OF q(2)]] frame_fields [OF q(2)] in auto)
  have key: "emits q u (text_cat (Some (quoted (cname e))) (text_cat (Some (if ?f then [CHR '':'', CHR 0x09] else '':''))
        (text_cat (json_text ?f ?d e) (text_cat (Some ?sep) (members_text ?f ?d es)))))
      (pthen (print_string_ptr (cname e) q) (\<lambda>p. do {
       p \<leftarrow> update_offset p;
       pthen (ensure (if pformat p then 2 else 1) p) (\<lambda>p. do {
         p \<leftarrow> pwrite 0 (if pformat p then [CHR '':'', CHR 0x09] else '':'') p;
         pthen (print_value e (p\<lparr>poff := poff p + (if pformat p then 2 else 1)\<rparr>)) (\<lambda>p. do {
           p \<leftarrow> update_offset p;
           pthen (ensure ((if pformat p then 1 else 0) + (if es \<noteq> [] then 1 else 0) + 1) p) (\<lambda>p. do {
             p \<leftarrow> pwrite 0 ((if es \<noteq> [] then '','' else []) @ (if pformat p then [CHR 0x0A] else []) @ [NUL]) p;
             print_members es (p\<lparr>poff := poff p + ((if pformat p then 1 else 0) + (if es \<noteq> [] then 1 else 0))\<rparr>) }) }) }) }))"
    if q: "holds q u" "frame p q" for q u
    by (rule prints_then [OF print_string_ptr_prints [OF q(1)]])
      (use Cons.prems(1) in simp, rule colon, assumption, erule frame_trans [OF q(2)])
  have tabs: "emits p s (Some (if ?f then replicate ?d (CHR 0x09) else []))
      (if pformat p then pthen (ensure (pdepth p) p) (\<lambda>p. do {
           p \<leftarrow> pwrite 0 (replicate (pdepth p) (CHR 0x09)) p;
           Some (True, p\<lparr>poff := poff p + pdepth p\<rparr>) })
       else Some (True, p))"
  proof (cases ?f)
    case True
    have "emits p s (text_cat (Some (replicate ?d (CHR 0x09))) (Some []))
        (pthen (ensure (pdepth p) p) (\<lambda>p. do {
           p \<leftarrow> pwrite 0 (replicate (pdepth p) (CHR 0x09)) p;
           Some (True, p\<lparr>poff := poff p + pdepth p\<rparr>) }))"
    proof (rule ensure_write_then [OF Cons.prems(2), where z = "[]"])
      fix q assume q: "frame p q" "holds (skip (length (replicate ?d (CHR 0x09))) q) (s @ replicate ?d (CHR 0x09))"
      then show "emits (skip (length (replicate ?d (CHR 0x09))) q) (s @ replicate ?d (CHR 0x09)) (Some [])
          (Some (True, q\<lparr>poff := poff q + pdepth q\<rparr>))"
        using emits_nothing [OF q(2)] frame_fields [OF q(1)] by (simp add: skip_def)
    qed (use frame_fields in auto)
    then show ?thesis using True by (simp add: text_cat_def)
  qed (simp add: emits_nothing [OF Cons.prems(2)])
  show ?case
    unfolding members_text_Cons print_members.simps
    by (rule emits_then [OF tabs]) (rule key, assumption+)
qed

text \<open>A bracketed sequence: the depth goes up behind the opening text and down again at the end.\<close>

lemma bracketed:
  assumes "holds p s" "length w \<le> n" "n \<le> length w + 2" "no_nul w" "no_nul c"
    and W: "\<And>q. frame p q \<Longrightarrow> W q = w"
    and G: "\<And>q. frame p q \<Longrightarrow> G q = q\<lparr>poff := poff q + length w, pdepth := pdepth q + 1\<rparr>"
    and B: "\<And>q. frame (p\<lparr>pdepth := pdepth p + 1\<rparr>) q \<Longrightarrow> holds q (s @ w) \<Longrightarrow> emits q (s @ w) T (B q)"
    and C: "\<And>q. frame (p\<lparr>pdepth := pdepth p + 1\<rparr>) q \<Longrightarrow> C q = c @ [NUL]"
    and K: "\<And>q. frame (p\<lparr>pdepth := pdepth p + 1\<rparr>) q \<Longrightarrow> K q = length c + 1"
    and T: "\<And>t. T = Some t \<Longrightarrow> no_nul t"
  shows "prints p s (text_cat (Some w) (text_cat T (Some c)))
    (pthen (ensure n p) (\<lambda>p. do {
       p \<leftarrow> pwrite 0 (W p) p;
       pthen (B (G p)) (\<lambda>p. pthen (ensure (K p) p) (\<lambda>p. do {
         p \<leftarrow> pwrite 0 (C p) p; Some (True, p\<lparr>pdepth := pdepth p - 1\<rparr>) })) }))"
    (is "prints p s ?T ?r")
proof -
  let ?deep = "p\<lparr>pdepth := pdepth p + 1\<rparr>"
  obtain ok q where g: "ensure n p = Some (ok, q)" "ok \<Longrightarrow> holds q s" "ok \<Longrightarrow> frame p q"
    "ok \<Longrightarrow> length s + n + 1 \<le> plen q" "room p (length s + n + 1) \<longrightarrow> ok"
    using ensure_ok [OF assms(1), of n] by blast
  show ?thesis
  proof (cases ok)
    case False
    then have "\<not> ((\<exists>x. ?T = Some x \<and> room p (length s + length x + 3)))"
      using g(5) assms(3) by (auto simp: text_cat_Some room_def)
    then show ?thesis using g(1) False unfolding prints_def
      by (intro exI [of _ False] exI [of _ q]) (simp add: pthen_def)
  next
    case True
    obtain q1 where q1: "pwrite 0 w q = Some q1" "filled q1 s w" "frame q q1" "plen q1 = plen q"
      using pwrite_filled [OF filled_start [OF g(2) [OF True]], of 0 w] g(4) [OF True] assms(2) by auto
    have fr1: "frame p q1" using frame_trans [OF g(3) [OF True] q1(3)] .
    have "holds (q1\<lparr>poff := poff q1 + length w\<rparr>) (s @ w)"
      using holds_filled [OF q1(2)] q1(4) g(4) [OF True] assms(2) by simp
    then have h: "holds (G q1) (s @ w)" unfolding G [OF fr1] by (simp add: holds_def buf_ok_def split: option.splits)
    have fr: "frame ?deep (G q1)" unfolding G [OF fr1] using fr1 by (simp add: frame_def)
    have w: "W q = w" by (rule W [OF g(3) [OF True]])
    have r1: "?r = pthen (B (G q1)) (\<lambda>p. pthen (ensure (K p) p) (\<lambda>p. do {
         p \<leftarrow> pwrite 0 (C p) p; Some (True, p\<lparr>pdepth := pdepth p - 1\<rparr>) }))"
      using g(1) True q1(1) by (simp add: pthen_def w)
    obtain ok2 q2 where b: "B (G q1) = Some (ok2, q2)"
      "ok2 \<Longrightarrow> \<exists>t. T = Some t \<and> holds q2 ((s @ w) @ t) \<and> frame (G q1) q2"
      "\<exists>t. T = Some t \<and> room (G q1) (length (s @ w) + length t + 3) \<Longrightarrow> ok2"
      using B [OF fr h] unfolding emits_def by blast
    have u1: "room p m \<Longrightarrow> k \<le> m \<Longrightarrow> room (G q1) k" for m k
      using fr by (auto simp: room_def unlimited_def frame_def)
    show ?thesis
    proof (cases ok2)
      case False
      then have "\<not> ((\<exists>x. ?T = Some x \<and> room p (length s + length x + 3)))"
        using b(3) u1 [of _ "length (s @ w) + _ + 3"] by (fastforce simp: text_cat_Some)
      then show ?thesis using b(1) False unfolding prints_def r1
        by (intro exI [of _ False] exI [of _ q2]) (simp add: pthen_def)
    next
      case True
      then obtain t where t: "T = Some t" "holds q2 ((s @ w) @ t)" "frame (G q1) q2" using b(2) by blast
      have fr2: "frame ?deep q2" using frame_trans [OF fr t(3)] .
      obtain ok3 q3 where e: "ensure (K q2) q2 = Some (ok3, q3)" "ok3 \<Longrightarrow> holds q3 ((s @ w) @ t)" "ok3 \<Longrightarrow> frame q2 q3"
        "ok3 \<Longrightarrow> length ((s @ w) @ t) + K q2 + 1 \<le> plen q3"
        "room q2 (length ((s @ w) @ t) + K q2 + 1) \<longrightarrow> ok3"
        using ensure_ok [OF t(2), of "K q2"] by blast
      have u2: "room p m \<Longrightarrow> k \<le> m \<Longrightarrow> room q2 k" for m k
        using fr2 by (auto simp: room_def unlimited_def frame_def)
      show ?thesis
      proof (cases ok3)
        case False
        then have "\<not> ((\<exists>x. ?T = Some x \<and> room p (length s + length x + 3)))"
          using e(5) u2 [of _ "length ((s @ w) @ t) + K q2 + 1"] K [OF fr2] t(1) by (fastforce simp: text_cat_Some)
        then show ?thesis using b(1) e(1) True False unfolding prints_def r1
          by (intro exI [of _ False] exI [of _ q3]) (simp add: pthen_def)
      next
        case ok3: True
        have fr3: "frame ?deep q3" using frame_trans [OF fr2 e(3) [OF ok3]] .
        obtain q4 where q4: "pwrite 0 (c @ [NUL]) q3 = Some q4" "filled q4 ((s @ w) @ t) (c @ [NUL])" "frame q3 q4"
          using pwrite_filled [OF filled_start [OF e(2) [OF ok3]], of 0 "c @ [NUL]"] e(4) [OF ok3] K [OF fr2] by auto
        let ?q = "q4\<lparr>pdepth := pdepth q4 - 1\<rparr>"
        have fr4: "frame ?deep q4" using frame_trans [OF fr3 q4(3)] .
        have "filled ?q ((s @ w) @ t) (c @ [NUL])" using q4(2) by (simp add: filled_def buf_ok_def split: option.splits)
        then have "written ?q s (w @ t @ c)"
          using assms(4,5) T [OF t(1)] by (auto simp: filled_def written_def buf_ok_def)
        moreover have "frame p ?q" using fr4 by (simp add: frame_def)
        moreover have "?r = Some (True, ?q)"
          unfolding r1 using b(1) e(1) True ok3 q4(1) C [OF fr3] by (simp add: pthen_def)
        ultimately show ?thesis
          unfolding prints_def using t(1) by (auto simp: text_cat_def)
      qed
    qed
  qed
qed

lemma quoted_no_nul: "(case s of None \<Rightarrow> True | Some x \<Rightarrow> no_nul x) \<Longrightarrow> no_nul (quoted s)"
  by (cases s) (simp_all add: quoted_def escape_text_no_nul)

lemma json_text_no_nul:
  "json_text f d it = Some t \<Longrightarrow> item_ok it \<Longrightarrow> no_nul t"
  "elems_text f d es = Some ts \<Longrightarrow> list_all item_ok es \<Longrightarrow> no_nul ts"
  "members_text f d ms = Some us \<Longrightarrow> list_all item_ok ms \<Longrightarrow> no_nul us"
proof (induction f d it and f d es and f d ms arbitrary: t and ts and us
    rule: json_text_elems_text_members_text.induct)
  case (1 f d ty vs vi vd nm cs)
  show ?case
    using 1 by (auto simp: Let_def number_text_no_nul quoted_no_nul no_nul_replicate split: if_splits option.splits)
next
  case (3 f d e es)
  then show ?case by (auto split: option.splits if_splits)
next
  case (5 f d e es)
  have "no_nul (quoted (cname e))" using 5(4) by (cases e) (simp add: quoted_no_nul)
  then show ?case using 5 by (auto simp: no_nul_replicate split: option.splits if_splits)
qed simp_all

lemma item_ok_cname: "item_ok e \<Longrightarrow> case cname e of None \<Rightarrow> True | Some x \<Rightarrow> no_nul x"
  by (cases e) simp

lemma prints_fail: "prints p s None (Some (False, p))"
  by (auto simp: prints_def)

lemma value_ok_all: "item_ok it \<Longrightarrow> value_ok it"
proof (induction it rule: cJSON.induct)
  case (Item ty vs vi vd nm cs)
  let ?it = "Item ty vs vi vd nm cs"
  have cs: "\<forall>e \<in> set cs. value_ok e \<and> (case cname e of None \<Rightarrow> True | Some x \<Rightarrow> no_nul x)"
  proof
    fix e assume "e \<in> set cs"
    moreover from this have "item_ok e" using Item.prems by (auto simp: list_all_iff)
    ultimately show "value_ok e \<and> (case cname e of None \<Rightarrow> True | Some x \<Rightarrow> no_nul x)"
      using Item.IH item_ok_cname by auto
  qed
  have el: "elems_text f d cs = Some t \<Longrightarrow> no_nul t" "members_text f d cs = Some t \<Longrightarrow> no_nul t" for f d t
    using json_text_no_nul(2,3) Item.prems by auto
  have vs: "case vs of None \<Rightarrow> True | Some x \<Rightarrow> no_nul x" using Item.prems by simp
  show ?case
    unfolding value_ok_def
  proof (intro allI impI)
    fix p s assume h: "holds p s"
    let ?t = "ty AND 0xFF" and ?f = "pformat p" and ?d = "pdepth p"
    have arr: "prints p s (text_cat (Some ''['') (text_cat (elems_text ?f (Suc ?d) cs) (Some '']'')))
      (pthen (ensure 1 p) (\<lambda>p. do {
          p \<leftarrow> pwrite 0 ''['' p;
          pthen (print_elems cs (p\<lparr>poff := poff p + 1, pdepth := pdepth p + 1\<rparr>)) (\<lambda>p.
            pthen (ensure 2 p) (\<lambda>p. do {
              p \<leftarrow> pwrite 0 ('']'' @ [NUL]) p;
              Some (True, p\<lparr>pdepth := pdepth p - 1\<rparr>) })) }))"
    proof (rule bracketed [OF h])
      fix q assume q: "frame (p\<lparr>pdepth := pdepth p + 1\<rparr>) q" "holds q (s @ ''['')"
      show "emits q (s @ ''['') (elems_text ?f (Suc ?d) cs) (print_elems cs q)"
        using elems_ok [OF _ q(2), of cs] cs frame_fields [OF q(1)] by simp
    qed (use el in simp_all)
    let ?o = "if ?f then [CHR ''{'', CHR 0x0A] else ''{''"
    let ?c = "(if ?f then replicate ?d (CHR 0x09) else []) @ ''}''"
    have obj: "prints p s (text_cat (Some ?o) (text_cat (members_text ?f (Suc ?d) cs) (Some ?c)))
      (pthen (ensure ((if pformat p then 2 else 1) + 1) p) (\<lambda>p. do {
          p \<leftarrow> pwrite 0 (if pformat p then [CHR ''{'', CHR 0x0A] else ''{'') p;
          pthen (print_members cs (p\<lparr>pdepth := pdepth p + 1, poff := poff p + (if pformat p then 2 else 1)\<rparr>)) (\<lambda>p.
            pthen (ensure (if pformat p then pdepth p + 1 else 2) p) (\<lambda>p. do {
              p \<leftarrow> pwrite 0 ((if pformat p then replicate (pdepth p - 1) (CHR 0x09) else []) @ ''}'' @ [NUL]) p;
              Some (True, p\<lparr>pdepth := pdepth p - 1\<rparr>) })) }))"
    proof (rule bracketed [OF h, where W = "\<lambda>p. if pformat p then [CHR ''{'', CHR 0x0A] else ''{''"
          and G = "\<lambda>p. p\<lparr>pdepth := pdepth p + 1, poff := poff p + (if pformat p then 2 else 1)\<rparr>"])
      fix q assume q: "frame (p\<lparr>pdepth := pdepth p + 1\<rparr>) q"
      show "emits q (s @ ?o) (members_text ?f (Suc ?d) cs) (print_members cs q)" if "holds q (s @ ?o)"
        using members_ok [OF cs that] frame_fields [OF q] by simp
      show "(if pformat q then replicate (pdepth q - 1) (CHR 0x09) else []) @ ''}'' @ [NUL] = ?c @ [NUL]"
        "(if pformat q then pdepth q + 1 else 2) = length ?c + 1"
        using frame_fields [OF q] by simp_all
    next
      fix q assume q: "frame p q"
      show "q\<lparr>pdepth := pdepth q + 1, poff := poff q + (if pformat q then 2 else 1)\<rparr> =
          q\<lparr>poff := poff q + length ?o, pdepth := pdepth q + 1\<rparr>"
        using frame_fields [OF q] by simp
    qed (use el frame_fields in \<open>auto simp: no_nul_replicate\<close>)
    consider "?t = cJSON_NULL" | "?t = cJSON_False" | "?t = cJSON_True" | "?t = cJSON_Number" | "?t = cJSON_Raw"
      | "?t = cJSON_String" | "?t = cJSON_Array" | "?t = cJSON_Object"
      | "?t \<notin> {cJSON_NULL, cJSON_False, cJSON_True, cJSON_Number, cJSON_Raw, cJSON_String, cJSON_Array, cJSON_Object}"
      by auto
    then show "prints p s (json_text ?f ?d ?it) (print_value ?it p)"
    proof cases
      case 1
      then show ?thesis using print_literal_prints [OF h, of "''null''" 5] by (simp add: cJSON_types)
    next
      case 2
      then show ?thesis using print_literal_prints [OF h, of "''false''" 6] by (simp add: cJSON_types)
    next
      case 3
      then show ?thesis using print_literal_prints [OF h, of "''true''" 5] by (simp add: cJSON_types)
    next
      case 4
      then show ?thesis
        using print_number_prints [OF h number_text_no_nul, of vd vi ty vs nm cs] by (simp add: cJSON_types)
    next
      case 5
      then show ?thesis
        using print_literal_prints [OF h] vs prints_fail [of p s] by (simp add: cJSON_types split: option.splits)
    next
      case 6
      then show ?thesis
        using print_string_ptr_prints [OF h vs] by (simp add: cJSON_types print_string_def)
    next
      case 7
      then have "json_text ?f ?d ?it = text_cat (Some ''['') (text_cat (elems_text ?f (Suc ?d) cs) (Some '']''))"
        by (simp add: cJSON_types text_cat_def split: option.splits)
      moreover have "print_value ?it p = pthen (ensure 1 p) (\<lambda>p. do {
          p \<leftarrow> pwrite 0 ''['' p;
          pthen (print_elems cs (p\<lparr>poff := poff p + 1, pdepth := pdepth p + 1\<rparr>)) (\<lambda>p.
            pthen (ensure 2 p) (\<lambda>p. do {
              p \<leftarrow> pwrite 0 ('']'' @ [NUL]) p;
              Some (True, p\<lparr>pdepth := pdepth p - 1\<rparr>) })) })"
        using 7 by (simp only: print_value.simps Let_def) (simp add: cJSON_types)
      ultimately show ?thesis using arr by (simp only:)
    next
      case 8
      then have "json_text ?f ?d ?it = text_cat (Some ?o) (text_cat (members_text ?f (Suc ?d) cs) (Some ?c))"
        by (simp add: cJSON_types text_cat_def split: option.splits)
      moreover have "print_value ?it p = pthen (ensure ((if pformat p then 2 else 1) + 1) p) (\<lambda>p. do {
          p \<leftarrow> pwrite 0 (if pformat p then [CHR ''{'', CHR 0x0A] else ''{'') p;
          pthen (print_members cs (p\<lparr>pdepth := pdepth p + 1, poff := poff p + (if pformat p then 2 else 1)\<rparr>)) (\<lambda>p.
            pthen (ensure (if pformat p then pdepth p + 1 else 2) p) (\<lambda>p. do {
              p \<leftarrow> pwrite 0 ((if pformat p then replicate (pdepth p - 1) (CHR 0x09) else []) @ ''}'' @ [NUL]) p;
              Some (True, p\<lparr>pdepth := pdepth p - 1\<rparr>) })) })"
        using 8 by (simp only: print_value.simps Let_def) (simp add: cJSON_types)
      ultimately show ?thesis using obj by (simp only:)
    next
      case 9
      then show ?thesis using prints_fail [of p s] by (simp add: Let_def)
    qed
  qed
qed

lemma print_value_ok:
  "holds p s \<Longrightarrow> item_ok it \<Longrightarrow> prints p s (json_text (pformat p) (pdepth p) it) (print_value it p)"
  using value_ok_all by (simp add: value_ok_def)

section \<open>Properties\<close>

lemma fresh_holds: "0 < n \<or> has_realloc hooks \<Longrightarrow> holds (fresh_buffer n f hooks) []"
  by (auto simp: holds_def buf_ok_def fresh_buffer_def)

text \<open>What \<open>print\<close> makes of the buffer that \<open>print_value\<close> leaves: the text with its NUL.\<close>

lemma print_outcome:
  assumes "item_ok it" "can_alloc hooks (Buffer_Of 256)"
  shows "\<exists>ok. (\<not> ok \<longrightarrow> print (Some it) f hooks = Some None) \<and>
    (ok \<longrightarrow> (\<exists>t. json_text f 0 it = Some t \<and> print (Some it) f hooks =
       (if can_alloc hooks (Result_Of (length t + 1)) then Some (Some (t @ [NUL])) else Some None))) \<and>
    ((\<exists>t. json_text f 0 it = Some t \<and> room (fresh_buffer 256 f hooks) (length t + 3)) \<longrightarrow> ok)"
proof -
  let ?p = "fresh_buffer 256 f hooks"
  have h: "holds ?p []" by (rule fresh_holds) simp
  have fields: "pformat ?p = f" "pdepth ?p = 0" "phooks ?p = hooks" by (simp_all add: fresh_buffer_def)
  obtain ok q where v: "print_value it ?p = Some (ok, q)"
    "ok \<Longrightarrow> \<exists>t. json_text f 0 it = Some t \<and> written q [] t \<and> frame ?p q"
    "\<exists>t. json_text f 0 it = Some t \<and> room ?p (length t + 3) \<Longrightarrow> ok"
    using print_value_ok [OF h assms(1)] unfolding prints_def fields by auto
  have "\<exists>t. json_text f 0 it = Some t \<and> print (Some it) f hooks =
       (if can_alloc hooks (Result_Of (length t + 1)) then Some (Some (t @ [NUL])) else Some None)" if ok
  proof -
    obtain t where t: "json_text f 0 it = Some t" "written q [] t" "frame ?p q" using v(2) \<open>ok\<close> by blast
    obtain q' where q': "update_offset q = Some q'" "holds q' t" using update_offset_ok [OF t(2)] by auto
    obtain r0 where "pbuf q = Some (t @ NUL # r0)" using t(2) by (auto simp: written_def)
    moreover have "pbuf q' = pbuf q"
      using q'(1) by (auto simp: update_offset_def bind_Some_iff split: option.splits)
    ultimately have b: "pbuf q' = Some (t @ NUL # r0)" by simp
    have o: "poff q' = length t" and l: "plen q' = length t + 1 + length r0"
      using q'(2) b by (auto simp: holds_def buf_ok_def)
    have w1: "write_at (replicate (length t + 1) x) 0 (t @ [NUL]) = Some (t @ [NUL])" for x
      by (simp add: write_at_def)
    have w2: "write_at (t @ [NUL]) (length t) [NUL] = Some (t @ [NUL])" by (simp add: write_at_def)
    have m: "take (min (plen q') (length t + 1)) (t @ NUL # r0) = t @ [NUL]" using l by simp
    have "print (Some it) f hooks =
       (if can_alloc hooks (Result_Of (length t + 1)) then Some (Some (t @ [NUL])) else Some None)"
    proof (cases "has_realloc hooks")
      case True
      then show ?thesis
        using assms(2) v(1) \<open>ok\<close> q'(1) b o by (simp add: print_def print_top_def)
    next
      case False
      then show ?thesis
        using assms(2) v(1) \<open>ok\<close> q'(1) b o m w1 w2 by (simp add: print_def print_top_def del: replicate_Suc)
    qed
    then show ?thesis using t(1) by blast
  qed
  moreover have "print (Some it) f hooks = Some None" if "\<not> ok"
    using assms(2) v(1) that by (simp add: print_def print_top_def)
  ultimately show ?thesis using v(3) by blast
qed

lemma print_text:
  assumes "item_ok it" "\<forall>n. can_alloc hooks n" "json_text f 0 it = Some t" "length t + 3 \<le> IMAX"
  shows "print (Some it) f hooks = Some (Some (t @ [NUL]))"
proof -
  have "room (fresh_buffer 256 f hooks) (length t + 3)"
    using assms(2,4) by (simp add: room_def unlimited_def fresh_buffer_def)
  then show ?thesis using print_outcome [OF assms(1), of hooks f] assms(2,3) by auto
qed

text \<open>
  C9: \<open>cJSON_Print\<close> and \<open>cJSON_PrintUnformatted\<close> (\<open>print\<close> with either format), when memory is available,
  give exactly the text of the item, NUL-terminated, although they write it piecewise into a buffer
  that grows by reallocation (with \<open>realloc\<close> or by hand): the buffer code refines \<open>json_text\<close>.
\<close>

theorem print_correct:
  assumes "item_ok it" "\<forall>n. can_alloc hooks n" "json_text f 0 it = Some t" "length t + 3 \<le> IMAX"
  shows "print (Some it) f hooks = Some (Some (t @ [NUL]))"
  using assms by (rule print_text)

definition demo_hooks :: internal_hooks where
  "demo_hooks = \<lparr>can_alloc = (\<lambda>_. True), has_realloc = True, fill = CHR ''?''\<rparr>"

definition demo_item :: cJSON where
  "demo_item = Item cJSON_Object None 0 (Fin 0) None
     [Item cJSON_Number None 7 (Fin 7) (Some ''PID'') [],
      Item cJSON_Array None 0 (Fin 0) (Some ''IPs'') [Item cJSON_String (Some ''8.8.8.8'') 0 (Fin 0) None []]]"

theorem print_correct_witness:
  "print (Some demo_item) False demo_hooks =
     Some (Some (''{\"PID\":7,\"IPs\":[\"8.8.8.8\"]}'' @ [NUL]))"
proof -
  have "number_text (Fin 7) 7 = ''7''"
    using number_text_int [of 7] by (simp add: show_int_def show_nat.simps digit_chars)
  then have t: "json_text False 0 demo_item = Some ''{\"PID\":7,\"IPs\":[\"8.8.8.8\"]}''"
    by (simp add: demo_item_def cJSON_types quoted_def escape_text_def escape_char_def)
  show ?thesis
    by (rule print_correct [OF _ _ t])
      (simp_all add: demo_item_def demo_hooks_def IMAX_def)
qed

text \<open>
  C14: Printing is safe whatever the allocator does: no access outside the buffer, no missing NUL;
  the result is NULL or the complete text of the item.
\<close>

theorem print_safe:
  assumes "item_ok it"
  shows "\<exists>r. print (Some it) f hooks = Some r \<and>
    (case r of None \<Rightarrow> True | Some x \<Rightarrow> \<exists>t. json_text f 0 it = Some t \<and> x = t @ [NUL])"
proof (cases "can_alloc hooks (Buffer_Of 256)")
  case False
  then show ?thesis by (simp add: print_def)
next
  case True
  obtain ok where "\<not> ok \<longrightarrow> print (Some it) f hooks = Some None"
    "ok \<longrightarrow> (\<exists>t. json_text f 0 it = Some t \<and> print (Some it) f hooks =
       (if can_alloc hooks (Result_Of (length t + 1)) then Some (Some (t @ [NUL])) else Some None))"
    using print_outcome [OF assms True] by blast
  then show ?thesis by (cases ok) (auto split: if_splits)
qed

theorem print_safe_witness:
  "\<exists>r. print (Some demo_item) True (demo_hooks\<lparr>can_alloc := (\<lambda>q. q = Buffer_Of 256), has_realloc := False\<rparr>) = Some r \<and>
    (case r of None \<Rightarrow> True | Some x \<Rightarrow> \<exists>t. json_text True 0 demo_item = Some t \<and> x = t @ [NUL])"
  by (rule print_safe) (simp add: demo_item_def)

text \<open>
  C36: \<open>cJSON_PrintPreallocated\<close> never writes outside the caller's buffer; it succeeds as soon as the
  buffer has two bytes more than the terminated text needs (the header asks for five more), and
  after success the buffer starts with that text and its NUL.
\<close>

theorem cJSON_PrintPreallocated_bounds:
  assumes "item_ok it" "length b \<le> IMAX"
  shows "\<exists>ok r. cJSON_PrintPreallocated (Some it) (Some b) (int (length b)) f hooks = Some (ok, r) \<and>
    (ok \<longrightarrow> (\<exists>t z. json_text f 0 it = Some t \<and> r = Some (t @ NUL # z) \<and> length (t @ NUL # z) = length b)) \<and>
    ((\<exists>t. json_text f 0 it = Some t \<and> length t + 3 \<le> length b) \<longrightarrow> ok)"
proof -
  let ?p = "\<lparr>pbuf = Some b, plen = length b, poff = 0, pdepth = 0, noalloc = True, pformat = f, phooks = hooks\<rparr>"
  have h: "holds ?p []" by (simp add: holds_def buf_ok_def)
  obtain ok q where v: "print_value it ?p = Some (ok, q)"
    "ok \<Longrightarrow> \<exists>t. json_text f 0 it = Some t \<and> written q [] t \<and> frame ?p q"
    "\<exists>t. json_text f 0 it = Some t \<and> room ?p (length t + 3) \<Longrightarrow> ok"
    using print_value_ok [OF h assms(1)] unfolding prints_def by auto
  have "\<exists>t. json_text f 0 it = Some t \<and> room ?p (length t + 3)"
    if "\<exists>t. json_text f 0 it = Some t \<and> length t + 3 \<le> length b"
    using that assms(2) by (auto simp: room_def)
  then show ?thesis
    using v by (auto simp: cJSON_PrintPreallocated_def print_top_def written_def buf_ok_def frame_def)
qed

theorem cJSON_PrintPreallocated_bounds_witness:
  "\<exists>ok r. cJSON_PrintPreallocated (Some demo_item) (Some (replicate 26 CHR ''x'')) 26 False demo_hooks = Some (ok, r) \<and>
    (ok \<longrightarrow> (\<exists>t z. json_text False 0 demo_item = Some t \<and> r = Some (t @ NUL # z) \<and> length (t @ NUL # z) = 26)) \<and>
    ((\<exists>t. json_text False 0 demo_item = Some t \<and> length t + 3 \<le> 26) \<longrightarrow> ok)"
proof -
  have "length (replicate 26 CHR ''x'') \<le> IMAX" "item_ok demo_item" by (simp_all add: IMAX_def demo_item_def)
  from cJSON_PrintPreallocated_bounds [OF this(2,1), of False demo_hooks] show ?thesis by simp
qed

text \<open>
  With custom allocation hooks (no \<open>realloc\<close>) and a prebuffer of size 0, \<open>cJSON_PrintBuffered\<close>
  reads one byte behind an empty block when \<open>ensure\<close> grows it: it copies \<open>offset + 1\<close> bytes.
\<close>

theorem cJSON_PrintBuffered_zero_overread:
  assumes "\<forall>n. can_alloc hooks n" "\<not> has_realloc hooks" "ctype it AND 0xFF = cJSON_NULL"
  shows "cJSON_PrintBuffered (Some it) 0 f hooks = None"
  using assms
  by (cases it) (simp add: cJSON_PrintBuffered_def print_top_def print_literal_def ensure_def fresh_buffer_def
      pthen_def IMAX_def cJSON_types)

theorem cJSON_PrintBuffered_zero_overread_witness:
  "cJSON_PrintBuffered (Some (Item cJSON_NULL None 0 (Fin 0) None [])) 0 False (demo_hooks\<lparr>has_realloc := False\<rparr>) = None"
  by (rule cJSON_PrintBuffered_zero_overread) (simp_all add: demo_hooks_def cJSON_types)

end
