(* ===== verification/Cjson_Parse.thy ===== *)
theory Cjson_Parse
  imports Cjson_Print
begin

text \<open>
  The parser of \<open>cJSON.c\<close>: white space and byte order mark, numbers, strings with their escapes and
  UTF-16 literals, arrays, objects, and the entry points. The buffer is its \<open>length\<close> bytes; a read
  or a write outside it, or outside the block allocated for a string, is \<open>None\<close>, a failed parse is
  a value. The fuel of \<open>parse_value\<close> counts nested calls, which the nesting limit bounds; \<open>None\<close> is also what
  it gives when the fuel runs out, and \<open>parse_returns\<close> shows that the fuel of the entry points is enough.
\<close>

section \<open>The parse buffer\<close>

definition CJSON_NESTING_LIMIT :: nat where
  "CJSON_NESTING_LIMIT = 1000"

record parse_buffer =
  content :: string
  offset :: nat
  depth :: nat
  hooks :: internal_hooks

definition can_read :: "parse_buffer \<Rightarrow> nat \<Rightarrow> bool" where
  "can_read b n \<longleftrightarrow> offset b + n \<le> length (content b)"

definition can_access_at_index :: "parse_buffer \<Rightarrow> nat \<Rightarrow> bool" where
  "can_access_at_index b i \<longleftrightarrow> offset b + i < length (content b)"

text \<open>The text at the offset, and one byte of it.\<close>

definition buffer_at_offset :: "parse_buffer \<Rightarrow> string" where
  "buffer_at_offset b = drop (offset b) (content b)"

definition byte_at :: "parse_buffer \<Rightarrow> nat \<Rightarrow> char option" where
  "byte_at b i = (if offset b + i < length (content b) then Some (content b ! (offset b + i)) else None)"

definition buffer_skip_whitespace :: "parse_buffer \<Rightarrow> parse_buffer" where
  "buffer_skip_whitespace b =
     (if \<not> can_access_at_index b 0 then b
      else let b = b\<lparr>offset := offset b + length (takeWhile (\<lambda>c. ord_c c \<le> 32) (buffer_at_offset b))\<rparr> in
        if offset b = length (content b) then b\<lparr>offset := offset b - 1\<rparr> else b)"

text \<open>NULL when the offset is not 0.\<close>

definition skip_utf8_bom :: "parse_buffer \<Rightarrow> parse_buffer option" where
  "skip_utf8_bom b =
     (if offset b \<noteq> 0 then None
      else if can_access_at_index b 4 \<and> take 3 (buffer_at_offset b) = [CHR 0xEF, CHR 0xBB, CHR 0xBF]
      then Some (b\<lparr>offset := offset b + 3\<rparr>) else Some b)"

section \<open>Strings\<close>

definition hex_val :: "char \<Rightarrow> nat option" where
  "hex_val c =
     (if 48 \<le> ord_c c \<and> ord_c c \<le> 57 then Some (ord_c c - 48)
      else if 65 \<le> ord_c c \<and> ord_c c \<le> 70 then Some (10 + ord_c c - 65)
      else if 97 \<le> ord_c c \<and> ord_c c \<le> 102 then Some (10 + ord_c c - 97)
      else None)"

text \<open>Four digits into an \<open>unsigned int\<close>; 0 for a digit that is none.\<close>

fun hex_loop :: "nat \<Rightarrow> u32 \<Rightarrow> string \<Rightarrow> u32" where
  "hex_loop i h [] = h"
| "hex_loop i h (c # cs) =
     (case hex_val c of
        None \<Rightarrow> 0
      | Some d \<Rightarrow> (let h = h + of_nat d in hex_loop (i + 1) (if i < 3 then push_bit 4 h else h) cs))"

definition parse_hex4 :: "string \<Rightarrow> u32" where
  "parse_hex4 input = hex_loop 0 0 (take 4 input)"

text \<open>The continuation bytes, last one first in time, and what is left of the code point.\<close>

fun utf8_tail :: "nat \<Rightarrow> nat \<Rightarrow> string \<times> nat" where
  "utf8_tail 0 cp = ([], cp)"
| "utf8_tail (Suc k) cp =
     (let (bs, cp') = utf8_tail k (drop_bit 6 cp) in (bs @ [char_of ((cp OR 0x80) AND 0xBF)], cp'))"

definition utf8_encode :: "nat \<Rightarrow> string" where
  "utf8_encode cp =
     (let (len, first_byte_mark) =
            (if cp < 0x80 then (1, 0) else if cp < 0x800 then (2, 0xC0)
             else if cp < 0x10000 then (3, 0xE0) else (4, 0xF0));
          (bs, cp) = utf8_tail (len - 1) cp in
      (if len > 1 then char_of ((cp OR first_byte_mark) AND 0xFF) else char_of (cp AND 0x7F)) # bs)"

text \<open>
  The literal at the start of \<open>inp\<close>, which ends where the string ends: how much of it is used (0 for
  a failure) and the bytes written.
\<close>

definition utf16_literal_to_utf8 :: "string \<Rightarrow> nat \<times> string" where
  "utf16_literal_to_utf8 inp =
     (if length inp < 6 then (0, [])
      else let first_code = unat (parse_hex4 (drop 2 inp)) in
        if 0xDC00 \<le> first_code \<and> first_code \<le> 0xDFFF then (0, [])
        else if 0xD800 \<le> first_code \<and> first_code \<le> 0xDBFF then
          (let second_sequence = drop 6 inp in
           if length second_sequence < 6 then (0, [])
           else if second_sequence ! 0 \<noteq> CHR 0x5C \<or> second_sequence ! 1 \<noteq> CHR ''u'' then (0, [])
           else let second_code = unat (parse_hex4 (drop 2 second_sequence)) in
             if second_code < 0xDC00 \<or> 0xDFFF < second_code then (0, [])
             else let codepoint = 0x10000 + (push_bit 10 (first_code AND 0x3FF) OR (second_code AND 0x3FF)) in
               if codepoint \<le> 0x10FFFF then (12, utf8_encode codepoint) else (0, []))
        else (6, utf8_encode first_code))"

text \<open>The scan for the closing quote: the length of the text before it and the escapes in it.\<close>

fun string_end :: "string \<Rightarrow> (nat \<times> nat) option" where
  "string_end [] = None"
| "string_end (c # r) =
     (if c = CHR 0x22 then Some (0, 0)
      else if c = CHR 0x5C then
        (case r of [] \<Rightarrow> None | x # r' \<Rightarrow> map_option (\<lambda>(n, k). (n + 2, k + 1)) (string_end r'))
      else map_option (\<lambda>(n, k). (n + 1, k)) (string_end r))"

text \<open>
  The copying loop over the text \<open>w\<close> before the closing quote, into a block of \<open>cap\<close> bytes of which
  \<open>out\<close> are written. The byte behind the last one of \<open>w\<close> is the quote. \<open>Inl\<close> is a failure, with the
  length of what is left of \<open>w\<close> there.
\<close>

definition put :: "nat \<Rightarrow> string \<Rightarrow> string \<Rightarrow> string option" where
  "put cap out bs = (if length out + length bs \<le> cap then Some (out @ bs) else None)"

definition simple_escape :: "char \<Rightarrow> char option" where
  "simple_escape e =
     (if e = CHR ''b'' then Some (CHR 0x08)
      else if e = CHR ''f'' then Some (CHR 0x0C)
      else if e = CHR ''n'' then Some (CHR 0x0A)
      else if e = CHR ''r'' then Some (CHR 0x0D)
      else if e = CHR ''t'' then Some (CHR 0x09)
      else if e = CHR 0x22 \<or> e = CHR 0x5C \<or> e = CHR ''/'' then Some e
      else None)"

function unescape :: "nat \<Rightarrow> string \<Rightarrow> string \<Rightarrow> (nat + string) option" where
  "unescape cap out w =
     (case w of
        [] \<Rightarrow> do { out \<leftarrow> put cap out [NUL]; Some (Inr (butlast out)) }
      | c # r \<Rightarrow>
          if c \<noteq> CHR 0x5C then do { out \<leftarrow> put cap out [c]; unescape cap out r }
          else let e = (case r of [] \<Rightarrow> CHR 0x22 | x # _ \<Rightarrow> x) in
            (case simple_escape e of
               Some x \<Rightarrow> do { out \<leftarrow> put cap out [x]; unescape cap out (drop 1 r) }
             | None \<Rightarrow>
                 if e = CHR ''u'' then
                   (let (n, bs) = utf16_literal_to_utf8 w in
                    if n = 0 then Some (Inl (length w))
                    else do { out \<leftarrow> put cap out bs; unescape cap out (drop (n - 1) r) })
                 else Some (Inl (length w))))"
  by pat_completeness auto
termination
  by (relation "measure (\<lambda>(cap, out, w). length w)") auto

declare unescape.simps [simp del]

text \<open>
  \<open>parse_string\<close>: the string, and the buffer with the offset behind the closing quote, or where
  parsing stopped. A string with a NUL in it reads, as a C string, up to there.
\<close>

definition parse_string :: "parse_buffer \<Rightarrow> (string option \<times> parse_buffer) option" where
  "parse_string b = do {
     c \<leftarrow> byte_at b 0;
     let start = offset b + 1;
     if c \<noteq> CHR 0x22 then Some (None, b\<lparr>offset := start\<rparr>)
     else case string_end (drop start (content b)) of
       None \<Rightarrow> Some (None, b\<lparr>offset := start\<rparr>)
     | Some (n, skipped_bytes) \<Rightarrow>
         (let cap = (n + 1 - skipped_bytes) + 1 in
          if \<not> can_alloc (hooks b) (Text_At (depth b) (offset b) cap) then Some (None, b\<lparr>offset := start\<rparr>)
          else do {
            r \<leftarrow> unescape cap [] (take n (drop start (content b)));
            case r of
              Inl left \<Rightarrow> Some (None, b\<lparr>offset := start + n - left\<rparr>)
            | Inr out \<Rightarrow> Some (Some (takeWhile (\<lambda>c. c \<noteq> NUL) out), b\<lparr>offset := start + n + 1\<rparr>) }) }"

section \<open>Numbers\<close>

definition parse_number :: "cJSON \<Rightarrow> parse_buffer \<Rightarrow> (cJSON option \<times> parse_buffer) option" where
  "parse_number it b =
     (let (number, used) = strtod (number_c_string (buffer_at_offset b)) in
      if used = 0 then Some (None, b)
      else do {
        vi \<leftarrow> int_of_dbl number;
        case it of Item ty vs _ _ nm cs \<Rightarrow>
          Some (Some (Item cJSON_Number vs vi number nm cs), b\<lparr>offset := offset b + used\<rparr>) })"

section \<open>Values\<close>

text \<open>
  A new item is a block of \<open>sizeof(cJSON)\<close> bytes, 64 on a 64-bit machine. The level and the position at which the
  parser asks for it tell its requests apart: any one of them can be the one that fails.
\<close>

definition sizeof_cJSON :: nat where
  "sizeof_cJSON = 64"

definition cJSON_New_Item :: "internal_hooks \<Rightarrow> nat \<Rightarrow> nat \<Rightarrow> cJSON option" where
  "cJSON_New_Item h level position = (if can_alloc h (Item_At level position sizeof_cJSON) then Some new_item else None)"

definition starts :: "parse_buffer \<Rightarrow> string \<Rightarrow> bool" where
  "starts b lit \<longleftrightarrow> can_read b (length lit) \<and> take (length lit) (buffer_at_offset b) = lit"

definition next_is :: "parse_buffer \<Rightarrow> char \<Rightarrow> bool" where
  "next_is b c \<longleftrightarrow> can_access_at_index b 0 \<and> content b ! offset b = c"

text \<open>
  \<open>parse_value\<close>, \<open>parse_array\<close> and \<open>parse_object\<close> call each other. \<open>parse_array\<close> and
  \<open>parse_object\<close> take the function \<open>pv\<close> that parses the values inside, and \<open>parse_value\<close> passes itself
  with one unit of fuel less: its fuel counts nested calls, and the nesting limit bounds them.
  \<open>parse_elems\<close> and \<open>parse_members\<close> are the \<open>do .. while\<close> loops with their own fuel; they take the
  children parsed so far (the list from \<open>head\<close> to \<open>current_item\<close>). A failed parse drops the children
  (\<open>cJSON_Delete(head)\<close>); the caller drops the item.
\<close>

type_synonym value_parser = "cJSON \<Rightarrow> parse_buffer \<Rightarrow> (cJSON option \<times> parse_buffer) option"

primrec parse_elems ::
  "value_parser \<Rightarrow> nat \<Rightarrow> cJSON list \<Rightarrow> parse_buffer \<Rightarrow> (cJSON list option \<times> parse_buffer) option" where
  "parse_elems pv 0 acc b = None"
| "parse_elems pv (Suc n) acc b =
     (case cJSON_New_Item (hooks b) (depth b) (offset b) of
        None \<Rightarrow> Some (None, b)
      | Some it \<Rightarrow> do {
          (v, b) \<leftarrow> pv it (buffer_skip_whitespace (b\<lparr>offset := offset b + 1\<rparr>));
          case v of
            None \<Rightarrow> Some (None, b)
          | Some v \<Rightarrow>
              (let b = buffer_skip_whitespace b in
               if next_is b (CHR '','') then parse_elems pv n (acc @ [v]) b
               else Some (Some (acc @ [v]), b)) })"

definition parse_array :: "value_parser \<Rightarrow> value_parser" where
  "parse_array pv it b =
     (if CJSON_NESTING_LIMIT \<le> depth b then Some (None, b)
      else let b = b\<lparr>depth := depth b + 1\<rparr> in do {
        c \<leftarrow> byte_at b 0;
        if c \<noteq> CHR ''['' then Some (None, b)
        else let b = buffer_skip_whitespace (b\<lparr>offset := offset b + 1\<rparr>) in
          if next_is b (CHR '']'') then
            Some (Some (Item cJSON_Array (valuestring it) (valueint it) (valuedouble it) (cname it) []),
              b\<lparr>depth := depth b - 1, offset := offset b + 1\<rparr>)
          else if \<not> can_access_at_index b 0 then Some (None, b\<lparr>offset := offset b - 1\<rparr>)
          else do {
            (es, b) \<leftarrow> parse_elems pv (length (content b)) [] (b\<lparr>offset := offset b - 1\<rparr>);
            case es of
              None \<Rightarrow> Some (None, b)
            | Some es \<Rightarrow>
                if \<not> next_is b (CHR '']'') then Some (None, b)
                else Some (Some (Item cJSON_Array (valuestring it) (valueint it) (valuedouble it) (cname it) es),
                  b\<lparr>depth := depth b - 1, offset := offset b + 1\<rparr>) } })"

primrec parse_members ::
  "value_parser \<Rightarrow> nat \<Rightarrow> cJSON list \<Rightarrow> parse_buffer \<Rightarrow> (cJSON list option \<times> parse_buffer) option" where
  "parse_members pv 0 acc b = None"
| "parse_members pv (Suc n) acc b =
     (case cJSON_New_Item (hooks b) (depth b) (offset b) of
        None \<Rightarrow> Some (None, b)
      | Some it \<Rightarrow>
          if \<not> can_access_at_index b 1 then Some (None, b)
          else do {
            (name, b) \<leftarrow> parse_string (buffer_skip_whitespace (b\<lparr>offset := offset b + 1\<rparr>));
            case name of
              None \<Rightarrow> Some (None, b)
            | Some name \<Rightarrow>
                (let b = buffer_skip_whitespace b;
                     it = Item cJSON_String None (valueint it) (valuedouble it) (Some name) (child it) in
                 if \<not> next_is b (CHR '':'') then Some (None, b)
                 else do {
                   (v, b) \<leftarrow> pv it (buffer_skip_whitespace (b\<lparr>offset := offset b + 1\<rparr>));
                   case v of
                     None \<Rightarrow> Some (None, b)
                   | Some v \<Rightarrow>
                       (let b = buffer_skip_whitespace b in
                        if next_is b (CHR '','') then parse_members pv n (acc @ [v]) b
                        else Some (Some (acc @ [v]), b)) }) })"

definition parse_object :: "value_parser \<Rightarrow> value_parser" where
  "parse_object pv it b =
     (if CJSON_NESTING_LIMIT \<le> depth b then Some (None, b)
      else let b = b\<lparr>depth := depth b + 1\<rparr> in
        if \<not> next_is b (CHR ''{'') then Some (None, b)
        else let b = buffer_skip_whitespace (b\<lparr>offset := offset b + 1\<rparr>) in
          if next_is b (CHR ''}'') then
            Some (Some (Item cJSON_Object (valuestring it) (valueint it) (valuedouble it) (cname it) []),
              b\<lparr>depth := depth b - 1, offset := offset b + 1\<rparr>)
          else if \<not> can_access_at_index b 0 then Some (None, b\<lparr>offset := offset b - 1\<rparr>)
          else do {
            (es, b) \<leftarrow> parse_members pv (length (content b)) [] (b\<lparr>offset := offset b - 1\<rparr>);
            case es of
              None \<Rightarrow> Some (None, b)
            | Some es \<Rightarrow>
                if \<not> next_is b (CHR ''}'') then Some (None, b)
                else Some (Some (Item cJSON_Object (valuestring it) (valueint it) (valuedouble it) (cname it) es),
                  b\<lparr>depth := depth b - 1, offset := offset b + 1\<rparr>) })"

primrec parse_value :: "nat \<Rightarrow> value_parser" where
  "parse_value 0 it b = None"
| "parse_value (Suc n) it b =
     (if starts b ''null''
      then Some (Some (Item cJSON_NULL (valuestring it) (valueint it) (valuedouble it) (cname it) (child it)),
        b\<lparr>offset := offset b + 4\<rparr>)
      else if starts b ''false''
      then Some (Some (Item cJSON_False (valuestring it) (valueint it) (valuedouble it) (cname it) (child it)),
        b\<lparr>offset := offset b + 5\<rparr>)
      else if starts b ''true''
      then Some (Some (Item cJSON_True (valuestring it) 1 (valuedouble it) (cname it) (child it)),
        b\<lparr>offset := offset b + 4\<rparr>)
      else if next_is b (CHR 0x22) then do {
        (s, b) \<leftarrow> parse_string b;
        Some (map_option (\<lambda>x. Item cJSON_String (Some x) (valueint it) (valuedouble it) (cname it) (child it)) s, b) }
      else if can_access_at_index b 0 \<and> (content b ! offset b = CHR ''-'' \<or> is_digit (content b ! offset b))
        then parse_number it b
      else if next_is b (CHR ''['') then parse_array (parse_value n) it b
      else if next_is b (CHR ''{'') then parse_object (parse_value n) it b
      else Some (None, b))"

section \<open>Entry points\<close>

text \<open>
  The result is the item or NULL, and a position: where parsing ended, or the error position that
  \<open>global_error\<close> and \<open>return_parse_end\<close> get.
\<close>

definition parse_fuel :: nat where
  "parse_fuel = CJSON_NESTING_LIMIT + 1"

definition cJSON_ParseWithLengthOpts ::
  "internal_hooks \<Rightarrow> string option \<Rightarrow> bool \<Rightarrow> (cJSON option \<times> nat) option" where
  "cJSON_ParseWithLengthOpts h value require_null_terminated =
     (case value of
        None \<Rightarrow> Some (None, 0)
      | Some text \<Rightarrow>
          if text = [] then Some (None, 0)
          else let b = \<lparr>content = text, offset = 0, depth = 0, hooks = h\<rparr>;
                   err = (\<lambda>b. Some (None, if offset b < length text then offset b else length text - 1)) in
            case cJSON_New_Item h 0 0 of
              None \<Rightarrow> err b
            | Some it \<Rightarrow>
                (case skip_utf8_bom b of
                   None \<Rightarrow> err b
                 | Some b \<Rightarrow> do {
                     (v, b) \<leftarrow> parse_value parse_fuel it (buffer_skip_whitespace b);
                     case v of
                       None \<Rightarrow> err b
                     | Some v \<Rightarrow>
                         if require_null_terminated then
                           (let b = buffer_skip_whitespace b in
                            if length text \<le> offset b \<or> content b ! offset b \<noteq> NUL then err b
                            else Some (Some v, offset b))
                         else Some (Some v, offset b) }))"

text \<open>\<open>cJSON_ParseWithOpts\<close> and \<open>cJSON_Parse\<close> take a C string and count its terminator in.\<close>

definition cJSON_ParseWithOpts ::
  "internal_hooks \<Rightarrow> string option \<Rightarrow> bool \<Rightarrow> (cJSON option \<times> nat) option" where
  "cJSON_ParseWithOpts h value require_null_terminated =
     (case value of
        None \<Rightarrow> Some (None, 0)
      | Some s \<Rightarrow> cJSON_ParseWithLengthOpts h (Some (s @ [NUL])) require_null_terminated)"

definition cJSON_Parse :: "internal_hooks \<Rightarrow> string option \<Rightarrow> (cJSON option \<times> nat) option" where
  "cJSON_Parse h value = cJSON_ParseWithOpts h value False"

definition cJSON_ParseWithLength :: "internal_hooks \<Rightarrow> string option \<Rightarrow> (cJSON option \<times> nat) option" where
  "cJSON_ParseWithLength h value = cJSON_ParseWithLengthOpts h value False"


section \<open>Bounds of the buffer\<close>

text \<open>
  \<open>parsed P b r\<close>: the call returned, it kept the text, and left the offset inside it; when it
  succeeded, the offset is further than before, the depth is back and the result satisfies \<open>P\<close>.
\<close>

definition in_bounds :: "parse_buffer \<Rightarrow> bool" where
  "in_bounds b \<longleftrightarrow> offset b \<le> length (content b)"

definition same_text :: "parse_buffer \<Rightarrow> parse_buffer \<Rightarrow> bool" where
  "same_text b b' \<longleftrightarrow> content b' = content b \<and> hooks b' = hooks b"

definition parsed :: "('a \<Rightarrow> bool) \<Rightarrow> parse_buffer \<Rightarrow> ('a option \<times> parse_buffer) option \<Rightarrow> bool" where
  "parsed P b r \<longleftrightarrow> (\<exists>v b'. r = Some (v, b') \<and> same_text b b' \<and> in_bounds b' \<and>
     (\<forall>x. v = Some x \<longrightarrow> P x \<and> depth b' = depth b \<and> offset b < offset b'))"

text \<open>
  What the parser builds: a plain type without flags, a string exactly where there is one, names in
  objects only, \<open>valueint\<close> the saturated \<open>valuedouble\<close>, at most \<open>k\<close> levels of nesting. \<open>blank_item\<close>: an item
  as \<open>parse_value\<close> gets it.
\<close>

definition text_ok :: "string option \<Rightarrow> bool" where
  "text_ok s \<longleftrightarrow> (case s of None \<Rightarrow> True | Some s \<Rightarrow> no_nul s)"

fun item_wf :: "nat \<Rightarrow> cJSON \<Rightarrow> bool" where
  "item_wf k (Item ty vs vi vd nm cs) \<longleftrightarrow>
     text_ok vs \<and> text_ok nm \<and> (vs \<noteq> None \<longleftrightarrow> ty = cJSON_String) \<and>
     (ty \<in> {cJSON_False, cJSON_True, cJSON_NULL, cJSON_Number, cJSON_String} \<and> cs = [] \<or>
      0 < k \<and> ty = cJSON_Array \<and> list_all (\<lambda>c. item_wf (k - 1) c \<and> cname c = None) cs \<or>
      0 < k \<and> ty = cJSON_Object \<and> list_all (\<lambda>c. item_wf (k - 1) c \<and> cname c \<noteq> None) cs) \<and>
     (ty = cJSON_Number \<longrightarrow> int_of_dbl vd = Some vi)"

declare item_wf.simps [simp del]

definition blank_item :: "cJSON \<Rightarrow> bool" where
  "blank_item it \<longleftrightarrow> valuestring it = None \<and> child it = [] \<and> text_ok (cname it)"

lemma skip_whitespace_cases:
  assumes "in_bounds b"
  shows "content (buffer_skip_whitespace b) = content b \<and> hooks (buffer_skip_whitespace b) = hooks b \<and>
    depth (buffer_skip_whitespace b) = depth b \<and> offset b \<le> offset (buffer_skip_whitespace b) \<and>
    in_bounds (buffer_skip_whitespace b) \<and>
    (offset b < length (content b) \<longrightarrow> offset (buffer_skip_whitespace b) < length (content b))"
proof (cases "offset b < length (content b)")
  case False
  then show ?thesis using assms by (simp add: buffer_skip_whitespace_def can_access_at_index_def in_bounds_def)
next
  case True
  define n where "n = length (takeWhile (\<lambda>c. ord_c c \<le> 32) (buffer_at_offset b))"
  have "n \<le> length (content b) - offset b"
    using length_takeWhile_le [of "\<lambda>c. ord_c c \<le> 32" "buffer_at_offset b"] by (simp add: n_def buffer_at_offset_def)
  then show ?thesis using True
    by (auto simp: buffer_skip_whitespace_def can_access_at_index_def in_bounds_def Let_def n_def [symmetric])
qed

lemma skip_whitespace_simps [simp]:
  assumes "in_bounds b"
  shows "content (buffer_skip_whitespace b) = content b" "hooks (buffer_skip_whitespace b) = hooks b"
    "depth (buffer_skip_whitespace b) = depth b"
    "in_bounds (buffer_skip_whitespace b)"
    "offset b < length (content b) \<Longrightarrow> offset (buffer_skip_whitespace b) < length (content b)"
  using skip_whitespace_cases [OF assms] by simp_all

lemma next_is_bound: "next_is b c \<Longrightarrow> offset b < length (content b)"
  by (simp add: next_is_def can_access_at_index_def)

section \<open>The copied string fits its block\<close>

text \<open>
  The escapes that the scan counts; \<open>sk\<close> when the next character belongs to the escape before it.
  The copying loop may fall out of step with the scan, on an escape \<open>\u\<close> whose digits are none.
\<close>

fun escapes :: "bool \<Rightarrow> string \<Rightarrow> nat" where
  "escapes sk [] = 0"
| "escapes sk (c # r) = (if \<not> sk \<and> c = CHR 0x5C then 1 + escapes True r else escapes False r)"

lemma string_end_Some:
  "string_end s = Some (n, k) \<Longrightarrow> n < length s \<and> s ! n = CHR 0x22 \<and> k = escapes False (take n s)"
proof (induction s arbitrary: n k rule: string_end.induct)
  case (2 c r)
  show ?case
  proof (cases "c = CHR 0x5C")
    case True
    then obtain x r' n' k' where r: "r = x # r'" "string_end r' = Some (n', k')" "n = n' + 2" "k = k' + 1"
      using "2.prems" by (auto split: list.splits)
    then show ?thesis using "2.IH" (1) [of x r' n' k'] True by simp
  next
    case False
    then show ?thesis using "2.prems" "2.IH" (2) by (auto split: if_splits)
  qed
qed simp

lemma escapes_le_length: "escapes sk w \<le> length w"
  by (induction w arbitrary: sk) (auto intro: le_SucI)

lemma escapes_drop2: "\<exists>sk'. escapes sk w \<le> escapes sk' (drop 2 w) + 1"
proof (cases w)
  case (Cons a r)
  then show ?thesis
    by (cases r; cases sk) (auto simp: numeral_2_eq_2 intro: exI [of _ True] exI [of _ False])
qed simp

lemma escapes_drop: "\<exists>sk'. escapes sk w \<le> escapes sk' (drop (2 * m) w) + m"
proof (induction m)
  case 0
  show ?case by (auto intro: exI [of _ sk])
next
  case (Suc m)
  then obtain sk1 where 1: "escapes sk w \<le> escapes sk1 (drop (2 * m) w) + m" by auto
  obtain sk2 where 2: "escapes sk1 (drop (2 * m) w) \<le> escapes sk2 (drop 2 (drop (2 * m) w)) + 1"
    using escapes_drop2 by blast
  show ?case using 1 2 by (intro exI [of _ sk2]) (simp add: add.commute)
qed

lemma utf8_tail_length: "length (fst (utf8_tail k cp)) = k"
  by (induction k arbitrary: cp) (auto simp: case_prod_beta)

lemma utf8_encode_length:
  "length (utf8_encode cp) = (if cp < 0x80 then 1 else if cp < 0x800 then 2 else if cp < 0x10000 then 3 else 4)"
  by (simp add: utf8_encode_def Let_def case_prod_beta utf8_tail_length)

lemma hex_val_less: "hex_val c = Some d \<Longrightarrow> d < 16"
  by (auto simp: hex_val_def split: if_splits)

lemma unat_shift4: "unat (x :: u32) < 2 ^ 28 \<Longrightarrow> unat (push_bit 4 x) = 16 * unat x"
  by (simp add: push_bit_eq_mult unat_word_ariths)

lemma hex_loop_bound:
  "i \<le> 3 \<Longrightarrow> i + length cs \<le> 4 \<Longrightarrow> unat h = 16 * v \<Longrightarrow> 16 * v < 16 ^ (i + 1) \<Longrightarrow>
    unat (hex_loop i h cs) < 65536"
proof (induction cs arbitrary: i h v)
  case Nil
  then have "(16 :: nat) ^ (i + 1) \<le> 16 ^ 4" by (intro power_increasing) auto
  then show ?case using Nil by simp
next
  case (Cons c cs)
  show ?case
  proof (cases "hex_val c")
    case (Some d)
    have le: "(16 :: nat) ^ (i + 1) \<le> 16 ^ 4" using Cons.prems by (intro power_increasing) auto
    have v: "v < 16 ^ i" using Cons.prems(4) by simp
    have d: "d < 16" by (rule hex_val_less [OF Some])
    have small: "16 * v + d < 16 ^ (i + 1)" using v d by simp
    have h: "unat (h + of_nat d) = 16 * v + d"
      using small le d Cons.prems(3) by (simp add: unat_word_ariths)
    show ?thesis
    proof (cases "i < 3")
      case True
      have le': "(16 :: nat) ^ (i + 1) \<le> 16 ^ 3" using True by (intro power_increasing) auto
      have "unat (push_bit 4 (h + of_nat d)) = 16 * (16 * v + d)"
        using small le' h unat_shift4 [of "h + of_nat d"] by simp
      then show ?thesis
        using Cons.IH [of "i + 1" "push_bit 4 (h + of_nat d)" "16 * v + d"] Cons.prems True small Some
        by (simp add: Let_def)
    next
      case False
      then have "i = 3" "cs = []" using Cons.prems by auto
      then show ?thesis using Some h small by (simp add: Let_def)
    qed
  qed simp
qed

lemma parse_hex4_bound: "unat (parse_hex4 s) < 65536"
  unfolding parse_hex4_def by (rule hex_loop_bound [where v = 0]) auto

lemma utf16_literal_cases:
  assumes "utf16_literal_to_utf8 w = (n, bs)"
  shows "n = 0 \<or> n = 6 \<and> 6 \<le> length w \<and> length bs \<le> 3 \<or> n = 12 \<and> 12 \<le> length w \<and> length bs = 4"
  using assms parse_hex4_bound [of "drop 2 w"]
  by (auto simp: utf16_literal_to_utf8_def Let_def utf8_encode_length split: if_splits)

lemma unescape_fits:
  "length out + length w + (if w = [] then 1 else 2) \<le> cap + escapes sk w \<Longrightarrow>
    \<exists>r. unescape cap out w = Some r \<and> (\<forall>k. r = Inl k \<longrightarrow> k \<le> length w)"
proof (induction w arbitrary: out sk rule: length_induct)
  case (1 w)
  show ?case
  proof (cases w)
    case Nil
    then show ?thesis using "1.prems" by (subst unescape.simps) (simp add: put_def)
  next
    case (Cons c r)
    show ?thesis
    proof (cases "c = CHR 0x5C")
      case False
      have "escapes sk w = escapes False r" using Cons False by simp
      then have b: "length out + 1 + length r + (if r = [] then 1 else 2) \<le> cap + escapes False r"
        using "1.prems" Cons by auto
      have p: "put cap out [c] = Some (out @ [c])" 
        using b escapes_le_length [of False r] by (simp add: put_def split: if_splits)
      obtain q where "unescape cap (out @ [c]) r = Some q" "\<forall>k. q = Inl k \<longrightarrow> k \<le> length r"
        using "1.IH" [rule_format, of r "out @ [c]" False] b Cons by auto
      then show ?thesis using Cons False p by (subst unescape.simps) auto
    next
      case True
      define e where "e = (case r of [] \<Rightarrow> CHR 0x22 | x # _ \<Rightarrow> x)"
      show ?thesis
      proof (cases "simple_escape e")
        case (Some x)
        obtain sk' where "escapes sk w \<le> escapes sk' (drop 2 w) + 1" using escapes_drop2 by blast
        then have b: "length out + 1 + length (drop 1 r) + (if drop 1 r = [] then 1 else 2) \<le> cap + escapes sk' (drop 1 r)"
          using "1.prems" Cons by (cases r) (auto simp: numeral_2_eq_2 split: if_splits)
        have p: "put cap out [x] = Some (out @ [x])"
          using b escapes_le_length [of sk' "drop 1 r"] by (simp add: put_def split: if_splits)
        have l: "length (drop 1 r) < length w" using Cons by simp
        obtain q where "unescape cap (out @ [x]) (drop 1 r) = Some q" "\<forall>k. q = Inl k \<longrightarrow> k \<le> length (drop 1 r)"
          using "1.IH" [rule_format, OF l, of "out @ [x]" sk'] b by auto
        then show ?thesis using Cons True Some p by (subst unescape.simps) (auto simp: e_def)
      next
        case None
        obtain n bs where u: "utf16_literal_to_utf8 w = (n, bs)" by fastforce
        show ?thesis
        proof (cases "e = CHR ''u'' \<and> n \<noteq> 0")
          case False
          then show ?thesis using Cons True None u by (subst unescape.simps) (auto simp: e_def Let_def)
        next
          case ok: True
          obtain sk' where s: "escapes sk w \<le> escapes sk' (drop (2 * (n div 2)) w) + n div 2"
            using escapes_drop by blast
          have n: "n = 6 \<and> 6 \<le> length w \<and> length bs \<le> 3 \<or> n = 12 \<and> 12 \<le> length w \<and> length bs = 4"
            using utf16_literal_cases [OF u] ok by auto
          then have d: "2 * (n div 2) = n" "drop n w = drop (n - 1) r" using Cons by (auto simp: drop_Cons')
          have b: "length out + length bs + length (drop (n - 1) r) + (if drop (n - 1) r = [] then 1 else 2)
              \<le> cap + escapes sk' (drop (n - 1) r)"
            using s n "1.prems" Cons unfolding d by (auto split: if_splits)
          have p: "put cap out bs = Some (out @ bs)"
            using b escapes_le_length [of sk' "drop (n - 1) r"] by (simp add: put_def split: if_splits)
          have l: "length (drop (n - 1) r) < length w" using Cons by simp
          obtain q where "unescape cap (out @ bs) (drop (n - 1) r) = Some q"
              "\<forall>k. q = Inl k \<longrightarrow> k \<le> length (drop (n - 1) r)"
            using "1.IH" [rule_format, OF l, of "out @ bs" sk'] b by auto
          then show ?thesis using Cons True None u ok p by (subst unescape.simps) (auto simp: e_def Let_def)
        qed
      qed
    qed
  qed
qed


section \<open>Every parser stays inside the text\<close>

lemma parse_string_parsed:
  assumes "offset b < length (content b)"
  shows "parsed no_nul b (parse_string b)"
proof (cases "content b ! offset b = CHR 0x22")
  case False
  then show ?thesis using assms
    by (simp add: parse_string_def byte_at_def parsed_def same_text_def in_bounds_def)
next
  case q: True
  show ?thesis
  proof (cases "string_end (drop (offset b + 1) (content b))")
    case None
    then show ?thesis using assms q
      by (simp add: parse_string_def byte_at_def parsed_def same_text_def in_bounds_def)
  next
    case (Some nk)
    obtain n k where nk: "nk = (n, k)" by fastforce
    define w where "w = take n (drop (offset b + 1) (content b))"
    have e: "n < length (drop (offset b + 1) (content b))" "k = escapes False w"
      using string_end_Some [OF Some [unfolded nk]] unfolding w_def by blast+
    have lw: "length w = n" using e(1) by (simp add: w_def)
    have "k \<le> n" using escapes_le_length [of False w] e(2) lw by simp
    then have "length [] + length w + (if w = [] then 1 else 2) \<le> (n + 1 - k) + 1 + escapes False w"
      using e(2) lw by simp
    then obtain r where r: "unescape ((n + 1 - k) + 1) [] w = Some r" "\<forall>j. r = Inl j \<longrightarrow> j \<le> length w"
      using unescape_fits by blast
    show ?thesis
      using assms q Some nk e(1) lw r unfolding parse_string_def byte_at_def
      by (cases r) (auto simp: parsed_def same_text_def in_bounds_def Let_def w_def no_nul_def dest: set_takeWhileD)
  qed
qed

lemma scan_sign_length: "length (snd (scan_sign s)) \<le> length s"
  by (auto simp: scan_sign_def split: list.splits char.splits bool.splits)

lemma length_dropWhile_le: "length (dropWhile P xs) \<le> length xs"
  by (induction xs) auto

lemma strtod_used: "snd (strtod s) \<le> length s"
  by (simp add: strtod_def case_prod_beta Let_def)

lemma strtod_not_nan: "int_of_dbl (fst (strtod s)) \<noteq> None"
proof -
  have "int_of_dbl (round_dbl q) \<noteq> None" for q
    by (auto simp: round_dbl_def int_of_dbl_def Let_def)
  moreover have "int_of_dbl (Fin 0) \<noteq> None" by (simp add: int_of_dbl_def)
  ultimately show ?thesis by (simp add: strtod_def case_prod_beta Let_def)
qed

lemma number_c_string_length: "length (number_c_string s) \<le> length s"
  unfolding number_c_string_def length_map
  by (rule order_trans [OF length_takeWhile_le]) simp

lemma parse_number_parsed:
  assumes b: "in_bounds b" and it: "blank_item it"
  shows "parsed (\<lambda>v. item_wf k v \<and> cname v = cname it) b (parse_number it b)"
proof -
  obtain d used where s: "strtod (number_c_string (buffer_at_offset b)) = (d, used)" by fastforce
  have "used \<le> length (content b) - offset b"
    using strtod_used [of "number_c_string (buffer_at_offset b)"] number_c_string_length [of "buffer_at_offset b"]
    unfolding s by (simp add: buffer_at_offset_def)
  moreover obtain vi where "int_of_dbl d = Some vi"
    using strtod_not_nan [of "number_c_string (buffer_at_offset b)"] unfolding s by auto
  ultimately show ?thesis
    using b it by (auto simp: parse_number_def s parsed_def same_text_def in_bounds_def blank_item_def text_ok_def
        cJSON_types item_wf.simps split: cJSON.splits)
qed

text \<open>The parser of the values inside: it is safe as far as the text and the depth allow.\<close>

definition pv_safe :: "value_parser \<Rightarrow> nat \<Rightarrow> bool" where
  "pv_safe pv d \<longleftrightarrow> (\<forall>it b. in_bounds b \<longrightarrow> depth b = d \<longrightarrow> blank_item it \<longrightarrow>
     parsed (\<lambda>v. item_wf (CJSON_NESTING_LIMIT - d) v \<and> cname v = cname it) b (pv it b))"

lemma pv_safeD:
  "pv_safe pv d \<Longrightarrow> in_bounds b \<Longrightarrow> depth b = d \<Longrightarrow> blank_item it \<Longrightarrow>
     parsed (\<lambda>v. item_wf (CJSON_NESTING_LIMIT - d) v \<and> cname v = cname it) b (pv it b)"
  by (simp add: pv_safe_def)

lemma New_Item_blank: "cJSON_New_Item h l k = Some it \<Longrightarrow> blank_item it \<and> cname it = None"
  by (auto simp: cJSON_New_Item_def new_item_def blank_item_def text_ok_def split: if_splits)

definition elem_wf :: "nat \<Rightarrow> cJSON \<Rightarrow> bool" where
  "elem_wf d v \<longleftrightarrow> item_wf (CJSON_NESTING_LIMIT - d) v \<and> cname v = None"

definition member_wf :: "nat \<Rightarrow> cJSON \<Rightarrow> bool" where
  "member_wf d v \<longleftrightarrow> item_wf (CJSON_NESTING_LIMIT - d) v \<and> cname v \<noteq> None"

lemma step_in_bounds: "offset b < length (content b) \<Longrightarrow> in_bounds (b\<lparr>offset := Suc (offset b)\<rparr>)"
  by (simp add: in_bounds_def)

lemma parse_elems_parsed:
  assumes "pv_safe pv (depth b)" "offset b < length (content b)" "length (content b) - offset b \<le> n"
    "list_all (elem_wf (depth b)) acc"
  shows "parsed (list_all (elem_wf (depth b))) b (parse_elems pv n acc b)"
  using assms
proof (induction n arbitrary: acc b)
  case 0
  then show ?case by simp
next
  case (Suc n)
  show ?case
  proof (cases "cJSON_New_Item (hooks b) (depth b) (offset b)")
    case None
    then show ?thesis using Suc.prems by (simp add: parsed_def same_text_def in_bounds_def)
  next
    case (Some it)
    define b1 where "b1 = buffer_skip_whitespace (b\<lparr>offset := Suc (offset b)\<rparr>)"
    have b1: "in_bounds b1" "content b1 = content b" "hooks b1 = hooks b" "depth b1 = depth b" "offset b < offset b1"
      using skip_whitespace_cases [OF step_in_bounds [OF Suc.prems(2)]] unfolding b1_def by simp_all
    obtain v b2 where v: "pv it b1 = Some (v, b2)" "same_text b1 b2" "in_bounds b2"
        "\<forall>x. v = Some x \<longrightarrow> elem_wf (depth b) x \<and> depth b2 = depth b \<and> offset b1 < offset b2"
      using pv_safeD [OF Suc.prems(1) b1(1) b1(4), of it] New_Item_blank [OF Some]
      unfolding parsed_def b1(4) elem_wf_def by auto
    show ?thesis
    proof (cases v)
      case None
      then show ?thesis using v b1 Some
        by (simp add: b1_def [symmetric] parsed_def same_text_def)
    next
      case (Some x)
      define b3 where "b3 = buffer_skip_whitespace b2"
      have b3: "in_bounds b3" "content b3 = content b" "hooks b3 = hooks b" "depth b3 = depth b" "offset b < offset b3"
        using skip_whitespace_cases [OF v(3)] v b1 Some unfolding b3_def by (auto simp: same_text_def)
      have r: "parse_elems pv (Suc n) acc b =
          (if next_is b3 (CHR '','') then parse_elems pv n (acc @ [x]) b3 else Some (Some (acc @ [x]), b3))"
        using \<open>cJSON_New_Item (hooks b) (depth b) (offset b) = Some it\<close> v Some by (simp add: b1_def [symmetric] b3_def [symmetric] Let_def)
      show ?thesis
      proof (cases "next_is b3 (CHR '','')")
        case True
        then have "parsed (list_all (elem_wf (depth b))) b3 (parse_elems pv n (acc @ [x]) b3)"
          using Suc.IH [of b3 "acc @ [x]"] Suc.prems b3 next_is_bound [OF True] v(4) Some by simp
        then show ?thesis unfolding r using True b3 by (auto simp: parsed_def same_text_def)
      next
        case False
        then show ?thesis unfolding r using b3 v(4) Some Suc.prems(4) by (simp add: parsed_def same_text_def)
      qed
    qed
  qed
qed

lemma parse_members_parsed:
  assumes "pv_safe pv (depth b)" "offset b < length (content b)" "length (content b) - offset b \<le> n"
    "list_all (member_wf (depth b)) acc"
  shows "parsed (list_all (member_wf (depth b))) b (parse_members pv n acc b)"
  using assms
proof (induction n arbitrary: acc b)
  case 0
  then show ?case by simp
next
  case (Suc n)
  show ?case
  proof (cases "cJSON_New_Item (hooks b) (depth b) (offset b) = None \<or> \<not> can_access_at_index b 1")
    case True
    then show ?thesis using Suc.prems by (auto simp: parsed_def same_text_def in_bounds_def split: option.splits)
  next
    case False
    then obtain it where it: "cJSON_New_Item (hooks b) (depth b) (offset b) = Some it" and a: "can_access_at_index b 1" by auto
    define b1 where "b1 = buffer_skip_whitespace (b\<lparr>offset := Suc (offset b)\<rparr>)"
    have b1: "in_bounds b1" "content b1 = content b" "hooks b1 = hooks b" "depth b1 = depth b" "offset b < offset b1"
      "offset b1 < length (content b)"
      using skip_whitespace_cases [OF step_in_bounds [OF Suc.prems(2)]] a
      unfolding b1_def by (simp_all add: can_access_at_index_def)
    obtain nm b2 where s: "parse_string b1 = Some (nm, b2)" "same_text b1 b2" "in_bounds b2"
        "\<forall>x. nm = Some x \<longrightarrow> no_nul x \<and> depth b2 = depth b \<and> offset b1 < offset b2"
      using parse_string_parsed [of b1] b1 unfolding parsed_def by auto
    define b3 where "b3 = buffer_skip_whitespace b2"
    have b3: "in_bounds b3" "content b3 = content b" "hooks b3 = hooks b" "offset b2 \<le> offset b3" "depth b3 = depth b2"
      using skip_whitespace_cases [OF s(3)] s b1 unfolding b3_def by (simp_all add: same_text_def)
    show ?thesis
    proof (cases "nm = None \<or> \<not> next_is b3 (CHR '':'')")
      case True
      then show ?thesis using s b1 b3 it a
        by (auto simp: b1_def [symmetric] b3_def [symmetric] parsed_def same_text_def Let_def split: option.splits)
    next
      case False
      then obtain name where nm: "nm = Some name" and c: "next_is b3 (CHR '':'')" by auto
      define it' where "it' = Item cJSON_String None (valueint it) (valuedouble it) (Some name) (child it)"
      have it': "blank_item it' \<and> cname it' = Some name"
        using New_Item_blank [OF it] s(4) nm by (simp add: it'_def blank_item_def text_ok_def)
      define b4 where "b4 = buffer_skip_whitespace (b3\<lparr>offset := Suc (offset b3)\<rparr>)"
      have b4: "in_bounds b4" "content b4 = content b" "hooks b4 = hooks b" "depth b4 = depth b" "offset b < offset b4"
        using skip_whitespace_cases [OF step_in_bounds [OF next_is_bound [OF c]]] b3 b1 s nm
        unfolding b4_def by simp_all
      obtain v b5 where v: "pv it' b4 = Some (v, b5)" "same_text b4 b5" "in_bounds b5"
          "\<forall>x. v = Some x \<longrightarrow> member_wf (depth b) x \<and> depth b5 = depth b \<and> offset b4 < offset b5"
        using pv_safeD [OF Suc.prems(1) b4(1) b4(4), of it'] it' unfolding parsed_def b4(4) member_wf_def by auto
      have r: "parse_members pv (Suc n) acc b =
          (case v of None \<Rightarrow> Some (None, b5)
           | Some x \<Rightarrow> if next_is (buffer_skip_whitespace b5) (CHR '','')
               then parse_members pv n (acc @ [x]) (buffer_skip_whitespace b5)
               else Some (Some (acc @ [x]), buffer_skip_whitespace b5))"
        using it a s nm c v
        by (simp add: b1_def [symmetric] b3_def [symmetric] b4_def [symmetric] it'_def [symmetric] Let_def
            cong: option.case_cong)
      show ?thesis
      proof (cases v)
        case None
        then show ?thesis unfolding r using v b4 by (simp add: parsed_def same_text_def)
      next
        case (Some x)
        define b6 where "b6 = buffer_skip_whitespace b5"
        have b6: "in_bounds b6" "content b6 = content b" "hooks b6 = hooks b" "depth b6 = depth b" "offset b < offset b6"
          using skip_whitespace_cases [OF v(3)] v b4 Some unfolding b6_def by (auto simp: same_text_def)
        show ?thesis
        proof (cases "next_is b6 (CHR '','')")
          case True
          then have "parsed (list_all (member_wf (depth b))) b6 (parse_members pv n (acc @ [x]) b6)"
            using Suc.IH [of b6 "acc @ [x]"] Suc.prems b6 next_is_bound [OF True] v(4) Some by simp
          then show ?thesis unfolding r b6_def [symmetric] using True b6 Some by (auto simp: parsed_def same_text_def)
        next
          case False
          then show ?thesis unfolding r b6_def [symmetric] using b6 v(4) Some Suc.prems(4) by (simp add: parsed_def same_text_def)
        qed
      qed
    qed
  qed
qed


lemma array_item_wf:
  "d < CJSON_NESTING_LIMIT \<Longrightarrow> text_ok nm \<Longrightarrow> list_all (elem_wf (Suc d)) cs \<Longrightarrow>
     item_wf (CJSON_NESTING_LIMIT - d) (Item cJSON_Array None vi vd nm cs)"
  by (auto simp: item_wf.simps elem_wf_def list_all_iff text_ok_def cJSON_types)

lemma object_item_wf:
  "d < CJSON_NESTING_LIMIT \<Longrightarrow> text_ok nm \<Longrightarrow> list_all (member_wf (Suc d)) cs \<Longrightarrow>
     item_wf (CJSON_NESTING_LIMIT - d) (Item cJSON_Object None vi vd nm cs)"
  by (auto simp: item_wf.simps member_wf_def list_all_iff text_ok_def cJSON_types)

lemma parse_array_parsed:
  assumes b: "offset b < length (content b)" and pv: "depth b < CJSON_NESTING_LIMIT \<Longrightarrow> pv_safe pv (depth b + 1)"
    and it: "blank_item it"
  shows "parsed (\<lambda>v. item_wf (CJSON_NESTING_LIMIT - depth b) v \<and> cname v = cname it) b (parse_array pv it b)"
proof (cases "CJSON_NESTING_LIMIT \<le> depth b \<or> content b ! offset b \<noteq> CHR ''[''")
  case True
  then show ?thesis using b by (auto simp: parse_array_def byte_at_def parsed_def same_text_def in_bounds_def)
next
  case False
  have it_wf: "valuestring it = None" "text_ok (cname it)" using it by (simp_all add: blank_item_def)
  define b1 where "b1 = buffer_skip_whitespace (b\<lparr>depth := Suc (depth b), offset := Suc (offset b)\<rparr>)"
  have "in_bounds (b\<lparr>depth := Suc (depth b), offset := Suc (offset b)\<rparr>)" using b by (simp add: in_bounds_def)
  from skip_whitespace_cases [OF this]
  have b1: "in_bounds b1" "content b1 = content b" "hooks b1 = hooks b" "depth b1 = depth b + 1" "offset b < offset b1"
    unfolding b1_def by simp_all
  show ?thesis
  proof (cases "next_is b1 (CHR '']'') \<or> \<not> can_access_at_index b1 0")
    case True
    then show ?thesis using b False b1 next_is_bound [of b1 "CHR '']''"]
      by (auto simp: parse_array_def byte_at_def parsed_def same_text_def in_bounds_def Let_def b1_def [symmetric] array_item_wf object_item_wf it_wf)
  next
    case f: False
    define b2 where "b2 = b1\<lparr>offset := offset b1 - Suc 0\<rparr>"
    have b2: "offset b2 < length (content b2)" "content b2 = content b" "hooks b2 = hooks b"
      "depth b2 = depth b + 1" "offset b \<le> offset b2"
      using b1 f unfolding b2_def by (auto simp: can_access_at_index_def)
    have "pv_safe pv (depth b2)" using pv False b2(4) by simp
    from parse_elems_parsed [OF this b2(1) diff_le_self, of "[]"]
    obtain es b3 where e: "parse_elems pv (length (content b)) [] b2 = Some (es, b3)" "same_text b2 b3" "in_bounds b3"
        "\<forall>x. es = Some x \<longrightarrow> list_all (elem_wf (depth b + 1)) x \<and> depth b3 = depth b + 1 \<and> offset b2 < offset b3"
      unfolding parsed_def b2(2,4) by auto
    then show ?thesis using b False f b1 b2 next_is_bound [of b3 "CHR '']''"]
      by (auto simp: parse_array_def byte_at_def parsed_def same_text_def in_bounds_def Let_def
            b1_def [symmetric] b2_def [symmetric] array_item_wf object_item_wf it_wf split: option.splits)
  qed
qed

lemma parse_object_parsed:
  assumes b: "offset b < length (content b)" and pv: "depth b < CJSON_NESTING_LIMIT \<Longrightarrow> pv_safe pv (depth b + 1)"
    and it: "blank_item it"
  shows "parsed (\<lambda>v. item_wf (CJSON_NESTING_LIMIT - depth b) v \<and> cname v = cname it) b (parse_object pv it b)"
proof (cases "CJSON_NESTING_LIMIT \<le> depth b \<or> \<not> next_is (b\<lparr>depth := Suc (depth b)\<rparr>) (CHR ''{'')")
  case True
  then show ?thesis using b by (auto simp: parse_object_def parsed_def same_text_def in_bounds_def)
next
  case False
  have it_wf: "valuestring it = None" "text_ok (cname it)" using it by (simp_all add: blank_item_def)
  define b1 where "b1 = buffer_skip_whitespace (b\<lparr>depth := Suc (depth b), offset := Suc (offset b)\<rparr>)"
  have "in_bounds (b\<lparr>depth := Suc (depth b), offset := Suc (offset b)\<rparr>)" using b by (simp add: in_bounds_def)
  from skip_whitespace_cases [OF this]
  have b1: "in_bounds b1" "content b1 = content b" "hooks b1 = hooks b" "depth b1 = depth b + 1" "offset b < offset b1"
    unfolding b1_def by simp_all
  show ?thesis
  proof (cases "next_is b1 (CHR ''}'') \<or> \<not> can_access_at_index b1 0")
    case True
    then show ?thesis using b False b1 next_is_bound [of b1 "CHR ''}''"]
      by (auto simp: parse_object_def parsed_def same_text_def in_bounds_def Let_def b1_def [symmetric] array_item_wf object_item_wf it_wf)
  next
    case f: False
    define b2 where "b2 = b1\<lparr>offset := offset b1 - Suc 0\<rparr>"
    have b2: "offset b2 < length (content b2)" "content b2 = content b" "hooks b2 = hooks b"
      "depth b2 = depth b + 1" "offset b \<le> offset b2"
      using b1 f unfolding b2_def by (auto simp: can_access_at_index_def)
    have "pv_safe pv (depth b2)" using pv False b2(4) by simp
    from parse_members_parsed [OF this b2(1) diff_le_self, of "[]"]
    obtain es b3 where e: "parse_members pv (length (content b)) [] b2 = Some (es, b3)" "same_text b2 b3" "in_bounds b3"
        "\<forall>x. es = Some x \<longrightarrow> list_all (member_wf (depth b + 1)) x \<and> depth b3 = depth b + 1 \<and> offset b2 < offset b3"
      unfolding parsed_def b2(2,4) by auto
    then show ?thesis using b False f b1 b2 next_is_bound [of b3 "CHR ''}''"]
      by (auto simp: parse_object_def parsed_def same_text_def in_bounds_def Let_def
            b1_def [symmetric] b2_def [symmetric] array_item_wf object_item_wf it_wf split: option.splits)
  qed
qed

lemma parsed_if: "(c \<Longrightarrow> parsed P b x) \<Longrightarrow> (\<not> c \<Longrightarrow> parsed P b y) \<Longrightarrow> parsed P b (if c then x else y)"
  by simp

text \<open>One unit of fuel per level that the nesting limit leaves, and one more.\<close>

lemma parse_value_safe:
  "0 < n \<Longrightarrow> CJSON_NESTING_LIMIT < n + d \<Longrightarrow> pv_safe (parse_value n) d"
proof (induction n arbitrary: d)
  case (Suc n)
  have IH: "pv_safe (parse_value n) (depth b + 1)" if "depth b < CJSON_NESTING_LIMIT" "depth b = d" for b
    using Suc.IH [of "d + 1"] Suc.prems that by simp
  show ?case unfolding pv_safe_def
  proof (intro allI impI)
    fix it b
    assume b: "in_bounds b" "depth b = d" and it: "blank_item it"
    let ?P = "\<lambda>v. item_wf (CJSON_NESTING_LIMIT - d) v \<and> cname v = cname it"
    have lit: "starts b l \<Longrightarrow> l \<noteq> [] \<Longrightarrow> k = length l \<Longrightarrow> t \<in> {cJSON_False, cJSON_True, cJSON_NULL} \<Longrightarrow>
        parsed ?P b (Some (Some (Item t (valuestring it) vi (valuedouble it) (cname it) (child it)), b\<lparr>offset := offset b + k\<rparr>))"
      for l k t vi
      using b it by (auto simp: parsed_def starts_def can_read_def in_bounds_def same_text_def blank_item_def
          text_ok_def cJSON_types item_wf.simps)
    have str: "next_is b c \<Longrightarrow> parsed ?P b (do { (s, b) \<leftarrow> parse_string b;
        Some (map_option (\<lambda>x. Item cJSON_String (Some x) (valueint it) (valuedouble it) (cname it) (child it)) s, b) })" for c
      using parse_string_parsed [OF next_is_bound, of b c] it
      by (fastforce simp: parsed_def blank_item_def text_ok_def cJSON_types item_wf.simps)
    have num: "parsed ?P b (parse_number it b)" by (rule parse_number_parsed [OF b(1) it])
    have arr: "next_is b c \<Longrightarrow> parsed ?P b (parse_array (parse_value n) it b)" for c
      using parse_array_parsed [OF next_is_bound IH it] b(2) by blast
    have obj: "next_is b c \<Longrightarrow> parsed ?P b (parse_object (parse_value n) it b)" for c
      using parse_object_parsed [OF next_is_bound IH it] b(2) by blast
    have fail: "parsed ?P b (Some (None, b))"
      using b by (simp add: parsed_def same_text_def)
    show "parsed ?P b (parse_value (Suc n) it b)"
      unfolding parse_value.simps
      by (intro parsed_if) (erule lit str arr obj; simp | rule num fail)+
  qed
qed simp


section \<open>Properties\<close>

lemma parse_entry:
  fixes h :: internal_hooks
  assumes "text \<noteq> []"
  defines "b \<equiv> \<lparr>content = text, offset = 0, depth = 0, hooks = h\<rparr>"
  shows "\<exists>b0. skip_utf8_bom b = Some b0 \<and>
    parsed (\<lambda>v. item_wf CJSON_NESTING_LIMIT v \<and> cname v = None) (buffer_skip_whitespace b0)
      (parse_value parse_fuel new_item (buffer_skip_whitespace b0)) \<and>
    content (buffer_skip_whitespace b0) = text"
proof -
  obtain b0 where b0: "skip_utf8_bom b = Some b0" "content b0 = text" "depth b0 = 0" "in_bounds b0"
  proof (cases "can_access_at_index b 4 \<and> take 3 (buffer_at_offset b) = [CHR 0xEF, CHR 0xBB, CHR 0xBF]")
    case True
    then show ?thesis using that [of "b\<lparr>offset := offset b + 3\<rparr>"]
      by (simp add: skip_utf8_bom_def b_def in_bounds_def can_access_at_index_def)
  next
    case False
    then show ?thesis using that [of b] by (auto simp: skip_utf8_bom_def b_def in_bounds_def)
  qed
  have "pv_safe (parse_value parse_fuel) 0"
    by (rule parse_value_safe) (simp_all add: parse_fuel_def)
  moreover have "blank_item new_item" "cname new_item = None"
    by (simp_all add: blank_item_def new_item_def text_ok_def)
  ultimately show ?thesis
    using b0 pv_safeD [of "parse_value parse_fuel" 0 "buffer_skip_whitespace b0" new_item] by auto
qed

text \<open>
  C8: the parser terminates on every input and stays inside it. With the fuel of the entry point,
  \<open>cJSON_ParseWithLengthOpts\<close> returns, without a read outside the \<open>buffer_length\<close> bytes and without a
  write outside the block allocated for a string, whatever the bytes are and whichever of its allocations
  fail: \<open>can_alloc h\<close> decides on each request for an item or a string by itself (by level, position and size), so
  that the root can be granted and a later element or member refused. The position it reports is inside the text, and
  before its end on an error.
\<close>

theorem parse_returns:
  "\<exists>item pos. cJSON_ParseWithLengthOpts h value require_null_terminated = Some (item, pos) \<and>
     (\<forall>text. value = Some text \<and> text \<noteq> [] \<longrightarrow> pos \<le> length text \<and> (item = None \<longrightarrow> pos < length text))"
proof (cases "\<exists>text. value = Some text \<and> text \<noteq> [] \<and> cJSON_New_Item h 0 0 \<noteq> None")
  case False
  then show ?thesis by (cases "value") (auto simp: cJSON_ParseWithLengthOpts_def Let_def)
next
  case True
  then obtain doc where t: "value = Some doc" "doc \<noteq> []" and n: "cJSON_New_Item h 0 0 = Some new_item"
    by (auto simp: cJSON_New_Item_def split: if_splits)
  obtain b0 v b2 where s: "skip_utf8_bom \<lparr>content = doc, offset = 0, depth = 0, hooks = h\<rparr> = Some b0"
    and p: "parse_value parse_fuel new_item (buffer_skip_whitespace b0) = Some (v, b2)" "content b2 = doc" "in_bounds b2"
    using parse_entry [OF t(2), of h] by (auto simp: parsed_def same_text_def)
  have "offset b2 \<le> length doc" "offset (buffer_skip_whitespace b2) \<le> length doc"
    using p skip_whitespace_cases [OF p(3)] by (simp_all add: in_bounds_def)
  then show ?thesis using t n s p by (auto simp: cJSON_ParseWithLengthOpts_def Let_def split: option.splits)
qed

text \<open>An allocator that grants the root and the first element of \<open>[1,2]\<close> and refuses the second element.\<close>

definition refusing_hooks :: internal_hooks where
  "refusing_hooks = demo_hooks\<lparr>can_alloc := (\<lambda>q. q \<noteq> Item_At 1 2 64)\<rparr>"

lemma parse_refused: "cJSON_ParseWithLengthOpts refusing_hooks (Some ''[1,2]'') False = Some (None, 2)"
  by code_simp

lemma parse_granted: "map_option fst (cJSON_ParseWithLengthOpts demo_hooks (Some ''[1,2]'') False) \<noteq> Some None"
  by code_simp

theorem parse_returns_witness:
  "\<exists>pos. cJSON_ParseWithLengthOpts refusing_hooks (Some ''[1,2]'') False = Some (None, pos) \<and> pos < length ''[1,2]''"
  using parse_returns [of refusing_hooks "Some ''[1,2]''" False] parse_refused by auto

text \<open>
  C11: what a successful parse returns. The item has plain types, strings exactly where a string was
  read, names in objects only, numbers whose \<open>valueint\<close> is the saturated \<open>valuedouble\<close>, and at most
  \<open>CJSON_NESTING_LIMIT\<close> levels of arrays and objects; with \<open>require_null_terminated\<close> the position
  reported is at a NUL.
\<close>

theorem parse_result_wf:
  assumes "cJSON_ParseWithLengthOpts h (Some text) require_null_terminated = Some (Some it, pos)"
  shows "item_wf CJSON_NESTING_LIMIT it \<and> cname it = None \<and>
    (require_null_terminated \<longrightarrow> pos < length text \<and> text ! pos = NUL)"
proof -
  have t: "text \<noteq> []" using assms by (auto simp: cJSON_ParseWithLengthOpts_def)
  have n: "cJSON_New_Item h 0 0 = Some new_item"
    using assms t by (auto simp: cJSON_ParseWithLengthOpts_def cJSON_New_Item_def Let_def split: if_splits)
  obtain b0 v b2 where s: "skip_utf8_bom \<lparr>content = text, offset = 0, depth = 0, hooks = h\<rparr> = Some b0"
    and p: "parse_value parse_fuel new_item (buffer_skip_whitespace b0) = Some (v, b2)" "content b2 = text" "in_bounds b2"
      "\<forall>x. v = Some x \<longrightarrow> item_wf CJSON_NESTING_LIMIT x \<and> cname x = None"
    using parse_entry [OF t, of h] by (auto simp: parsed_def same_text_def)
  show ?thesis
    using assms t n s p by (auto simp: cJSON_ParseWithLengthOpts_def Let_def split: option.splits if_splits)
qed

definition demo_text :: string where
  "demo_text = ''{'' @ CHR 0x22 # ''a'' @ CHR 0x22 # '':[true]}'' @ [NUL]"

definition demo_parsed :: cJSON where
  "demo_parsed = Item cJSON_Object None 0 (Fin 0) None
     [Item cJSON_Array None 0 (Fin 0) (Some ''a'')
        [Item cJSON_True None 1 (Fin 0) None []]]"

lemma parse_demo: "cJSON_ParseWithLengthOpts demo_hooks (Some demo_text) True = Some (Some demo_parsed, 12)"
  by code_simp

theorem parse_result_wf_witness:
  "cJSON_ParseWithLengthOpts demo_hooks (Some demo_text) True = Some (Some demo_parsed, 12) \<and>
   item_wf CJSON_NESTING_LIMIT demo_parsed"
  using parse_demo parse_result_wf [OF parse_demo] by simp

end
