(* ===== verification/Cjson_Roundtrip.thy ===== *)
theory Cjson_Roundtrip
  imports Cjson_Parse
begin

text \<open>
  The parser against the printer: the text that an item is printed as, formatted or not, is parsed
  back into the item. Positions in the parse buffer are named by what is left of the text there.
\<close>

section \<open>Positions\<close>

definition seek :: "parse_buffer \<Rightarrow> string \<Rightarrow> parse_buffer" where
  "seek b r = b\<lparr>offset := length (content b) - length r\<rparr>"

lemma seek_simps [simp]:
  "content (seek b r) = content b" "depth (seek b r) = depth b" "hooks (seek b r) = hooks b"
  "seek (seek b r) r' = seek b r'" "seek (b\<lparr>offset := k\<rparr>) r = seek b r" "seek (b\<lparr>depth := d\<rparr>) r = (seek b r)\<lparr>depth := d\<rparr>"
  "(seek b r)\<lparr>depth := depth b\<rparr> = seek b r" "(seek b r)\<lparr>offset := k\<rparr> = b\<lparr>offset := k\<rparr>"
  by (cases b; simp add: seek_def)+

lemma rest_depth [simp]: "buffer_at_offset (b\<lparr>depth := d\<rparr>) = buffer_at_offset b"
  by (simp add: buffer_at_offset_def)

lemma rest_length: "length (buffer_at_offset b) = length (content b) - offset b"
  by (simp add: buffer_at_offset_def)

lemma rest_split:
  "buffer_at_offset b = t @ r \<Longrightarrow> t @ r \<noteq> [] \<Longrightarrow> offset b + length t + length r = length (content b)"
proof -
  assume b: "buffer_at_offset b = t @ r" and n: "t @ r \<noteq> []"
  have "length (t @ r) = length (content b) - offset b" using rest_length [of b] unfolding b .
  moreover have "0 < length (t @ r)" using n by blast
  ultimately show ?thesis by simp
qed

lemma rest_seek: "buffer_at_offset b = t @ r \<Longrightarrow> buffer_at_offset (seek b r) = r"
proof (cases "r = []")
  case False
  assume b: "buffer_at_offset b = t @ r"
  then have "length (content b) - length r = offset b + length t" using rest_split [OF b] False by simp
  moreover have "drop (length t) (drop (offset b) (content b)) = r"
    using b by (simp add: buffer_at_offset_def del: drop_drop)
  ultimately show ?thesis by (simp add: buffer_at_offset_def seek_def add.commute)
qed (simp add: buffer_at_offset_def seek_def)

lemma seek_here: "buffer_at_offset b = r \<Longrightarrow> r \<noteq> [] \<Longrightarrow> seek b r = b"
  using rest_split [of b "[]" r] by (cases b) (simp add: seek_def)

lemma advance: "buffer_at_offset b = t @ r \<Longrightarrow> t \<noteq> [] \<Longrightarrow> n = length t \<Longrightarrow> b\<lparr>offset := offset b + n\<rparr> = seek b r"
  using rest_split [of b t r] by (simp add: seek_def)

lemma advance1: "buffer_at_offset b = c # r \<Longrightarrow> b\<lparr>offset := Suc (offset b)\<rparr> = seek b r"
  using advance [of b "[c]" r 1] by simp

lemma step_back: "buffer_at_offset b = t @ c # r \<Longrightarrow> (seek b r)\<lparr>offset := offset (seek b r) - Suc 0\<rparr> = seek b (c # r)"
  using rest_split [of b t "c # r"] by (simp add: seek_def)

lemma access_iff: "can_access_at_index b n \<longleftrightarrow> n < length (buffer_at_offset b)"
  by (auto simp: can_access_at_index_def rest_length)

lemma rest_nth: "n < length (buffer_at_offset b) \<Longrightarrow> content b ! (offset b + n) = buffer_at_offset b ! n"
  by (simp add: buffer_at_offset_def)

lemma next_is_rest: "next_is b c \<longleftrightarrow> (\<exists>r. buffer_at_offset b = c # r)"
  using rest_nth [of 0 b] by (cases "buffer_at_offset b") (auto simp: next_is_def access_iff)

lemma starts_rest: "l \<noteq> [] \<Longrightarrow> starts b l \<longleftrightarrow> (\<exists>r. buffer_at_offset b = l @ r)"
proof
  assume "starts b l"
  then show "\<exists>r. buffer_at_offset b = l @ r"
    by (metis starts_def append_take_drop_id)
next
  assume l: "l \<noteq> []" and "\<exists>r. buffer_at_offset b = l @ r"
  then obtain r where "buffer_at_offset b = l @ r" by blast
  then show "starts b l" using rest_split [of b l r] l by (simp add: starts_def can_read_def)
qed

lemma skip_to:
  assumes "buffer_at_offset b = ws @ c # r" "\<forall>x \<in> set ws. ord_c x \<le> 32" "32 < ord_c c"
  shows "buffer_skip_whitespace b = seek b (c # r)"
proof -
  have t: "takeWhile (\<lambda>c. ord_c c \<le> 32) (buffer_at_offset b) = ws"
    unfolding assms(1) using assms(2,3) by (intro takeWhile_append_stop) auto
  have "length (content b) - offset b = length ws + length (c # r)"
    using rest_length [of b] unfolding assms(1) by simp
  then have o: "offset b + length ws = length (content b) - length (c # r)" "offset b + length ws < length (content b)"
    by simp_all
  have "can_access_at_index b 0" unfolding access_iff assms(1) by simp
  then show ?thesis using o by (simp add: buffer_skip_whitespace_def t seek_def Let_def)
qed

section \<open>Strings\<close>

lemma hex_digit_val: "n < 16 \<Longrightarrow> hex_val (hex_digit n) = Some n"
  by (auto simp: hex_val_def hex_digit_def)

lemma hex_digit_plain: "n < 16 \<Longrightarrow> hex_digit n \<noteq> CHR 0x22 \<and> hex_digit n \<noteq> CHR 0x5C"
proof -
  assume "n < 16"
  then have "ord_c (hex_digit n) \<noteq> ord_c (CHR 0x22)" "ord_c (hex_digit n) \<noteq> ord_c (CHR 0x5C)"
    by (auto simp: hex_digit_def)
  then show ?thesis by metis
qed

lemma parse_hex4_digits:
  assumes "hex_val c0 = Some 0" "hex_val c2 = Some d2" "hex_val c3 = Some d3"
  shows "parse_hex4 (c0 # c0 # c2 # c3 # r) = of_nat (16 * d2 + d3)"
proof -
  have t: "take 4 (c0 # c0 # c2 # c3 # r) = [c0, c0, c2, c3]" by (simp add: eval_nat_numeral)
  have z: "push_bit 4 (push_bit 4 0) = (0 :: u32)" by simp
  have "push_bit 4 w = 16 * w" for w :: u32 by (simp add: push_bit_eq_mult)
  then show ?thesis
    unfolding parse_hex4_def t using assms by (simp add: Let_def)
qed

lemma parse_hex4_control:
  assumes "m < 32"
  shows "parse_hex4 (''00'' @ hex_digit (m div 16) # hex_digit (m mod 16) # r) = of_nat m"
proof -
  have "hex_val (hex_digit (m div 16)) = Some (m div 16)" "hex_val (hex_digit (m mod 16)) = Some (m mod 16)"
    "hex_val (CHR ''0'') = Some 0"
    using assms by (auto intro: hex_digit_val simp: hex_val_def [of "CHR ''0''"])
  from parse_hex4_digits [OF this(3,1,2), of r] show ?thesis by (simp only: mult_div_mod_eq append_Cons append_Nil)
qed

lemma utf8_encode_ascii: "m < 128 \<Longrightarrow> utf8_encode m = [char_of m]"
proof -
  assume m: "m < 128"
  have "m AND 127 = m"
    using m take_bit_nat_eq_self [of m 7] by (simp add: take_bit_eq_mask mask_eq_exp_minus_1)
  then show ?thesis using m by (simp add: utf8_encode_def Let_def)
qed

lemma literal_control:
  assumes "m < 32"
  shows "utf16_literal_to_utf8 (CHR 0x5C # ''u00'' @ hex_digit (m div 16) # hex_digit (m mod 16) # r) = (6, [char_of m])"
  using assms parse_hex4_control [OF assms, of r]
  by (simp add: utf16_literal_to_utf8_def utf8_encode_ascii Let_def)

lemma put_fits: "length out < cap \<Longrightarrow> put cap out [c] = Some (out @ [c])"
  by (simp add: put_def)

lemma escape_char_cases:
  obtains (plain) "escape_char c = [c]" "c \<noteq> CHR 0x5C" "c \<noteq> CHR 0x22"
    | (short) x where "escape_char c = [CHR 0x5C, x]" "simple_escape x = Some c"
    | (code) "escape_char c = CHR 0x5C # ''u00'' @ [hex_digit (ord_c c div 16), hex_digit (ord_c c mod 16)]" "ord_c c < 32"
proof (cases "31 < ord_c c \<and> c \<noteq> CHR 0x22 \<and> c \<noteq> CHR 0x5C")
  case True
  then show thesis by (intro plain) (simp_all add: escape_char_def)
next
  case False
  show thesis
  proof (cases "c \<in> {CHR 0x22, CHR 0x5C, CHR 0x08, CHR 0x0C, CHR 0x0A, CHR 0x0D, CHR 0x09}")
    case True
    then have "escape_char c = [CHR 0x5C, escape_char c ! 1] \<and> simple_escape (escape_char c ! 1) = Some c"
      by (elim insertE emptyE) (simp_all add: escape_char_def simple_escape_def)
    then show thesis using short by blast
  next
    case f: False
    then show thesis using False by (intro code) (simp_all add: escape_char_def)
  qed
qed

lemma unescape_escape_char:
  assumes "length out < cap"
  shows "unescape cap out (escape_char c @ r) = unescape cap (out @ [c]) r"
proof (cases c rule: escape_char_cases)
  case plain
  then show ?thesis using assms by (subst unescape.simps) (simp add: put_fits)
next
  case short
  then show ?thesis using assms by (subst unescape.simps) (simp add: put_fits)
next
  case code
    have s: "simple_escape (CHR ''u'') = None" by (simp add: simple_escape_def)
    have "utf16_literal_to_utf8 (escape_char c @ r) = (6, [c])"
      using literal_control [OF code(2), of r] unfolding code(1) by simp
    then show ?thesis using assms s unfolding code(1) by (subst unescape.simps) (simp add: put_fits Let_def)
qed

lemma unescape_escape_text:
  "length out + length s < cap \<Longrightarrow> unescape cap out (escape_text s) = Some (Inr (out @ s))"
proof (induction s arbitrary: out)
  case Nil
  then show ?case by (subst unescape.simps) (simp add: escape_text_def put_fits)
next
  case (Cons c s)
  have "escape_text (c # s) = escape_char c @ escape_text s" by (simp add: escape_text_def)
  then show ?case using Cons.IH [of "out @ [c]"] Cons.prems unescape_escape_char [of out cap c] by simp
qed

lemma string_end_escape_char:
  "\<exists>k \<le> length (escape_char c) - 1. string_end (escape_char c @ r) =
     map_option (\<lambda>(n, j). (n + length (escape_char c), j + k)) (string_end r)"
proof (cases c rule: escape_char_cases)
  case plain
  then show ?thesis by (cases "string_end r") auto
next
  case short
  then show ?thesis by (cases "string_end r") auto
next
  case code
  have "ord_c c div 16 < 16" "ord_c c mod 16 < 16"
    using nat_of_char_less_256 [of c] less_mult_imp_div_less [of "ord_c c" 16 16] by simp_all
  then have "hex_digit (ord_c c div 16) \<noteq> CHR 0x22" "hex_digit (ord_c c div 16) \<noteq> CHR 0x5C"
    "hex_digit (ord_c c mod 16) \<noteq> CHR 0x22" "hex_digit (ord_c c mod 16) \<noteq> CHR 0x5C"
    using hex_digit_plain by auto
  then show ?thesis unfolding code(1) by (cases "string_end r") (auto intro: exI [of _ 1])
qed

lemma string_end_escape_text:
  "\<exists>k. k + length s \<le> length (escape_text s) \<and>
     string_end (escape_text s @ CHR 0x22 # r) = Some (length (escape_text s), k)"
proof (induction s)
  case Nil
  show ?case by (simp add: escape_text_def)
next
  case (Cons c s)
  then obtain k where k: "k + length s \<le> length (escape_text s)"
    "string_end (escape_text s @ CHR 0x22 # r) = Some (length (escape_text s), k)" by auto
  have e: "escape_text (c # s) = escape_char c @ escape_text s" by (simp add: escape_text_def)
  obtain j where j: "j \<le> length (escape_char c) - 1"
    "string_end (escape_char c @ (escape_text s @ CHR 0x22 # r)) =
       map_option (\<lambda>(n, i). (n + length (escape_char c), i + j)) (string_end (escape_text s @ CHR 0x22 # r))"
    using string_end_escape_char by blast
  show ?case using k j escape_char_length [of c] unfolding e by (intro exI [of _ "k + j"]) simp
qed

lemma parse_string_back:
  assumes b: "buffer_at_offset b = quoted (Some s) @ r" and s: "no_nul s" and h: "\<forall>n. can_alloc (hooks b) n"
  shows "parse_string b = Some (Some s, seek b r)"
proof -
  have l: "length (content b) - offset b = length (escape_text s) + 2 + length r"
    using rest_length [of b] unfolding b by (simp add: quoted_def)
  have c: "byte_at b 0 = Some (CHR 0x22)"
    using rest_nth [of 0 b] l unfolding b by (auto simp: byte_at_def quoted_def)
  have d: "drop (offset b + 1) (content b) = escape_text s @ CHR 0x22 # r"
    using b unfolding buffer_at_offset_def quoted_def by (metis append.assoc append_Cons append_Nil drop_drop drop0 drop_Suc_Cons option.simps(5) plus_1_eq_Suc)
  obtain k where k: "k + length s \<le> length (escape_text s)"
    "string_end (escape_text s @ CHR 0x22 # r) = Some (length (escape_text s), k)"
    using string_end_escape_text by blast
  have u: "unescape (length (escape_text s) + 1 - k + 1) [] (escape_text s) = Some (Inr s)"
    using unescape_escape_text [of "[]" s "length (escape_text s) + 1 - k + 1"] k(1) by simp
  have t: "takeWhile (\<lambda>c. c \<noteq> NUL) s = s" using s by (auto simp: takeWhile_eq_all_conv no_nul_def)
  have o: "b\<lparr>offset := offset b + 1 + length (escape_text s) + 1\<rparr> = seek b r"
    using l by (cases b) (auto simp: seek_def)
  show ?thesis
    unfolding parse_string_def c d Let_def k(2) using h u t o by simp
qed


section \<open>Numbers\<close>

lemma length_show_nat_le: "n < 10 ^ Suc k \<Longrightarrow> length (show_nat n) \<le> Suc k"
proof (induction k arbitrary: n)
  case (Suc k)
  then have "n div 10 < 10 ^ Suc k" by simp
  from Suc.IH [OF this] show ?case by (subst show_nat.simps) simp
qed (subst show_nat.simps, simp)

lemma show_int_length: "INT_MIN \<le> i \<Longrightarrow> i \<le> INT_MAX \<Longrightarrow> length (show_int i) \<le> 11"
proof -
  assume "INT_MIN \<le> i" "i \<le> INT_MAX"
  then have "nat (- i) < 10 ^ Suc 9" "nat i < 10 ^ Suc 9" by (simp_all add: INT_MIN_def INT_MAX_def)
  from this [THEN length_show_nat_le] show ?thesis by (simp add: show_int_def)
qed

lemma show_int_chars: "c \<in> set (show_int i) \<Longrightarrow> number_char c \<and> c \<noteq> CHR ''.''"
  using digit_not_sign by (auto simp: show_int_def number_char_def split: if_splits dest!: show_nat_digits)

lemma number_c_string_show:
  assumes "length (show_int i) \<le> 11" "post \<noteq> []" "\<not> number_char (hd post)"
  shows "number_c_string (show_int i @ post) = show_int i"
proof -
  have "take 63 (show_int i @ post) = show_int i @ take (63 - length (show_int i)) post"
    using assms(1) by simp
  moreover have "takeWhile number_char (show_int i @ take (63 - length (show_int i)) post) = show_int i"
    using assms show_int_chars by (intro takeWhile_append_stop) (auto simp: hd_take)
  moreover have "map (\<lambda>c. if c = CHR ''.'' then get_decimal_point else c) (show_int i) = show_int i"
    using show_int_chars by (intro map_idI) (auto simp: get_decimal_point_def)
  ultimately show ?thesis by (simp add: number_c_string_def)
qed

lemma show_int_nonempty [simp]: "show_int i \<noteq> []"
  by (simp add: show_int_def)

lemma parse_number_back:
  assumes b: "buffer_at_offset b = show_int i @ post" and post: "post \<noteq> []" "\<not> number_char (hd post)"
    and i: "INT_MIN \<le> i" "i \<le> INT_MAX"
  shows "parse_number (Item ty vs vi vd nm cs) b = Some (Some (Item cJSON_Number vs i (Fin (of_int i)) nm cs), seek b post)"
proof -
  have "\<bar>i\<bar> < 2 ^ 53" using i by (simp add: INT_MIN_def INT_MAX_def)
  then have "strtod (number_c_string (buffer_at_offset b)) = (Fin (of_int i), length (show_int i))"
    unfolding b number_c_string_show [OF show_int_length [OF i] post] by (rule strtod_show_int)
  then show ?thesis
    using int_of_dbl_int [OF i] advance [OF b] by (simp add: parse_number_def)
qed

section \<open>Values\<close>

text \<open>
  The items for which the round trip is exact: integers in the range of \<open>int\<close>, the fields that the type
  does not use as the parser leaves them, and at most \<open>k\<close> levels of nesting.
\<close>

fun canon :: "nat \<Rightarrow> cJSON \<Rightarrow> bool" where
  "canon k (Item ty vs vi vd nm cs) \<longleftrightarrow>
     text_ok vs \<and> text_ok nm \<and> (vs \<noteq> None \<longleftrightarrow> ty = cJSON_String) \<and>
     (if ty = cJSON_Number then vd = Fin (of_int vi) \<and> INT_MIN \<le> vi \<and> vi \<le> INT_MAX
      else vd = Fin 0 \<and> vi = (if ty = cJSON_True then 1 else 0)) \<and>
     (ty \<in> {cJSON_False, cJSON_True, cJSON_NULL, cJSON_Number, cJSON_String} \<and> cs = [] \<or>
      0 < k \<and> ty = cJSON_Array \<and> list_all (\<lambda>c. canon (k - 1) c \<and> cname c = None) cs \<or>
      0 < k \<and> ty = cJSON_Object \<and> list_all (\<lambda>c. canon (k - 1) c \<and> cname c \<noteq> None) cs)"

declare canon.simps [simp del]

text \<open>\<open>reads pv f d D c\<close>: where the text of \<open>c\<close> stands, \<open>pv\<close> reads \<open>c\<close>.\<close>

definition visible :: "string \<Rightarrow> bool" where
  "visible t \<longleftrightarrow> t \<noteq> [] \<and> 32 < ord_c (hd t)"

definition reads :: "value_parser \<Rightarrow> bool \<Rightarrow> nat \<Rightarrow> nat \<Rightarrow> cJSON \<Rightarrow> bool" where
  "reads pv f d D c \<longleftrightarrow> (\<forall>ty b t post. json_text f d c = Some t \<longrightarrow> buffer_at_offset b = t @ post \<longrightarrow>
     post \<noteq> [] \<longrightarrow> \<not> number_char (hd post) \<longrightarrow> (\<forall>n. can_alloc (hooks b) n) \<longrightarrow> depth b = D \<longrightarrow>
     pv (Item ty None 0 (Fin 0) (cname c) []) b = Some (Some c, seek b post))"

lemma readsD:
  assumes "reads pv f d D c" "json_text f d c = Some t" "buffer_at_offset b = t @ post" "post \<noteq> []"
    "\<not> number_char (hd post)" "\<forall>n. can_alloc (hooks b) n" "depth b = D"
  shows "pv (Item ty None 0 (Fin 0) (cname c) []) b = Some (Some c, seek b post)"
  using assms unfolding reads_def by blast

lemma New_Item_ok: "\<forall>n. can_alloc h n \<Longrightarrow> cJSON_New_Item h l k = Some (Item cJSON_Invalid None 0 (Fin 0) None [])"
  by (simp add: cJSON_New_Item_def new_item_def)

lemma visible_split: "visible t \<Longrightarrow> \<exists>c r. t = c # r \<and> 32 < ord_c c"
  by (cases t) (auto simp: visible_def)

lemma skip_to_visible:
  assumes "buffer_at_offset b = ws @ r" "\<forall>x \<in> set ws. ord_c x \<le> 32" "visible r"
  shows "buffer_skip_whitespace b = seek b r"
  using skip_to [of b ws "hd r" "tl r"] assms by (auto simp: visible_def)

lemma visible_append: "visible t \<Longrightarrow> visible (t @ r)"
  by (auto simp: visible_def)

lemma elems_back:
  assumes "\<forall>c \<in> set cs. reads pv f d D c \<and> cname c = None" "cs \<noteq> []" "elems_text f d cs = Some ts"
    "buffer_at_offset b = x # ws @ ts @ CHR '']'' # post" "\<forall>x \<in> set ws. ord_c x \<le> 32" "length cs \<le> m"
    "\<forall>n. can_alloc (hooks b) n" "depth b = D" "\<forall>c \<in> set cs. \<forall>t. json_text f d c = Some t \<longrightarrow> visible t"
  shows "parse_elems pv m acc b = Some (Some (acc @ cs), seek b (CHR '']'' # post))"
  using assms
proof (induction cs arbitrary: b x ws ts acc m)
  case (Cons c cs)
  define tail where "tail = CHR '']'' # post"
  obtain t ts' where t: "json_text f d c = Some t" "elems_text f d cs = Some ts'"
    "ts = t @ (if cs \<noteq> [] then (if f then '', '' else '','') else []) @ ts'"
    using Cons.prems(3) by (auto split: option.splits)
  define r where "r = (if cs \<noteq> [] then (if f then '', '' else '','') else []) @ ts' @ tail"
  have b: "buffer_at_offset b = (x # ws) @ t @ r" using Cons.prems(4) t by (simp add: r_def tail_def)
  have vt: "visible t" using Cons.prems(9) t(1) by simp
  have vr: "visible r \<and> \<not> number_char (hd r)"
    using t(2) by (cases "cs = []") (auto simp: r_def tail_def visible_def number_char_def is_digit_def)
  obtain m' where m: "m = Suc m'" using Cons.prems(6) by (cases m) auto
  have b1: "buffer_skip_whitespace (b\<lparr>offset := Suc (offset b)\<rparr>) = seek b (t @ r)"
  proof -
    have e: "b\<lparr>offset := Suc (offset b)\<rparr> = seek b (ws @ t @ r)" using b by (intro advance1) simp
    have "buffer_at_offset (seek b (ws @ t @ r)) = ws @ t @ r" using b by (intro rest_seek [of b "[x]"]) simp
    then show ?thesis unfolding e
      using skip_to_visible [of "seek b (ws @ t @ r)" ws "t @ r"] Cons.prems(5) visible_append [OF vt] by simp
  qed
  have r1: "buffer_at_offset (seek b (t @ r)) = t @ r" by (rule rest_seek [OF b])
  have pv: "pv (Item cJSON_Invalid None 0 (Fin 0) None []) (seek b (t @ r)) = Some (Some c, seek b r)"
    using readsD [of pv f d D c t "seek b (t @ r)" r cJSON_Invalid] Cons.prems t r1 vr by (auto simp: visible_def)
  have r2: "buffer_at_offset (seek b r) = r" using rest_seek [of b "(x # ws) @ t" r] b by simp
  have sk: "buffer_skip_whitespace (seek b r) = seek b r"
    using skip_to_visible [of "seek b r" "[]" r] r2 vr by simp
  have step: "parse_elems pv m acc b =
      (if next_is (seek b r) (CHR '','') then parse_elems pv m' (acc @ [c]) (seek b r) else Some (Some (acc @ [c]), seek b r))"
    using New_Item_ok [OF Cons.prems(7)] b1 pv sk unfolding m by simp
  show ?case
  proof (cases "cs = []")
    case True
    then have "r = tail" using t(2) by (simp add: r_def)
    then show ?thesis unfolding step using True r2 by (simp add: next_is_rest tail_def)
  next
    case False
    define ws' where "ws' = (if f then [CHR 0x20] else [])"
    have r: "r = CHR '','' # ws' @ ts' @ tail" using False by (simp add: r_def ws'_def)
    have "parse_elems pv m' (acc @ [c]) (seek b r) = Some (Some ((acc @ [c]) @ cs), seek (seek b r) (CHR '']'' # post))"
    proof (rule Cons.IH)
      show "buffer_at_offset (seek b r) = CHR '','' # ws' @ ts' @ CHR '']'' # post"
        using r2 unfolding r tail_def .
    qed (use Cons.prems t False m in \<open>auto simp: ws'_def\<close>)
    then show ?thesis unfolding step using r2 r by (simp add: next_is_rest)
  qed
qed simp


lemma members_lead:
  "members_text f d (c # cs) = Some ts \<Longrightarrow>
     ts = (if f then replicate d (CHR 0x09) else []) @ drop (if f then d else 0) ts"
  by (auto split: option.splits)

lemma members_back:
  assumes "\<forall>c \<in> set cs. reads pv f d D c \<and> cname c \<noteq> None \<and> text_ok (cname c)" "cs \<noteq> []"
    "members_text f d cs = Some ts"
    "buffer_at_offset b = x # ws @ drop (if f then d else 0) ts @ ws' @ CHR ''}'' # post"
    "\<forall>x \<in> set ws. ord_c x \<le> 32" "\<forall>x \<in> set ws'. ord_c x \<le> 32" "length cs \<le> m"
    "\<forall>n. can_alloc (hooks b) n" "depth b = D" "\<forall>c \<in> set cs. \<forall>t. json_text f d c = Some t \<longrightarrow> visible t"
  shows "parse_members pv m acc b = Some (Some (acc @ cs), seek b (CHR ''}'' # post))"
  using assms
proof (induction cs arbitrary: b x ws ts acc m)
  case (Cons c cs)
  define tail where "tail = ws' @ CHR ''}'' # post"
  define nl where "nl = (if f then [CHR 0x0A] else [])"
  define co where "co = (if f then [CHR 0x09] else [])"
  obtain nm where nm: "cname c = Some nm" "no_nul nm" using Cons.prems(1) by (auto simp: text_ok_def)
  obtain t ts' where t: "json_text f d c = Some t" "members_text f d cs = Some ts'"
    "drop (if f then d else 0) ts = quoted (Some nm) @ CHR '':'' # co @ t @ (if cs \<noteq> [] then '','' else []) @ nl @ ts'"
    using Cons.prems(3) nm by (auto simp: co_def nl_def split: option.splits)
  define r where "r = (if cs \<noteq> [] then '','' else []) @ nl @ ts' @ tail"
  have b: "buffer_at_offset b = (x # ws) @ quoted (Some nm) @ CHR '':'' # co @ t @ r"
    using Cons.prems(4) t by (simp add: r_def tail_def)
  have vt: "visible t" using Cons.prems(10) t(1) by simp
  have vq: "visible (quoted (Some nm) @ u)" for u by (simp add: quoted_def visible_def)
  have hr: "r \<noteq> [] \<and> \<not> number_char (hd r)"
  proof -
    have "\<not> number_char z" if "ord_c z \<le> 32" for z
      using that by (auto simp: number_char_def is_digit_def)
    moreover have "\<not> number_char (CHR ''}'')" "\<not> number_char (CHR '','')"
      by (simp_all add: number_char_def is_digit_def)
    moreover have "ord_c (CHR 0x0A) \<le> 32" by simp
    ultimately show ?thesis
      using t(2) Cons.prems(6) by (cases "cs = []"; cases f; cases ws') (auto simp: r_def tail_def nl_def)
  qed
  obtain m' where m: "m = Suc m'" using Cons.prems(7) by (cases m) auto
  have acc1: "can_access_at_index b (Suc 0)" unfolding access_iff b by (simp add: quoted_def)
  let ?b1 = "seek b (quoted (Some nm) @ CHR '':'' # co @ t @ r)"
  let ?b2 = "seek b (CHR '':'' # co @ t @ r)"
  have b1: "buffer_skip_whitespace (b\<lparr>offset := Suc (offset b)\<rparr>) = ?b1"
  proof -
    let ?u = "ws @ quoted (Some nm) @ CHR '':'' # co @ t @ r"
    have e: "b\<lparr>offset := Suc (offset b)\<rparr> = seek b ?u" using b by (intro advance1) simp
    have "buffer_at_offset (seek b ?u) = ?u" using b by (intro rest_seek [of b "[x]"]) simp
    then show ?thesis unfolding e
      using skip_to_visible [of "seek b ?u" ws] Cons.prems(5) vq by simp
  qed
  have r1: "buffer_at_offset ?b1 = quoted (Some nm) @ CHR '':'' # co @ t @ r" by (rule rest_seek [OF b])
  have r2: "buffer_at_offset ?b2 = CHR '':'' # co @ t @ r"
    using rest_seek [of b "(x # ws) @ quoted (Some nm)"] b by simp
  have s: "parse_string ?b1 = Some (Some nm, ?b2)"
    using parse_string_back [OF r1 nm(2)] Cons.prems(8) by simp
  have sk2: "buffer_skip_whitespace ?b2 = ?b2"
    using skip_to_visible [of ?b2 "[]"] r2 by (simp add: visible_def)
  let ?b3 = "seek b (t @ r)"
  have b3: "buffer_skip_whitespace (?b2\<lparr>offset := Suc (offset ?b2)\<rparr>) = ?b3"
  proof -
    have e: "?b2\<lparr>offset := Suc (offset ?b2)\<rparr> = seek b (co @ t @ r)" using advance1 [OF r2] by simp
    have "buffer_at_offset (seek b (co @ t @ r)) = co @ t @ r"
      using rest_seek [of ?b2 "[CHR '':'']"] r2 by simp
    then show ?thesis unfolding e
      using skip_to_visible [of "seek b (co @ t @ r)" co "t @ r"] visible_append [OF vt] by (simp add: co_def)
  qed
  have r3: "buffer_at_offset ?b3 = t @ r"
    using rest_seek [of b "(x # ws) @ quoted (Some nm) @ CHR '':'' # co" "t @ r"] b by simp
  have pv: "pv (Item cJSON_String None 0 (Fin 0) (Some nm) []) ?b3 = Some (Some c, seek b r)"
    using readsD [of pv f d D c t ?b3 r cJSON_String] Cons.prems t r3 hr nm by auto
  have r4: "buffer_at_offset (seek b r) = r"
    using rest_seek [of ?b3 t r] r3 by simp
  have step: "parse_members pv m acc b =
      (let b = buffer_skip_whitespace (seek b r) in
       if next_is b (CHR '','') then parse_members pv m' (acc @ [c]) b else Some (Some (acc @ [c]), b))"
    using New_Item_ok [OF Cons.prems(8)] acc1 b1 s sk2 r2 b3 pv unfolding m by (simp add: next_is_rest)
  show ?case
  proof (cases "cs = []")
    case True
    have "buffer_skip_whitespace (seek b r) = seek b (CHR ''}'' # post)"
      using skip_to_visible [of "seek b r" "nl @ ws'" "CHR ''}'' # post"] r4 t(2) True Cons.prems(6)
      by (auto simp: r_def tail_def visible_def nl_def)
    moreover have "buffer_at_offset (seek b (CHR ''}'' # post)) = CHR ''}'' # post"
      using rest_seek [of "seek b r" "nl @ ws'" "CHR ''}'' # post"] r4 t(2) True by (simp add: r_def tail_def)
    ultimately show ?thesis unfolding step using True by (simp add: next_is_rest Let_def)
  next
    case False
    define lead where "lead = (if f then replicate d (CHR 0x09) else [])"
    have l: "ts' = lead @ drop (if f then d else 0) ts'"
      using members_lead t(2) False unfolding lead_def by (cases cs) auto
    have r: "r = CHR '','' # nl @ ts' @ tail" using False by (simp add: r_def)
    have sk: "buffer_skip_whitespace (seek b r) = seek b r"
      using skip_to_visible [of "seek b r" "[]" r] r4 r by (simp add: visible_def)
    have r5: "buffer_at_offset (seek b r) =
        CHR '','' # (nl @ lead) @ drop (if f then d else 0) ts' @ ws' @ CHR ''}'' # post"
      using r4 unfolding r tail_def by (subst (asm) l) simp
    have "parse_members pv m' (acc @ [c]) (seek b r) = Some (Some ((acc @ [c]) @ cs), seek (seek b r) (CHR ''}'' # post))"
      by (rule Cons.IH [OF _ False t(2) r5])
        (use Cons.prems False m in \<open>auto simp: nl_def lead_def\<close>)
    then show ?thesis unfolding step using r4 r sk by (simp add: next_is_rest Let_def)
  qed
qed simp

lemma leave: "buffer_at_offset b = t @ c # r \<Longrightarrow> b\<lparr>offset := Suc (offset (seek b (c # r)))\<rparr> = seek b r"
  using rest_split [of b t "c # r"] by (simp add: seek_def)

lemma elems_text_length:
  "elems_text f d cs = Some ts \<Longrightarrow> \<forall>c \<in> set cs. \<forall>t. json_text f d c = Some t \<longrightarrow> visible t \<and> P t \<Longrightarrow>
     length cs \<le> length ts"
proof (induction cs arbitrary: ts)
  case (Cons c cs)
  then show ?case by (cases "json_text f d c") (force split: option.splits simp: visible_def Suc_le_eq)+
qed simp

lemma members_text_length: "members_text f d cs = Some ts \<Longrightarrow> length cs \<le> length ts"
  by (induction cs arbitrary: ts) (fastforce split: option.splits simp: quoted_def)+


lemma array_back:
  assumes cs: "\<forall>c \<in> set cs. reads pv f (Suc d) (Suc (depth b)) c \<and> cname c = None"
    "\<forall>c \<in> set cs. \<forall>t. json_text f (Suc d) c = Some t \<longrightarrow> visible t \<and> hd t \<noteq> CHR '']''"
    and ts: "elems_text f (Suc d) cs = Some ts" and b: "buffer_at_offset b = CHR ''['' # ts @ CHR '']'' # post"
    and d: "depth b < CJSON_NESTING_LIMIT" and h: "\<forall>n. can_alloc (hooks b) n"
  shows "parse_array pv (Item ty None vi vd nm []) b = Some (Some (Item cJSON_Array None vi vd nm cs), seek b post)"
proof -
  let ?b = "b\<lparr>depth := Suc (depth b)\<rparr>"
  let ?r = "ts @ CHR '']'' # post"
  have c: "byte_at ?b 0 = Some (CHR ''['')"
    using rest_nth [of 0 b] rest_split [of b "[]"] b by (auto simp: byte_at_def)
  have vr: "visible ?r \<and> (cs \<noteq> [] \<longrightarrow> hd ?r \<noteq> CHR '']'')"
    using ts cs(2) by (cases cs) (auto split: option.splits simp: visible_def)
  have b1: "buffer_skip_whitespace (?b\<lparr>offset := Suc (offset b)\<rparr>) = seek ?b ?r"
  proof -
    have "?b\<lparr>offset := Suc (offset b)\<rparr> = seek ?b ?r" using advance1 [of ?b] b by simp
    moreover have "buffer_at_offset (seek ?b ?r) = ?r" using rest_seek [of ?b "[CHR ''['']"] b by simp
    ultimately show ?thesis using skip_to_visible [of "seek ?b ?r" "[]" ?r] vr by simp
  qed
  have r1: "buffer_at_offset (seek ?b ?r) = ?r" using rest_seek [of ?b "[CHR ''['']"] b by simp
  have out: "(seek ?b (CHR '']'' # post))\<lparr>depth := depth b, offset := offset (seek ?b (CHR '']'' # post)) + 1\<rparr> = seek b post"
    using leave [of b "CHR ''['' # ts" "CHR '']''" post] b by simp
  show ?thesis
  proof (cases "cs = []")
    case True
    then show ?thesis using d c b1 r1 out ts by (simp add: parse_array_def next_is_rest)
  next
    case False
    have n: "\<not> next_is (seek ?b ?r) (CHR '']'')" "can_access_at_index (seek ?b ?r) 0"
      unfolding next_is_rest access_iff r1 using vr False by (auto simp: visible_def)
    have sb: "(seek ?b ?r)\<lparr>offset := offset (seek ?b ?r) - Suc 0\<rparr> = ?b"
      using b rest_split [of b "[CHR ''['']" ?r] by (cases b) (simp add: seek_def)
    have "parse_elems pv (length (content b)) [] ?b = Some (Some ([] @ cs), seek ?b (CHR '']'' # post))"
    proof (rule elems_back [OF _ False ts])
      show "buffer_at_offset ?b = CHR ''['' # [] @ ts @ CHR '']'' # post" using b by simp
      have "length cs \<le> length ts" using ts cs(2) by (rule elems_text_length)
      then show "length cs \<le> length (content b)" using rest_split [of b "[]"] b by simp
    qed (use cs h in auto)
    moreover have "next_is (seek ?b (CHR '']'' # post)) (CHR '']'')"
      unfolding next_is_rest using rest_seek [of ?b "CHR ''['' # ts"] b by simp
    ultimately show ?thesis using d c b1 n sb out by (simp add: parse_array_def Let_def)
  qed
qed

lemma object_back:
  assumes cs: "\<forall>c \<in> set cs. reads pv f (Suc d) (Suc (depth b)) c \<and> cname c \<noteq> None \<and> text_ok (cname c)"
    "\<forall>c \<in> set cs. \<forall>t. json_text f (Suc d) c = Some t \<longrightarrow> visible t"
    and ts: "members_text f (Suc d) cs = Some ts"
    and b: "buffer_at_offset b = CHR ''{'' # (if f then [CHR 0x0A] else []) @ ts @
      (if f then replicate d (CHR 0x09) else []) @ CHR ''}'' # post"
    and d: "depth b < CJSON_NESTING_LIMIT" and h: "\<forall>n. can_alloc (hooks b) n"
  shows "parse_object pv (Item ty None vi vd nm []) b = Some (Some (Item cJSON_Object None vi vd nm cs), seek b post)"
proof -
  let ?b = "b\<lparr>depth := Suc (depth b)\<rparr>"
  let ?body = "drop (if f then Suc d else 0) ts"
  define ws' where "ws' = (if f then replicate d (CHR 0x09) else [])"
  define lead where "lead = (if f then [CHR 0x0A] else []) @ (if f \<and> cs \<noteq> [] then replicate (Suc d) (CHR 0x09) else [])"
  have ws: "\<forall>x \<in> set ws'. ord_c x \<le> 32" "\<forall>x \<in> set lead. ord_c x \<le> 32" by (auto simp: ws'_def lead_def)
  let ?r = "?body @ ws' @ CHR ''}'' # post"
  have b': "buffer_at_offset b = CHR ''{'' # lead @ ?body @ ws' @ CHR ''}'' # post"
    using b members_lead [of f "Suc d"] ts by (cases cs) (auto simp: lead_def ws'_def)
  have c: "next_is ?b (CHR ''{'')" unfolding next_is_rest using b by simp
  have r0: "buffer_at_offset (?b\<lparr>offset := Suc (offset b)\<rparr>) = lead @ ?r"
    using advance1 [of ?b] rest_seek [of ?b "[CHR ''{'']"] b' by simp
  have s0: "seek (?b\<lparr>offset := Suc (offset b)\<rparr>) u = seek ?b u" for u by simp
  have out: "(seek ?b (CHR ''}'' # post))\<lparr>depth := depth b, offset := offset (seek ?b (CHR ''}'' # post)) + 1\<rparr> = seek b post"
    using leave [of b "CHR ''{'' # lead @ ?body @ ws'" "CHR ''}''" post] b' by simp
  have rend: "next_is (seek ?b (CHR ''}'' # post)) (CHR ''}'')"
    unfolding next_is_rest using rest_seek [of ?b "CHR ''{'' # lead @ ?body @ ws'"] b' by simp
  show ?thesis
  proof (cases "cs = []")
    case True
    then have "buffer_skip_whitespace (?b\<lparr>offset := Suc (offset b)\<rparr>) = seek ?b (CHR ''}'' # post)"
      using skip_to_visible [OF _ _ , of "?b\<lparr>offset := Suc (offset b)\<rparr>" "lead @ ws'" "CHR ''}'' # post"] r0 ts ws
      unfolding s0 by (auto simp: visible_def)
    then show ?thesis using True d c out rend by (simp add: parse_object_def Let_def)
  next
    case False
    have vr: "visible ?r \<and> hd ?r \<noteq> CHR ''}''"
      using ts False by (cases cs) (auto simp: visible_def quoted_def split: option.splits)
    have b1: "buffer_skip_whitespace (?b\<lparr>offset := Suc (offset b)\<rparr>) = seek ?b ?r"
      using skip_to_visible [OF r0 ws(2)] vr unfolding s0 by simp
    have r1: "buffer_at_offset (seek ?b ?r) = ?r" using rest_seek [of ?b "CHR ''{'' # lead"] b' by simp
    have n: "\<not> next_is (seek ?b ?r) (CHR ''}'')" "can_access_at_index (seek ?b ?r) 0"
      unfolding next_is_rest access_iff r1 using vr by (auto simp: visible_def)
    obtain pre x where px: "CHR ''{'' # lead = pre @ [x]" by (metis list.discI rev_exhaust)
    then have b2: "buffer_at_offset ?b = pre @ x # ?r" using b' by (metis append.assoc append_Cons append_Nil rest_depth)
    let ?b2 = "seek ?b (x # ?r)"
    have sb: "(seek ?b ?r)\<lparr>offset := offset (seek ?b ?r) - Suc 0\<rparr> = ?b2" by (rule step_back [OF b2])
    have "parse_members pv (length (content b)) [] ?b2 = Some (Some ([] @ cs), seek ?b2 (CHR ''}'' # post))"
    proof (rule members_back [OF _ False ts])
      show "buffer_at_offset ?b2 = x # [] @ ?body @ ws' @ CHR ''}'' # post" using rest_seek [OF b2] by simp
      have "length cs \<le> length ts" using ts by (rule members_text_length)
      then show "length cs \<le> length (content b)" using rest_split [of b "[]"] b by simp
    qed (use cs h ws in auto)
    then show ?thesis using d c b1 n sb out rend by (simp add: parse_object_def Let_def)
  qed
qed


lemma canon_small: "INT_MIN \<le> i \<Longrightarrow> i \<le> INT_MAX \<Longrightarrow> \<bar>i\<bar> < 2 ^ 53"
  by (simp add: INT_MIN_def INT_MAX_def)

lemma canon_kinds:
  assumes "canon k (Item ty vs vi vd nm cs)"
  obtains (leaf) "ty \<in> {cJSON_False, cJSON_True, cJSON_NULL}" "cs = []"
    | (number) "ty = cJSON_Number" "cs = []" | (str) "ty = cJSON_String" "cs = []"
    | (arr) "0 < k" "ty = cJSON_Array" "list_all (\<lambda>c. canon (k - 1) c \<and> cname c = None) cs"
    | (obj) "0 < k" "ty = cJSON_Object" "list_all (\<lambda>c. canon (k - 1) c \<and> cname c \<noteq> None) cs"
  using assms unfolding canon.simps by blast

lemma canon_text:
  "canon k it \<Longrightarrow> json_text f d it = Some t \<Longrightarrow> visible t \<and> hd t \<noteq> CHR '']'' \<and> hd t \<noteq> CHR 0xEF"
proof -
  assume c: "canon k it" and t: "json_text f d it = Some t"
  obtain ty vs vi vd nm cs where it: "it = Item ty vs vi vd nm cs" by (cases it)
  have num: "visible (show_int i) \<and> hd (show_int i) \<noteq> CHR '']'' \<and> hd (show_int i) \<noteq> CHR 0xEF" for i
  proof -
    obtain x r where x: "show_int i = x # r" by (cases "show_int i") (auto dest: show_int_nonempty [THEN notE])
    then have "number_char x" using show_int_chars [of x i] by simp
    then show ?thesis by (auto simp: x visible_def number_char_def is_digit_def)
  qed
  have nt: "number_text vd vi = show_int vi" if "ty = cJSON_Number"
    using c that number_text_int [OF canon_small] by (auto simp: it canon.simps)
  from c [unfolded it] show "visible t \<and> hd t \<noteq> CHR '']'' \<and> hd t \<noteq> CHR 0xEF"
  proof (cases rule: canon_kinds)
    case leaf
    then show ?thesis using t by (auto simp: it cJSON_types visible_def)
  next
    case number
    then show ?thesis using t nt num [of vi] by (simp add: it cJSON_types split: if_splits)
  next
    case str
    then show ?thesis using t by (auto simp: it cJSON_types visible_def quoted_def)
  next
    case arr
    then show ?thesis using t by (auto simp: it cJSON_types visible_def)
  next
    case obj
    then show ?thesis using t by (auto simp: it cJSON_types visible_def split: if_splits)
  qed
qed

lemma canon_name: "canon k c \<Longrightarrow> text_ok (cname c)"
  by (cases c) (simp add: canon.simps)

lemma value_back:
  "canon k it \<Longrightarrow> D + k \<le> CJSON_NESTING_LIMIT \<Longrightarrow> k \<le> n \<Longrightarrow> reads (parse_value (Suc n)) f d D it"
proof (induction it arbitrary: k D n d)
  case (Item ty vs vi vd nm cs)
  let ?it = "Item ty vs vi vd nm cs"
  show ?case unfolding reads_def
  proof (intro allI impI)
    fix ty0 b t post
    assume t: "json_text f d ?it = Some t" and b: "buffer_at_offset b = t @ post"
      and post: "post \<noteq> []" "\<not> number_char (hd post)" and h: "\<forall>n. can_alloc (hooks b) n" and D: "depth b = D"
    have c: "text_ok vs" "text_ok nm" "vs \<noteq> None \<longleftrightarrow> ty = cJSON_String"
      "ty = cJSON_Number \<Longrightarrow> vd = Fin (of_int vi) \<and> INT_MIN \<le> vi \<and> vi \<le> INT_MAX"
      "ty \<noteq> cJSON_Number \<Longrightarrow> vd = Fin 0 \<and> vi = (if ty = cJSON_True then 1 else 0)"
      using Item.prems(1) by (auto simp: canon.simps)
    from Item.prems(1) show "parse_value (Suc n) (Item ty0 None 0 (Fin 0) (cname ?it) []) b = Some (Some ?it, seek b post)"
    proof (cases rule: canon_kinds)
      case leaf
      then consider "ty = cJSON_NULL" "t = ''null''" | "ty = cJSON_False" "t = ''false''" | "ty = cJSON_True" "t = ''true''"
        using t by (auto simp: cJSON_types)
      then show ?thesis
      proof cases
        case 1
        then show ?thesis using leaf b c advance [OF b, of 4] by (simp add: cJSON_types starts_rest)
      next
        case 2
        then show ?thesis using leaf b c advance [OF b, of 5] by (simp add: cJSON_types starts_rest)
      next
        case 3
        then show ?thesis using leaf b c advance [OF b, of 4] by (simp add: cJSON_types starts_rest)
      qed
    next
      case number
      have small: "\<bar>vi\<bar> < 2 ^ 53" using c(4) [OF number(1)] canon_small by blast
      have ti: "t = show_int vi"
        using t number c(4) number_text_int [OF small] by (simp add: cJSON_types split: if_splits)
      obtain x r where x: "show_int vi = x # r" by (cases "show_int vi") (auto dest: show_int_nonempty [THEN notE])
      have d: "x = CHR ''-'' \<or> is_digit x"
        using x show_nat_digits [of x "nat vi"] by (auto simp: show_int_def split: if_splits)
      then have nx: "x \<noteq> CHR ''n''" "x \<noteq> CHR ''f''" "x \<noteq> CHR ''t''" "x \<noteq> CHR 0x22"
        by (auto simp: is_digit_def)
      have a: "can_access_at_index b 0" "content b ! offset b = x"
        using rest_nth [of 0 b] unfolding access_iff b ti x by simp_all
      have p: "parse_number (Item ty0 None 0 (Fin 0) nm []) b =
          Some (Some (Item cJSON_Number None vi (Fin (of_int vi)) nm []), seek b post)"
        using b ti post c(4) number by (intro parse_number_back) auto
      show ?thesis
        using c number a d nx p b ti x by (simp add: starts_rest next_is_rest cJSON_types)
    next
      case str
      then obtain s where s: "vs = Some s" "no_nul s" using c by (auto simp: text_ok_def)
      have b': "buffer_at_offset b = quoted (Some s) @ post" using t b str s by (simp add: cJSON_types)
      have "parse_string b = Some (Some s, seek b post)" by (rule parse_string_back [OF b' s(2) h])
      then show ?thesis
        using b' str s c by (simp add: starts_rest next_is_rest quoted_def cJSON_types)
    next
      case arr
      obtain n' where n: "n = Suc n'" using arr Item.prems by (cases n) auto
      obtain ts where ts: "elems_text f (Suc d) cs = Some ts" "t = CHR ''['' # ts @ '']''"
        using t arr by (auto simp: cJSON_types)
      have IH: "reads (parse_value n) f (Suc d) (Suc (depth b)) c" if "c \<in> set cs" "canon (k - 1) c" for c
        unfolding n D by (rule Item.IH [OF that]) (use arr Item.prems n in simp_all)
      have "\<forall>c \<in> set cs. reads (parse_value n) f (Suc d) (Suc (depth b)) c \<and> cname c = None"
        using IH arr(3) canon_name by (auto simp: list_all_iff)
      moreover have "\<forall>c \<in> set cs. \<forall>t. json_text f (Suc d) c = Some t \<longrightarrow> visible t \<and> hd t \<noteq> CHR '']''"
        using arr canon_text by (auto simp: list_all_iff)
      ultimately have "parse_array (parse_value n) (Item ty0 None 0 (Fin 0) nm []) b =
          Some (Some (Item cJSON_Array None 0 (Fin 0) nm cs), seek b post)"
        using ts b arr Item.prems D h by (intro array_back) auto
      then show ?thesis
        using c arr b ts by (simp add: starts_rest next_is_rest access_iff rest_nth [of 0, simplified] is_digit_def cJSON_types)
    next
      case obj
      obtain n' where n: "n = Suc n'" using obj Item.prems by (cases n) auto
      obtain ts where ts: "members_text f (Suc d) cs = Some ts"
        "t = CHR ''{'' # (if f then [CHR 0x0A] else []) @ ts @ (if f then replicate d (CHR 0x09) else []) @ ''}''"
        using t obj by (auto simp: cJSON_types)
      have IH: "reads (parse_value n) f (Suc d) (Suc (depth b)) c" if "c \<in> set cs" "canon (k - 1) c" for c
        unfolding n D by (rule Item.IH [OF that]) (use obj Item.prems n in simp_all)
      have "\<forall>c \<in> set cs. reads (parse_value n) f (Suc d) (Suc (depth b)) c \<and> cname c \<noteq> None \<and> text_ok (cname c)"
        using IH obj(3) canon_name by (auto simp: list_all_iff)
      moreover have "\<forall>c \<in> set cs. \<forall>t. json_text f (Suc d) c = Some t \<longrightarrow> visible t"
        using obj canon_text by (auto simp: list_all_iff)
      ultimately have "parse_object (parse_value n) (Item ty0 None 0 (Fin 0) nm []) b =
          Some (Some (Item cJSON_Object None 0 (Fin 0) nm cs), seek b post)"
        using ts b obj Item.prems D h by (intro object_back) auto
      then show ?thesis
        using c obj b ts by (simp add: starts_rest next_is_rest access_iff rest_nth [of 0, simplified] is_digit_def cJSON_types)
    qed
  qed
qed


section \<open>Properties\<close>

lemma parse_back:
  assumes it: "canon CJSON_NESTING_LIMIT it" "cname it = None" and t: "json_text f 0 it = Some t"
    and h: "\<forall>n. can_alloc h n"
  shows "cJSON_Parse h (Some t) = Some (Some it, length t)"
proof -
  define b where "b = \<lparr>content = t @ [NUL], offset = 0, depth = 0, hooks = h\<rparr>"
  have v: "visible t" using canon_text [OF it(1) t] by simp
  have r: "buffer_at_offset b = t @ [NUL]" by (simp add: b_def buffer_at_offset_def)
  have "\<not> number_char NUL" by (simp add: number_char_def)
  then have pv: "parse_value parse_fuel (Item cJSON_Invalid None 0 (Fin 0) None []) b = Some (Some it, seek b [NUL])"
    using readsD [OF value_back [OF it(1), of 0 CJSON_NESTING_LIMIT f 0] t r] it h
    by (simp add: parse_fuel_def b_def)
  have bom: "skip_utf8_bom b = Some b"
  proof -
    have "take 3 (t @ [NUL]) \<noteq> [CHR 0xEF, CHR 0xBB, CHR 0xBF]"
      using canon_text [OF it(1) t] v by (cases t) (auto simp: visible_def)
    then show ?thesis using r by (simp add: skip_utf8_bom_def b_def)
  qed
  have sk: "buffer_skip_whitespace b = b"
    using skip_to_visible [of b "[]" "t @ [NUL]"] r visible_append [OF v] seek_here [OF r] by simp
  have e: "offset (seek b [NUL]) = length t" by (simp add: seek_def b_def)
  have n: "cJSON_New_Item h 0 0 = Some (Item cJSON_Invalid None 0 (Fin 0) None [])" by (rule New_Item_ok [OF h])
  show ?thesis
    using bom sk pv e unfolding cJSON_Parse_def cJSON_ParseWithOpts_def cJSON_ParseWithLengthOpts_def
    by (simp add: n b_def [symmetric] Let_def)
qed

lemma canon_item_ok: "canon k it \<Longrightarrow> item_ok it"
proof (induction it arbitrary: k)
  case (Item ty vs vi vd nm cs)
  then have "list_all item_ok cs"
    by (cases rule: canon_kinds [OF Item.prems]) (auto simp: list_all_iff)
  then show ?case using Item.prems by (auto simp: canon.simps text_ok_def split: option.splits)
qed

text \<open>
  C7: printing and parsing are inverse. An item with integer numbers, at most \<open>CJSON_NESTING_LIMIT\<close>
  levels deep, that \<open>cJSON_Print\<close> or \<open>cJSON_PrintUnformatted\<close> prints, is what \<open>cJSON_Parse\<close> makes of the
  text: types, names, strings with all their escapes, numbers and the order of the children come
  back, and the parser stops at the end of the text.
\<close>

theorem print_parse_roundtrip:
  assumes "canon CJSON_NESTING_LIMIT it" "cname it = None" "\<forall>n. can_alloc h n"
    and "print (Some it) f h = Some (Some out)"
  shows "\<exists>t. out = t @ [NUL] \<and> cJSON_Parse h (Some t) = Some (Some it, length t)"
proof -
  have "can_alloc h (Buffer_Of 256)" using assms(3) by blast
  from print_outcome [OF canon_item_ok [OF assms(1)] this, of f] assms(3,4)
  obtain t where "json_text f 0 it = Some t" "out = t @ [NUL]" by auto
  then show ?thesis using parse_back [OF assms(1,2) _ assms(3)] by blast
qed

theorem print_parse_roundtrip_witness:
  "\<exists>t. print (Some demo_item) True demo_hooks = Some (Some (t @ [NUL])) \<and>
     cJSON_Parse demo_hooks (Some t) = Some (Some demo_item, length t)"
proof -
  have a: "\<forall>n. can_alloc demo_hooks n" by (simp add: demo_hooks_def)
  have c: "canon CJSON_NESTING_LIMIT demo_item" "cname demo_item = None" "item_ok demo_item"
    by (simp_all add: demo_item_def canon.simps cJSON_types CJSON_NESTING_LIMIT_def text_ok_def no_nul_def
        INT_MIN_def INT_MAX_def)
  have "number_text (Fin 7) 7 = ''7''"
    using number_text_int [of 7] by (simp add: show_int_def show_nat.simps digit_chars)
  then obtain t where t: "json_text True 0 demo_item = Some t" "length t \<le> 100"
    by (simp add: demo_item_def cJSON_types quoted_def escape_text_def escape_char_def)
  have p: "print (Some demo_item) True demo_hooks = Some (Some (t @ [NUL]))"
    using print_text [OF c(3) a t(1)] t(2) by (simp add: IMAX_def)
  show ?thesis using print_parse_roundtrip [OF c(1,2) a p] p by auto
qed

text \<open>Text without quotes, backslashes and NULs.\<close>

definition plain :: "string \<Rightarrow> bool" where
  "plain s \<longleftrightarrow> (\<forall>c \<in> set s. c \<noteq> CHR 0x22 \<and> c \<noteq> CHR 0x5C \<and> c \<noteq> NUL)"

lemma string_end_plain: "plain s \<Longrightarrow> string_end (s @ r) = map_option (\<lambda>(n, k). (n + length s, k)) (string_end r)"
proof (induction s)
  case Nil
  show ?case by (cases "string_end r") auto
next
  case (Cons c s)
  then have "string_end (s @ r) = map_option (\<lambda>(n, k). (n + length s, k)) (string_end r)" by (simp add: plain_def)
  then show ?case using Cons.prems by (cases "string_end r") (auto simp: plain_def)
qed

lemma char_of_0: "char_of (0 :: nat) = NUL"
  by (rule char_eqI) simp

lemma hex_loop_invalid: "\<exists>c \<in> set cs. hex_val c = None \<Longrightarrow> hex_loop i h cs = 0"
  by (induction cs arbitrary: i h) (auto simp: Let_def split: option.splits)

lemma unescape_plain:
  "plain s \<Longrightarrow> length out + length s \<le> cap \<Longrightarrow> unescape cap out (s @ r) = unescape cap (out @ s) r"
proof (induction s arbitrary: out)
  case (Cons c s)
  then have "unescape cap (out @ [c]) (s @ r) = unescape cap ((out @ [c]) @ s) r"
    by (intro Cons.IH) (auto simp: plain_def)
  then show ?case using Cons.prems by (subst unescape.simps) (simp add: put_fits plain_def)
qed simp

lemma unescape_end: "length out < cap \<Longrightarrow> unescape cap out [] = Some (Inr out)"
  by (subst unescape.simps) (simp add: put_fits)

lemma unescape_unicode:
  "utf16_literal_to_utf8 (CHR 0x5C # CHR ''u'' # r) = (6, [c]) \<Longrightarrow> length out < cap \<Longrightarrow>
     unescape cap out (CHR 0x5C # CHR ''u'' # r) = unescape cap (out @ [c]) (drop 4 r)"
  by (subst unescape.simps) (simp add: put_fits simple_escape_def Let_def)

text \<open>
  An escape \<open>\u\<close> with a character that is no hexadecimal digit is not an error: \<open>parse_hex4\<close> gives 0
  for it, the string gets a NUL there, and as a C string it ends before it. Any text between the
  quotes is accepted up to the point, and what follows the escape is lost without a trace.
\<close>

theorem parse_invalid_unicode:
  assumes "plain s" "plain rest" "length ds = 4" "plain ds" "\<exists>c \<in> set ds. hex_val c = None"
    and h: "\<forall>n. can_alloc h n"
  shows "\<exists>pos. cJSON_Parse h (Some (CHR 0x22 # s @ CHR 0x5C # CHR ''u'' # ds @ rest @ [CHR 0x22])) =
     Some (Some (Item cJSON_String (Some s) 0 (Fin 0) None []), pos)"
proof -
  define w where "w = s @ CHR 0x5C # CHR ''u'' # ds @ rest"
  define b where "b = \<lparr>content = CHR 0x22 # w @ [CHR 0x22, NUL], offset = 0, depth = 0, hooks = h\<rparr>"
  have r: "buffer_at_offset b = CHR 0x22 # w @ [CHR 0x22, NUL]" by (simp add: b_def buffer_at_offset_def)
  have e: "string_end (w @ [CHR 0x22, NUL]) = Some (length w, 1)"
    using assms(1-4) by (simp add: w_def string_end_plain)
  have lit: "utf16_literal_to_utf8 (CHR 0x5C # CHR ''u'' # ds @ rest) = (6, [NUL])"
    using assms(3,5) by (simp add: utf16_literal_to_utf8_def parse_hex4_def hex_loop_invalid utf8_encode_ascii char_of_0 Let_def)
  have u: "unescape (length w + 1) [] w = Some (Inr (s @ NUL # rest))"
    using assms(1-4) lit unescape_plain [of s "[]"] unescape_plain [of rest "s @ [NUL]" _ "[]"]
    by (simp add: w_def unescape_unicode unescape_end)
  have "takeWhile (\<lambda>c. c \<noteq> NUL) (s @ NUL # rest) = s"
    using assms(1) by (intro takeWhile_append_stop) (auto simp: plain_def)
  then have s: "parse_string b = Some (Some s, b\<lparr>offset := length w + 2\<rparr>)"
    using e u h by (simp add: parse_string_def byte_at_def b_def Let_def)
  have bom: "skip_utf8_bom b = Some b" using r by (simp add: skip_utf8_bom_def b_def)
  have sk: "buffer_skip_whitespace b = b"
    using skip_to [of b "[]"] r seek_here [OF r] by simp
  have pv: "parse_value parse_fuel (Item cJSON_Invalid None 0 (Fin 0) None []) b =
      Some (Some (Item cJSON_String (Some s) 0 (Fin 0) None []), b\<lparr>offset := length w + 2\<rparr>)"
    using s r by (simp add: parse_fuel_def starts_rest next_is_rest)
  show ?thesis
    using bom sk pv New_Item_ok [OF h] unfolding cJSON_Parse_def cJSON_ParseWithOpts_def cJSON_ParseWithLengthOpts_def
    by (simp add: b_def w_def Let_def)
qed

theorem parse_invalid_unicode_witness:
  "\<exists>pos. cJSON_Parse demo_hooks (Some (CHR 0x22 # ''ab'' @ CHR 0x5C # CHR ''u'' # ''00ZZ'' @ ''cd'' @ [CHR 0x22])) =
     Some (Some (Item cJSON_String (Some ''ab'') 0 (Fin 0) None []), pos)"
  by (rule parse_invalid_unicode) (simp_all add: plain_def hex_val_def demo_hooks_def)

end
