(* ===== verification/Cjson_Minify.thy ===== *)
theory Cjson_Minify
  imports Cjson_Print
begin

text \<open>
  \<open>cJSON_Minify\<close>: white space and comments are removed from a text in place. The memory behind \<open>json\<close> is a list of
  characters, and the two pointers are positions in it. Against it stands \<open>minify\<close> on the text itself.
\<close>

section \<open>The code\<close>

text \<open>\<open>blank\<close> are the four cases of white space of the switch.\<close>

definition blank :: "char \<Rightarrow> bool" where
  "blank c \<longleftrightarrow> c \<in> {CHR '' '', CHR 0x09, CHR 0x0D, CHR 0x0A}"

definition peek :: "string \<Rightarrow> nat \<Rightarrow> char option" where
  "peek mem i = (if i < length mem then Some (mem ! i) else None)"

definition poke :: "nat \<Rightarrow> char \<Rightarrow> string \<Rightarrow> string option" where
  "poke i c mem = (if i < length mem then Some (mem[i := c]) else None)"

text \<open>The loops of the two \<open>skip\<close> functions, which give the new position of \<open>input\<close>.\<close>

function oneline_loop :: "string \<Rightarrow> nat \<Rightarrow> nat option" where
  "oneline_loop mem i =
     (if length mem \<le> i then None
      else if mem ! i = NUL then Some i
      else if mem ! i = CHR 0x0A then Some (i + 1)
      else oneline_loop mem (i + 1))"
  by pat_completeness auto
termination by (relation "measure (\<lambda>(mem, i). length mem - i)") auto

definition skip_oneline_comment :: "string \<Rightarrow> nat \<Rightarrow> nat option" where
  "skip_oneline_comment mem i = oneline_loop mem (i + 2)"

function multiline_loop :: "string \<Rightarrow> nat \<Rightarrow> nat option" where
  "multiline_loop mem i =
     (if length mem \<le> i then None
      else if mem ! i = NUL then Some i
      else if mem ! i = CHR ''*'' then
        (if length mem \<le> i + 1 then None
         else if mem ! (i + 1) = CHR ''/'' then Some (i + 2)
         else multiline_loop mem (i + 1))
      else multiline_loop mem (i + 1))"
  by pat_completeness auto
termination by (relation "measure (\<lambda>(mem, i). length mem - i)") auto

definition skip_multiline_comment :: "string \<Rightarrow> nat \<Rightarrow> nat option" where
  "skip_multiline_comment mem i = multiline_loop mem (i + 2)"

lemma poke_length: "poke i c mem = Some mem' \<Longrightarrow> length mem' = length mem"
  by (auto simp: poke_def split: if_splits)

text \<open>The loop of \<open>minify_string\<close>: memory, \<open>input\<close> and \<open>output\<close>. What it reads comes from the memory it has written.\<close>

function string_loop :: "string \<Rightarrow> nat \<Rightarrow> nat \<Rightarrow> (string \<times> nat \<times> nat) option" where
  "string_loop mem input output =
     (if length mem \<le> input then None
      else if mem ! input = NUL then Some (mem, input, output)
      else
        (case poke output (mem ! input) mem of
           None \<Rightarrow> None
         | Some mem \<Rightarrow>
             if mem ! input = CHR 0x22 then do { mem \<leftarrow> poke output (CHR 0x22) mem; Some (mem, input + 1, output + 1) }
             else if mem ! input = CHR 0x5C then
               (case peek mem (input + 1) of
                  None \<Rightarrow> None
                | Some d \<Rightarrow>
                    if d = CHR 0x22 then
                      (case poke (output + 1) d mem of None \<Rightarrow> None | Some mem \<Rightarrow> string_loop mem (input + 2) (output + 2))
                    else string_loop mem (input + 1) (output + 1))
             else string_loop mem (input + 1) (output + 1)))"
  by pat_completeness auto
termination
  by (relation "measure (\<lambda>(mem, i, _). length mem - i)") (auto dest!: poke_length)

declare oneline_loop.simps [simp del] multiline_loop.simps [simp del] string_loop.simps [simp del]

definition minify_string :: "string \<Rightarrow> nat \<Rightarrow> nat \<Rightarrow> (string \<times> nat \<times> nat) option" where
  "minify_string mem input output = do {
     c \<leftarrow> peek mem input;
     mem \<leftarrow> poke output c mem;
     string_loop mem (input + 1) (output + 1) }"

lemma string_loop_moves: "string_loop mem i j = Some (mem', i', j') \<Longrightarrow> length mem' = length mem \<and> i \<le> i'"
proof (induction "length mem - i" arbitrary: mem i j rule: less_induct)
  case less
  have IH: "string_loop m k l = Some (mem', i', j') \<Longrightarrow> length m = length mem \<Longrightarrow> i < k \<Longrightarrow> i < length mem \<Longrightarrow>
      length mem' = length mem \<and> i \<le> i'" for m k l
    using less.hyps [of m k l] by fastforce
  show ?case
    using less.prems
    by (subst (asm) string_loop.simps)
      (auto simp: poke_length dest!: IH dest: poke_length split: if_splits option.splits bind_splits)
qed

lemma oneline_loop_moves: "oneline_loop mem i = Some j \<Longrightarrow> i \<le> j"
  by (induction mem i rule: oneline_loop.induct) (subst (asm) (2) oneline_loop.simps, fastforce split: if_splits)

lemma multiline_loop_moves: "multiline_loop mem i = Some j \<Longrightarrow> i \<le> j"
  by (induction mem i rule: multiline_loop.induct) (subst (asm) (3) multiline_loop.simps, fastforce split: if_splits)

lemma minify_string_moves: "minify_string mem i j = Some (mem', i', j') \<Longrightarrow> length mem' = length mem \<and> i < i'"
  by (auto simp: minify_string_def split: bind_splits dest!: string_loop_moves poke_length)

function minify_loop :: "string \<Rightarrow> nat \<Rightarrow> nat \<Rightarrow> (string \<times> nat) option" where
  "minify_loop mem json into =
     (if length mem \<le> json then None
      else if mem ! json = NUL then Some (mem, into)
      else if blank (mem ! json) then minify_loop mem (json + 1) into
      else if mem ! json = CHR ''/'' then
        (case peek mem (json + 1) of
           None \<Rightarrow> None
         | Some d \<Rightarrow>
             if d = CHR ''/'' then
               (case skip_oneline_comment mem json of None \<Rightarrow> None | Some json \<Rightarrow> minify_loop mem json into)
             else if d = CHR ''*'' then
               (case skip_multiline_comment mem json of None \<Rightarrow> None | Some json \<Rightarrow> minify_loop mem json into)
             else minify_loop mem (json + 1) into)
      else if mem ! json = CHR 0x22 then
        (case minify_string mem json into of None \<Rightarrow> None | Some (mem, json, into) \<Rightarrow> minify_loop mem json into)
      else
        (case poke into (mem ! json) mem of None \<Rightarrow> None | Some mem \<Rightarrow> minify_loop mem (json + 1) (into + 1)))"
  by pat_completeness auto
termination
  by (relation "measure (\<lambda>(mem, i, _). length mem - i)")
    (auto simp: skip_oneline_comment_def skip_multiline_comment_def
      dest!: poke_length minify_string_moves oneline_loop_moves multiline_loop_moves)

declare minify_loop.simps [simp del]

text \<open>The whole function, on the block that \<open>json\<close> points into, which it overwrites.\<close>

definition cJSON_Minify :: "string option \<Rightarrow> string option option" where
  "cJSON_Minify json =
     (case json of
        None \<Rightarrow> Some None
      | Some mem \<Rightarrow> do {
          (mem, into) \<leftarrow> minify_loop mem 0 0;
          mem \<leftarrow> poke into NUL mem;
          Some (Some mem) })"


section \<open>The text it leaves\<close>

fun after_line :: "string \<Rightarrow> string" where
  "after_line [] = []"
| "after_line (c # s) = (if c = CHR 0x0A then s else after_line s)"

fun after_comment :: "string \<Rightarrow> string" where
  "after_comment (c # d # s) = (if c = CHR ''*'' \<and> d = CHR ''/'' then s else after_comment (d # s))"
| "after_comment s = []"

text \<open>What is left of a text behind the opening quote: the string with its closing quote, and what follows.\<close>

fun string_part :: "string \<Rightarrow> string \<times> string" where
  "string_part [] = ([], [])"
| "string_part [c] = ([c], [])"
| "string_part (c # d # s) =
     (if c = CHR 0x22 then ([c], d # s)
      else if c = CHR 0x5C \<and> d = CHR 0x22 then let (t, r) = string_part s in (c # d # t, r)
      else let (t, r) = string_part (d # s) in (c # t, r))"

lemma after_line_length: "length (after_line s) \<le> length s"
  by (induction s rule: after_line.induct) auto

lemma after_comment_length: "length (after_comment s) \<le> length s"
  by (induction s rule: after_comment.induct) auto

lemma string_part_append: "string_part s = (t, r) \<Longrightarrow> s = t @ r"
  by (induction s arbitrary: t r rule: string_part.induct) (auto split: if_splits prod.splits)

function minify :: "string \<Rightarrow> string" where
  "minify [] = []"
| "minify (c # s) =
     (if blank c then minify s
      else if c = CHR ''/'' then
        (if s \<noteq> [] \<and> hd s = CHR ''/'' then minify (after_line (tl s))
         else if s \<noteq> [] \<and> hd s = CHR ''*'' then minify (after_comment (tl s))
         else minify s)
      else if c = CHR 0x22 then let (t, r) = string_part s in c # t @ minify r
      else c # minify s)"
  by pat_completeness auto
termination
  by (relation "measure length")
    (auto simp: less_Suc_eq_le dest!: string_part_append sym [of _ "string_part _"]
      intro: order_trans [OF after_line_length] order_trans [OF after_comment_length])


section \<open>The code computes it\<close>

text \<open>
  Memory during the run: the text written so far, bytes that are free again, and the text still to read. Writing the
  next character read moves it over.
\<close>

lemma poke_next:
  obtains junk' where "length junk' = length junk" "poke (length out) c (out @ junk @ c # rest) = Some (out @ c # junk' @ rest)"
    "(out @ c # junk' @ rest) ! (length out + length junk) = c"
proof (cases junk)
  case Nil
  then show ?thesis using that [of "[]"] by (simp add: poke_def)
next
  case (Cons j js)
  then show ?thesis using that [of "js @ [c]"] by (simp add: poke_def list_update_append nth_append)
qed

lemma poke_same: "poke (length out) c (out @ c # rest) = Some (out @ c # rest)"
  by (simp add: poke_def)

lemma read_here: "(out @ junk @ c # rest) ! (length out + length junk) = c"
  by (simp add: nth_append)

lemma oneline_loop_text:
  assumes "no_nul s"
  shows "\<exists>sk. s = sk @ after_line s \<and> oneline_loop (pre @ s @ NUL # z) (length pre) = Some (length pre + length sk)"
  using assms
proof (induction s arbitrary: pre)
  case Nil
  then show ?case by (simp add: oneline_loop.simps nth_append)
next
  case (Cons c s)
  show ?case
  proof (cases "c = CHR 0x0A")
    case True
    then show ?thesis by (intro exI [of _ "[c]"]) (simp add: oneline_loop.simps nth_append)
  next
    case False
    obtain sk where sk: "s = sk @ after_line s"
      "oneline_loop ((pre @ [c]) @ s @ NUL # z) (length (pre @ [c])) = Some (length (pre @ [c]) + length sk)"
      using Cons.IH [of "pre @ [c]"] Cons.prems by auto
    have "c \<noteq> NUL" using Cons.prems by simp
    then have "oneline_loop (pre @ (c # s) @ NUL # z) (length pre) = Some (length pre + length (c # sk))"
      using False sk(2) by (subst oneline_loop.simps) (simp add: nth_append)
    then show ?thesis using sk(1) False by (intro exI [of _ "c # sk"]) simp
  qed
qed

lemma multiline_loop_text:
  assumes "no_nul s"
  shows "\<exists>sk. s = sk @ after_comment s \<and> multiline_loop (pre @ s @ NUL # z) (length pre) = Some (length pre + length sk)"
  using assms
proof (induction s arbitrary: pre rule: after_comment.induct)
  case (1 c d s)
  show ?case
  proof (cases "c = CHR ''*'' \<and> d = CHR ''/''")
    case True
    then show ?thesis by (intro exI [of _ "[c, d]"]) (simp add: multiline_loop.simps nth_append)
  next
    case False
    obtain sk where sk: "d # s = sk @ after_comment (d # s)"
      "multiline_loop ((pre @ [c]) @ (d # s) @ NUL # z) (length (pre @ [c])) = Some (length (pre @ [c]) + length sk)"
      using 1(1) [OF False, of "pre @ [c]"] 1(2) by auto
    have "c \<noteq> NUL" using 1(2) by simp
    then have "multiline_loop (pre @ (c # d # s) @ NUL # z) (length pre) = Some (length pre + length (c # sk))"
      using False sk(2) by (subst multiline_loop.simps) (auto simp: nth_append)
    then show ?thesis using sk(1) False by (intro exI [of _ "c # sk"]) auto
  qed
next
  case "2_1"
  then show ?case by (simp add: multiline_loop.simps nth_append)
next
  case two: "2_2"
  then show ?case
    unfolding after_comment.simps append_Nil2
    by (simp add: multiline_loop.simps [of _ "length pre"] multiline_loop.simps [of _ "Suc (length pre)"] nth_append)
qed

lemma string_loop_text:
  assumes "no_nul s"
  shows "\<exists>junk'. length junk' = length junk \<and>
    string_loop (out @ junk @ s @ NUL # z) (length out + length junk) (length out) =
      Some (out @ fst (string_part s) @ junk' @ snd (string_part s) @ NUL # z,
        length out + length (fst (string_part s)) + length junk, length out + length (fst (string_part s)))"
  using assms
proof (induction s arbitrary: out junk rule: string_part.induct)
  case 1
  then show ?case by (intro exI [of _ junk]) (simp add: string_loop.simps nth_append)
next
  case (2 c)
  obtain j where j: "length j = length junk" "poke (length out) c (out @ junk @ c # NUL # z) = Some (out @ c # j @ NUL # z)"
    "(out @ c # j @ NUL # z) ! (length out + length junk) = c" by (rule poke_next)
  have "string_loop (out @ c # j @ NUL # z) (Suc (length out + length junk)) (Suc (length out)) =
      Some (out @ c # j @ NUL # z, Suc (length out + length junk), Suc (length out))"
    using read_here [of "out @ [c]" j NUL z] j(1) by (subst string_loop.simps) simp
  moreover have "peek (out @ c # j @ NUL # z) (Suc (length out + length junk)) = Some NUL"
    using read_here [of "out @ [c]" j NUL z] j(1) by (simp add: peek_def)
  ultimately have "string_loop (out @ junk @ [c] @ NUL # z) (length out + length junk) (length out) =
      Some (out @ c # j @ NUL # z, Suc (length out + length junk), Suc (length out))"
    using 2 j(2,3) poke_same by (subst string_loop.simps) (auto simp: read_here)
  then show ?case using j(1) by auto
next
  case (3 c d s)
  have nn: "c \<noteq> NUL" "d \<noteq> NUL" "no_nul s" using 3(3) by auto
  obtain j where j: "length j = length junk" "poke (length out) c (out @ junk @ c # d # s @ NUL # z) = Some (out @ c # j @ d # s @ NUL # z)"
    "(out @ c # j @ d # s @ NUL # z) ! (length out + length junk) = c" by (rule poke_next)
  let ?m = "out @ c # j @ d # s @ NUL # z"
  have pk: "peek ?m (Suc (length out + length junk)) = Some d"
    using read_here [of "out @ [c]" j d "s @ NUL # z"] j(1) by (simp add: peek_def)
  have step: "string_loop (out @ junk @ (c # d # s) @ NUL # z) (length out + length junk) (length out) =
      (if c = CHR 0x22 then Some (?m, Suc (length out + length junk), Suc (length out))
       else if c = CHR 0x5C \<and> d = CHR 0x22 then
         (case poke (Suc (length out)) d ?m of None \<Rightarrow> None
          | Some mem \<Rightarrow> string_loop mem (length out + length junk + 2) (length out + 2))
       else string_loop ?m (Suc (length out + length junk)) (Suc (length out)))"
    using nn(1) j(2,3) pk poke_same by (subst string_loop.simps) (auto simp: read_here)
  consider (q) "c = CHR 0x22" | (e) "c = CHR 0x5C" "d = CHR 0x22" | (n) "c \<noteq> CHR 0x22" "\<not> (c = CHR 0x5C \<and> d = CHR 0x22)" by blast
  then show ?case
  proof cases
    case q
    then show ?thesis unfolding step using j(1) by (intro exI [of _ j]) simp
  next
    case e
    obtain k where k: "length k = length j" "poke (length (out @ [c])) d ((out @ [c]) @ j @ d # s @ NUL # z) = Some ((out @ [c]) @ d # k @ s @ NUL # z)"
      by (rule poke_next)
    have "c \<noteq> CHR 0x22" using e by simp
    from 3(1) [OF this] e nn(3) obtain l where l: "length l = length k"
      "string_loop ((out @ [c, d]) @ k @ s @ NUL # z) (length (out @ [c, d]) + length k) (length (out @ [c, d])) =
       Some ((out @ [c, d]) @ fst (string_part s) @ l @ snd (string_part s) @ NUL # z,
        length (out @ [c, d]) + length (fst (string_part s)) + length k, length (out @ [c, d]) + length (fst (string_part s)))" by blast
    show ?thesis unfolding step using e j(1) k l by (intro exI [of _ l]) (simp add: split_beta)
  next
    case n
    have "no_nul (d # s)" using nn by simp
    from 3(2) [OF n this, of j "out @ [c]"] obtain l where l: "length l = length j"
      "string_loop ((out @ [c]) @ j @ (d # s) @ NUL # z) (length (out @ [c]) + length j) (length (out @ [c])) =
       Some ((out @ [c]) @ fst (string_part (d # s)) @ l @ snd (string_part (d # s)) @ NUL # z,
        length (out @ [c]) + length (fst (string_part (d # s))) + length j, length (out @ [c]) + length (fst (string_part (d # s))))" by blast
    have sp: "string_part (c # d # s) = (c # fst (string_part (d # s)), snd (string_part (d # s)))"
      using n by (simp only: string_part.simps if_False Let_def split_beta)
    have br: "(if c = CHR 0x22 then A else if c = CHR 0x5C \<and> d = CHR 0x22 then B else C) = C" for A B C :: "(string \<times> nat \<times> nat) option"
      using n by auto
    show ?thesis unfolding step sp br using j(1) l by (intro exI [of _ l]) simp
  qed
qed

lemma no_nul_sub_append: "s = a @ b \<Longrightarrow> no_nul s \<Longrightarrow> no_nul b"
  by simp

text \<open>One round of the main loop, by the first character that is left.\<close>

lemma minify_loop_step:
  assumes "c \<noteq> NUL"
  shows "minify_loop (out @ junk @ c # s) (length out + length junk) (length out) =
    (let mem = out @ junk @ c # s; i = length out + length junk; k = length out in
     if blank c then minify_loop mem (i + 1) k
     else if c = CHR ''/'' then
       (case peek mem (i + 1) of None \<Rightarrow> None
        | Some d \<Rightarrow>
            if d = CHR ''/'' then (case skip_oneline_comment mem i of None \<Rightarrow> None | Some j \<Rightarrow> minify_loop mem j k)
            else if d = CHR ''*'' then (case skip_multiline_comment mem i of None \<Rightarrow> None | Some j \<Rightarrow> minify_loop mem j k)
            else minify_loop mem (i + 1) k)
     else if c = CHR 0x22 then
       (case minify_string mem i k of None \<Rightarrow> None | Some (mem, i, k) \<Rightarrow> minify_loop mem i k)
     else (case poke k c mem of None \<Rightarrow> None | Some mem \<Rightarrow> minify_loop mem (i + 1) (k + 1)))"
  using assms by (subst minify_loop.simps) (simp add: read_here Let_def)

lemma minify_loop_text:
  assumes "no_nul s"
  shows "\<exists>junk'. minify_loop (out @ junk @ s @ NUL # z) (length out + length junk) (length out) =
      Some (out @ minify s @ junk' @ NUL # z, length out + length (minify s)) \<and>
    length junk' + length (minify s) = length junk + length s"
  using assms
proof (induction s arbitrary: out junk rule: minify.induct)
  case 1
  then show ?case by (intro exI [of _ junk]) (subst minify_loop.simps, simp add: read_here)
next
  case (2 c s)
  have nn: "c \<noteq> NUL" "no_nul s" using 2(7) by auto
  note step = minify_loop_step [OF nn(1), of out junk "s @ NUL # z", simplified Let_def]
  have moved: "minify_loop (out @ junk @ sk @ t @ NUL # z) (length out + length junk + length sk) (length out) =
      minify_loop (out @ (junk @ sk) @ t @ NUL # z) (length out + length (junk @ sk)) (length out)" for sk t
    by (simp add: add.assoc)
  consider (b) "blank c" | (s) "\<not> blank c" "c = CHR ''/''" | (q) "\<not> blank c" "c \<noteq> CHR ''/''" "c = CHR 0x22"
    | (p) "\<not> blank c" "c \<noteq> CHR ''/''" "c \<noteq> CHR 0x22" by blast
  then show ?case
  proof cases
    case b
    obtain j where "minify_loop (out @ (junk @ [c]) @ s @ NUL # z) (length out + length (junk @ [c])) (length out) =
      Some (out @ minify s @ j @ NUL # z, length out + length (minify s))" "length j + length (minify s) = length (junk @ [c]) + length s"
      using 2(1) [OF b nn(2), of out "junk @ [c]"] by blast
    then show ?thesis using step b moved [of "[c]" s] by (intro exI [of _ j]) simp
  next
    case s
    have pk: "peek (out @ junk @ c # s @ NUL # z) (length out + length junk + 1) = Some (hd (s @ [NUL]))"
      using read_here [of out "junk @ [c]" "hd (s @ [NUL])" "tl (s @ NUL # z)"] by (cases s) (simp_all add: peek_def)
    consider (l) r where "s = CHR ''/'' # r" | (m) r where "s = CHR ''*'' # r"
      | (n) "hd (s @ [NUL]) \<noteq> CHR ''/''" "hd (s @ [NUL]) \<noteq> CHR ''*''" by (cases s) auto
    then show ?thesis
    proof cases
      case l
      have r: "no_nul r" using nn(2) l by simp
      obtain sk where sk: "r = sk @ after_line r" "oneline_loop ((out @ junk @ [c, CHR ''/'']) @ r @ NUL # z) (length (out @ junk @ [c, CHR ''/''])) =
          Some (length (out @ junk @ [c, CHR ''/'']) + length sk)" using oneline_loop_text [OF r] by blast
      obtain j where j: "minify_loop (out @ (junk @ c # CHR ''/'' # sk) @ after_line r @ NUL # z) (length out + length (junk @ c # CHR ''/'' # sk)) (length out) =
          Some (out @ minify (after_line r) @ j @ NUL # z, length out + length (minify (after_line r)))"
          "length j + length (minify (after_line r)) = length (junk @ c # CHR ''/'' # sk) + length (after_line r)"
        using 2(2) [OF s, of out "junk @ c # CHR ''/'' # sk"] l no_nul_sub_append [OF sk(1) r] by auto
      have e: "out @ junk @ c # s @ NUL # z = out @ (junk @ c # CHR ''/'' # sk) @ after_line r @ NUL # z"
        using l sk(1) by (metis append.assoc append_Cons)
      have "skip_oneline_comment (out @ junk @ c # s @ NUL # z) (length out + length junk) = Some (length out + length (junk @ c # CHR ''/'' # sk))"
        using sk(2) l by (simp add: skip_oneline_comment_def)
      moreover have "length s = Suc (length sk + length (after_line r))" using l arg_cong [OF sk(1), of length] by simp
      moreover have "minify_loop (out @ junk @ c # s @ NUL # z) (length out + length (junk @ c # CHR ''/'' # sk)) (length out) =
          Some (out @ minify (after_line r) @ j @ NUL # z, length out + length (minify (after_line r)))" unfolding e by (rule j(1))
      moreover have "minify (c # s) = minify (after_line r)" using s l by simp
      ultimately show ?thesis using step s(1) pk j(2) by (intro exI [of _ j]) (simp add: s(2) l)
    next
      case m
      have r: "no_nul r" using nn(2) m by simp
      obtain sk where sk: "r = sk @ after_comment r" "multiline_loop ((out @ junk @ [c, CHR ''*'']) @ r @ NUL # z) (length (out @ junk @ [c, CHR ''*''])) =
          Some (length (out @ junk @ [c, CHR ''*'']) + length sk)" using multiline_loop_text [OF r] by blast
      obtain j where j: "minify_loop (out @ (junk @ c # CHR ''*'' # sk) @ after_comment r @ NUL # z) (length out + length (junk @ c # CHR ''*'' # sk)) (length out) =
          Some (out @ minify (after_comment r) @ j @ NUL # z, length out + length (minify (after_comment r)))"
          "length j + length (minify (after_comment r)) = length (junk @ c # CHR ''*'' # sk) + length (after_comment r)"
        using 2(3) [OF s, of out "junk @ c # CHR ''*'' # sk"] m no_nul_sub_append [OF sk(1) r] by auto
      have e: "out @ junk @ c # s @ NUL # z = out @ (junk @ c # CHR ''*'' # sk) @ after_comment r @ NUL # z"
        using m sk(1) by (metis append.assoc append_Cons)
      have "skip_multiline_comment (out @ junk @ c # s @ NUL # z) (length out + length junk) = Some (length out + length (junk @ c # CHR ''*'' # sk))"
        using sk(2) m by (simp add: skip_multiline_comment_def)
      moreover have "length s = Suc (length sk + length (after_comment r))" using m arg_cong [OF sk(1), of length] by simp
      moreover have "minify_loop (out @ junk @ c # s @ NUL # z) (length out + length (junk @ c # CHR ''*'' # sk)) (length out) =
          Some (out @ minify (after_comment r) @ j @ NUL # z, length out + length (minify (after_comment r)))" unfolding e by (rule j(1))
      moreover have "minify (c # s) = minify (after_comment r)" using s m by simp
      ultimately show ?thesis using step s(1) pk j(2) by (intro exI [of _ j]) (simp add: s(2) m)
    next
      case n
      have d: "\<not> (s \<noteq> [] \<and> hd s = CHR ''/'')" "\<not> (s \<noteq> [] \<and> hd s = CHR ''*'')" using n by auto
      obtain j where "minify_loop (out @ (junk @ [c]) @ s @ NUL # z) (length out + length (junk @ [c])) (length out) =
        Some (out @ minify s @ j @ NUL # z, length out + length (minify s))" "length j + length (minify s) = length (junk @ [c]) + length s"
        using 2(4) [OF s d nn(2), of out "junk @ [c]"] by blast
      then show ?thesis using step s n d pk moved [of "[c]" s] by (intro exI [of _ j]) auto
    qed
  next
    case q
    obtain j where j: "length j = length junk" "poke (length out) c (out @ junk @ c # s @ NUL # z) = Some (out @ c # j @ s @ NUL # z)"
      by (rule poke_next)
    obtain t r where tr: "string_part s = (t, r)" by fastforce
    have sp: "s = t @ r" by (rule string_part_append [OF tr])
    obtain k where k: "length k = length j" "string_loop ((out @ [c]) @ j @ s @ NUL # z) (length (out @ [c]) + length j) (length (out @ [c])) =
        Some ((out @ [c]) @ t @ k @ r @ NUL # z, length (out @ [c]) + length t + length j, length (out @ [c]) + length t)"
      using string_loop_text [OF nn(2), of j "out @ [c]" z] tr by auto
    have ms: "minify_string (out @ junk @ c # s @ NUL # z) (length out + length junk) (length out) =
        Some ((out @ c # t) @ k @ r @ NUL # z, length (out @ c # t) + length k, length (out @ c # t))"
      using j k read_here [of out junk c "s @ NUL # z"] by (simp add: minify_string_def peek_def)
    obtain l where l: "minify_loop ((out @ c # t) @ k @ r @ NUL # z) (length (out @ c # t) + length k) (length (out @ c # t)) =
        Some ((out @ c # t) @ minify r @ l @ NUL # z, length (out @ c # t) + length (minify r))" "length l + length (minify r) = length k + length r"
      using 2(5) [OF q tr [symmetric] refl, of "out @ c # t" k] no_nul_sub_append [OF sp nn(2)] by blast
    have "minify (c # s) = c # t @ minify r" using q tr by simp
    then show ?thesis using step q ms l j k sp by (intro exI [of _ l]) simp
  next
  case p
    obtain j where j: "length j = length junk" "poke (length out) c (out @ junk @ c # s @ NUL # z) = Some (out @ c # j @ s @ NUL # z)"
      by (rule poke_next)
    obtain k where "minify_loop ((out @ [c]) @ j @ s @ NUL # z) (length (out @ [c]) + length j) (length (out @ [c])) =
      Some ((out @ [c]) @ minify s @ k @ NUL # z, length (out @ [c]) + length (minify s))" "length k + length (minify s) = length j + length s"
      using 2(6) [OF p nn(2), of "out @ [c]" j] by blast
    then show ?thesis using step p j by (intro exI [of _ k]) simp
  qed
qed


lemma minify_length: "no_nul s \<Longrightarrow> length (minify s) \<le> length s"
  using minify_loop_text [of s "[]" "[]" "[]"] by auto

section \<open>Minifying what was printed\<close>

definition solid :: "char \<Rightarrow> bool" where
  "solid c \<longleftrightarrow> \<not> blank c \<and> c \<noteq> CHR ''/'' \<and> c \<noteq> CHR 0x22"

lemma minify_solid: "\<forall>c \<in> set a. solid c \<Longrightarrow> minify (a @ s) = a @ minify s"
  by (induction a) (auto simp: solid_def)

lemma minify_blanks: "\<forall>c \<in> set a. blank c \<Longrightarrow> minify (a @ s) = minify s"
  by (induction a) auto

text \<open>A string whose text ends in a backslash hides its closing quote from \<open>minify_string\<close>.\<close>

definition quote_safe :: "string option \<Rightarrow> bool" where
  "quote_safe v \<longleftrightarrow> (case v of None \<Rightarrow> True | Some x \<Rightarrow> x = [] \<or> last x \<noteq> CHR 0x5C)"

lemma string_part_plain:
  "c \<noteq> CHR 0x22 \<Longrightarrow> t \<noteq> [] \<Longrightarrow> \<not> (c = CHR 0x5C \<and> hd t = CHR 0x22) \<Longrightarrow>
    string_part (c # t) = (c # fst (string_part t), snd (string_part t))"
  by (cases t) (auto simp: split_beta)

lemma string_part_plains:
  "\<forall>c \<in> set a. c \<noteq> CHR 0x22 \<and> c \<noteq> CHR 0x5C \<Longrightarrow> t \<noteq> [] \<Longrightarrow> string_part (a @ t) = (a @ fst (string_part t), snd (string_part t))"
  by (induction a) (simp_all add: string_part_plain)

lemma hex_digit_solid: "n < 16 \<Longrightarrow> hex_digit n \<noteq> CHR 0x22 \<and> hex_digit n \<noteq> CHR 0x5C"
  using hex_digit_ord [of n] by (auto split: if_splits)

lemma escape_char_shape:
  "escape_char c = [c] \<and> c \<noteq> CHR 0x22 \<and> c \<noteq> CHR 0x5C \<or> c = CHR 0x22 \<and> escape_char c = [CHR 0x5C, CHR 0x22] \<or>
   c = CHR 0x5C \<and> escape_char c = [CHR 0x5C, CHR 0x5C] \<or>
   (\<exists>d a. escape_char c = CHR 0x5C # d # a \<and> (\<forall>c \<in> set (d # a). c \<noteq> CHR 0x22 \<and> c \<noteq> CHR 0x5C))"
  using hex_digit_solid by (auto simp: escape_char_def)

lemma string_part_escape:
  assumes "t \<noteq> []" "c = CHR 0x5C \<longrightarrow> hd t \<noteq> CHR 0x22"
  shows "string_part (escape_char c @ t) = (escape_char c @ fst (string_part t), snd (string_part t))"
proof -
  consider (plain) "escape_char c = [c]" "c \<noteq> CHR 0x22" "c \<noteq> CHR 0x5C" | (quote) "c = CHR 0x22" "escape_char c = [CHR 0x5C, CHR 0x22]"
    | (bs) "c = CHR 0x5C" "escape_char c = [CHR 0x5C, CHR 0x5C]"
    | (other) d a where "escape_char c = CHR 0x5C # d # a" "\<forall>c \<in> set (d # a). c \<noteq> CHR 0x22 \<and> c \<noteq> CHR 0x5C"
    using escape_char_shape [of c] by blast
  then show ?thesis
  proof cases
    case plain
    then show ?thesis using assms string_part_plain by auto
  next
    case quote
    then show ?thesis by (simp add: split_beta)
  next
    case bs
    then show ?thesis using assms by (simp add: string_part_plain)
  next
    case other
    then show ?thesis using string_part_plains [of "d # a" t] assms(1) by (simp add: string_part_plain)
  qed
qed

lemma string_part_text:
  "x = [] \<or> last x \<noteq> CHR 0x5C \<Longrightarrow> string_part (escape_text x @ CHR 0x22 # s) = (escape_text x @ [CHR 0x22], s)"
proof (induction x)
  case Nil
  then show ?case by (cases s) (simp_all add: escape_text_def)
next
  case (Cons c x)
  let ?t = "escape_text x @ CHR 0x22 # s"
  have "c = CHR 0x5C \<longrightarrow> hd ?t \<noteq> CHR 0x22"
    using Cons.prems by (cases x) (auto simp: escape_text_def escape_char_def)
  then have "string_part (escape_char c @ ?t) = (escape_char c @ fst (string_part ?t), snd (string_part ?t))"
    by (intro string_part_escape) simp_all
  moreover have "x = [] \<or> last x \<noteq> CHR 0x5C" using Cons.prems by (cases x) auto
  ultimately show ?case using Cons.IH by (simp add: escape_text_def)
qed

lemma minify_quoted: "quote_safe v \<Longrightarrow> minify (quoted v @ s) = quoted v @ minify s"
proof -
  assume "quote_safe v"
  have n: "string_part (CHR 0x22 # s) = ([CHR 0x22], s)" by (cases s) simp_all
  have "string_part ((case v of None \<Rightarrow> [] | Some x \<Rightarrow> escape_text x) @ CHR 0x22 # s) =
      ((case v of None \<Rightarrow> [] | Some x \<Rightarrow> escape_text x) @ [CHR 0x22], s)"
  proof (cases v)
    case None
    then show ?thesis using n by simp
  next
    case (Some x)
    then have "x = [] \<or> last x \<noteq> CHR 0x5C" using \<open>quote_safe v\<close> by (simp add: quote_safe_def)
    then show ?thesis using Some string_part_text by simp
  qed
  then show ?thesis by (simp add: quoted_def blank_def)
qed


text \<open>
  \<open>tame\<close>: no raw text, which may hold anything, and no string that ends in a backslash.
\<close>

fun tame :: "cJSON \<Rightarrow> bool" where
  "tame (Item ty vs vi vd nm cs) \<longleftrightarrow> ty AND 0xFF \<noteq> cJSON_Raw \<and> quote_safe vs \<and> quote_safe nm \<and> list_all tame cs"

definition sturdy :: "string \<Rightarrow> bool" where
  "sturdy s \<longleftrightarrow> (\<forall>c \<in> set s. solid c)"

lemma sturdy_append [simp]:
  "sturdy (s @ t) \<longleftrightarrow> sturdy s \<and> sturdy t" "sturdy (c # s) \<longleftrightarrow> solid c \<and> sturdy s" "sturdy []"
  by (auto simp: sturdy_def)

lemma sturdy_sub: "set s \<subseteq> set t \<Longrightarrow> sturdy t \<Longrightarrow> sturdy s"
  by (auto simp: sturdy_def)

lemma sturdy_take_drop: "sturdy s \<Longrightarrow> sturdy (take n s)" "sturdy s \<Longrightarrow> sturdy (drop n s)"
  by (auto simp: sturdy_def dest: in_set_takeD in_set_dropD)

lemma digit_solid: "is_digit c \<Longrightarrow> solid c"
  by (auto simp: solid_def blank_def is_digit_def)

lemma show_nat_sturdy [simp]: "sturdy (show_nat n)"
  using show_nat_digits digit_solid by (auto simp: sturdy_def)

lemma strip_zeros_sturdy: "sturdy b \<Longrightarrow> sturdy (strip_zeros b)"
  by (rule sturdy_sub) (auto simp: strip_zeros_def dest: set_dropWhileD)

lemma solid_chars [simp]:
  "solid CHR ''0''" "solid CHR ''-''" "solid CHR ''+''" "solid CHR ''e''" "solid CHR ''n''" "solid CHR ''u''" "solid CHR ''l''"
  "solid CHR ''t''" "solid CHR ''r''" "solid CHR ''f''" "solid CHR ''a''" "solid CHR ''s''" "solid CHR '',''" "solid CHR '':''"
  "solid CHR ''[''" "solid CHR '']''" "solid CHR ''{''" "solid CHR ''}''"
  by (simp_all add: solid_def blank_def)

lemma with_point_sturdy: "sturdy a \<Longrightarrow> sturdy b \<Longrightarrow> sturdy (with_point a b)"
  using strip_zeros_sturdy by (simp add: with_point_def Let_def) (simp add: solid_def blank_def)

lemma sturdy_replicate: "solid c \<Longrightarrow> sturdy (replicate n c)"
  by (simp add: sturdy_def)

lemma show_g_sturdy: "sturdy (show_g P q)"
  by (simp add: show_g_def Let_def split_beta with_point_sturdy sturdy_take_drop sturdy_replicate)

lemma number_text_sturdy: "sturdy (number_text d v)"
  by (cases d) (simp_all add: number_text_def show_int_def show_g_sturdy Let_def split_beta)

lemma minify_sturdy: "sturdy a \<Longrightarrow> minify (a @ s) = a @ minify s"
  by (rule minify_solid) (simp add: sturdy_def)

lemma minify_char: "solid c \<Longrightarrow> minify (c # s) = c # minify s"
  by (simp add: solid_def)

lemma minify_tabs: "minify (replicate d (CHR 0x09) @ s) = minify s" "minify (CHR 0x0A # s) = minify s" "minify (CHR 0x09 # s) = minify s"
  "minify (CHR '' '' # s) = minify s"
  by (simp_all add: minify_blanks blank_def)

declare minify.simps(2) [simp del]

text \<open>The formatted text is minified to the unformatted one, whatever comes behind it.\<close>

lemma minify_json_text:
  "json_text f d it = Some t \<Longrightarrow> f \<Longrightarrow> tame it \<Longrightarrow> \<exists>u. json_text False d' it = Some u \<and> (\<forall>s. minify (t @ s) = u @ minify s)"
  "elems_text f d es = Some ts \<Longrightarrow> f \<Longrightarrow> list_all tame es \<Longrightarrow>
     \<exists>us. elems_text False d' es = Some us \<and> (\<forall>s. minify (ts @ s) = us @ minify s)"
  "members_text f d ms = Some ts' \<Longrightarrow> f \<Longrightarrow> list_all tame ms \<Longrightarrow>
     \<exists>us. members_text False d' ms = Some us \<and> (\<forall>s. minify (ts' @ s) = us @ minify s)"
proof (induction f d it and f d es and f d ms arbitrary: t d' and ts d' and ts' d'
    rule: json_text_elems_text_members_text.induct)
  case (1 f d ty vs vi vd nm cs)
  consider (simple) "ty AND 0xFF \<notin> {cJSON_Array, cJSON_Object}" | (arr) "ty AND 0xFF = cJSON_Array" | (obj) "ty AND 0xFF = cJSON_Object" by blast
  then show ?case
  proof cases
    case simple
    then have "json_text False d' (Item ty vs vi vd nm cs) = Some t" "\<forall>s. minify (t @ s) = t @ minify s"
      using 1(3-5) by (auto simp: Let_def minify_quoted minify_sturdy number_text_sturdy minify_char split: if_splits)
    then show ?thesis by blast
  next
    case arr
    then obtain ts where ts: "elems_text f (Suc d) cs = Some ts" "t = ''['' @ ts @ '']''" using 1(3) by (auto simp: Let_def cJSON_types)
    obtain us where "elems_text False (Suc d') cs = Some us" "\<forall>s. minify (ts @ s) = us @ minify s"
      using 1(1) [OF refl _ _ _ _ _ _ arr ts(1), of "Suc d'"] 1(4,5) arr by (auto simp: cJSON_types)
    then show ?thesis using arr ts(2) by (auto simp: Let_def cJSON_types minify_char)
  next
    case obj
    then obtain ts where ts: "members_text f (Suc d) cs = Some ts" "t = [CHR ''{'', CHR 0x0A] @ ts @ replicate d (CHR 0x09) @ ''}''"
      using 1(3,4) by (auto simp: Let_def cJSON_types)
    obtain us where "members_text False (Suc d') cs = Some us" "\<forall>s. minify (ts @ s) = us @ minify s"
      using 1(2) [OF refl _ _ _ _ _ _ _ obj ts(1), of "Suc d'"] 1(4,5) obj by (auto simp: cJSON_types)
    then show ?thesis using obj ts(2) by (auto simp: Let_def cJSON_types minify_char minify_tabs)
  qed
next
  case (3 f d e es)
  then obtain t ts1 where t: "json_text f d e = Some t" "elems_text f d es = Some ts1"
    "ts = t @ (if es \<noteq> [] then '', '' else []) @ ts1" by (auto split: option.splits if_splits)
  obtain u us where "json_text False d' e = Some u" "\<forall>s. minify (t @ s) = u @ minify s"
    "elems_text False d' es = Some us" "\<forall>s. minify (ts1 @ s) = us @ minify s"
    using 3(1) [OF t(1), of d'] 3(2) [OF t(2), of d'] 3(4,5) by auto
  then show ?case using t(3) by (auto simp: minify_char minify_tabs)
next
  case (5 f d e es)
  then obtain t ts1 where t: "json_text f d e = Some t" "members_text f d es = Some ts1"
    "ts' = replicate d (CHR 0x09) @ quoted (cname e) @ [CHR '':'', CHR 0x09] @ t @ (if es \<noteq> [] then '','' else []) @ [CHR 0x0A] @ ts1"
    by (auto split: option.splits if_splits)
  obtain u us where "json_text False d' e = Some u" "\<forall>s. minify (t @ s) = u @ minify s"
    "members_text False d' es = Some us" "\<forall>s. minify (ts1 @ s) = us @ minify s"
    using 5(1) [OF t(1), of d'] 5(2) [OF t(2), of d'] 5(4,5) by auto
  moreover have "quote_safe (cname e)" using 5(5) by (cases e) simp
  ultimately show ?case using t(3) by (auto simp: minify_char minify_tabs minify_quoted)
qed auto


section \<open>Properties\<close>

lemma cJSON_Minify_text:
  assumes "no_nul s"
  shows "\<exists>r. cJSON_Minify (Some (s @ NUL # z)) = Some (Some (minify s @ NUL # r)) \<and>
    length (minify s @ NUL # r) = length (s @ NUL # z)"
proof -
  obtain j where j: "minify_loop (s @ NUL # z) 0 0 = Some (minify s @ j @ NUL # z, length (minify s))"
    "length j + length (minify s) = length s" using minify_loop_text [OF assms, of "[]" "[]" z] by auto
  show ?thesis
  proof (cases j)
    case Nil
    then show ?thesis using j poke_same [of "minify s" NUL z] by (intro exI [of _ z]) (simp add: cJSON_Minify_def)
  next
    case (Cons c js)
    then show ?thesis using j by (intro exI [of _ "js @ NUL # z"]) (simp add: cJSON_Minify_def poke_def)
  qed
qed

text \<open>
  C22: what the printer formatted, \<open>cJSON_Minify\<close> takes back: the text of \<open>cJSON_Print\<close>, minified in place (inside its
  block, with a terminator), becomes the text of \<open>cJSON_PrintUnformatted\<close>, for every item without raw text and
  without a string or name that ends in a backslash.
\<close>

theorem minify_undoes_formatting:
  assumes "item_ok it" "tame it" "\<forall>n. can_alloc hooks n" "json_text True 0 it = Some t" "length t + 3 \<le> IMAX"
  shows "\<exists>u r. cJSON_Print (Some it) hooks = Some (Some (t @ [NUL])) \<and>
    cJSON_PrintUnformatted (Some it) hooks = Some (Some (u @ [NUL])) \<and>
    cJSON_Minify (Some (t @ [NUL])) = Some (Some (u @ NUL # r)) \<and> length (u @ NUL # r) = length (t @ [NUL])"
proof -
  have nn: "no_nul t" by (rule json_text_no_nul(1) [OF assms(4,1)])
  obtain u where u: "json_text False 0 it = Some u" "\<forall>s. minify (t @ s) = u @ minify s"
    using minify_json_text(1) [OF assms(4) _ assms(2)] by blast
  then have m: "minify t = u" using spec [OF u(2), of "[]"] by simp
  then have "length u + 3 \<le> IMAX" using minify_length [OF nn] assms(5) by simp
  then show ?thesis
    using print_text [OF assms(1,3,4,5)] print_text [OF assms(1,3) u(1)] cJSON_Minify_text [OF nn, of "[]"] m
    by (simp add: cJSON_Print_def cJSON_PrintUnformatted_def)
qed

definition demo_formatted :: string where
  "demo_formatted = ''{'' @ [CHR 0x0A, CHR 0x09] @ ''\"PID\":'' @ [CHR 0x09] @ ''7,'' @ [CHR 0x0A, CHR 0x09] @
     ''\"IPs\":'' @ [CHR 0x09] @ ''[\"8.8.8.8\"]'' @ [CHR 0x0A] @ ''}''"

theorem minify_undoes_formatting_witness:
  "\<exists>u r. cJSON_Print (Some demo_item) demo_hooks = Some (Some (demo_formatted @ [NUL])) \<and>
    cJSON_PrintUnformatted (Some demo_item) demo_hooks = Some (Some (u @ [NUL])) \<and>
    cJSON_Minify (Some (demo_formatted @ [NUL])) = Some (Some (u @ NUL # r)) \<and> length (u @ NUL # r) = length (demo_formatted @ [NUL])"
proof (rule minify_undoes_formatting)
  have "number_text (Fin 7) 7 = ''7''"
    using number_text_int [of 7] by (simp add: show_int_def show_nat.simps digit_chars)
  then show "json_text True 0 demo_item = Some demo_formatted"
    by (simp add: demo_item_def demo_formatted_def cJSON_types quoted_def escape_text_def escape_char_def)
qed (simp_all add: demo_item_def demo_hooks_def demo_formatted_def quote_safe_def cJSON_types IMAX_def)

text \<open>
  A string that ends in a backslash makes \<open>minify_string\<close> miss its closing quote: the blank in the string behind it is
  then taken for white space and dropped.
\<close>

lemma minify_loses_blank:
  "\<exists>r. cJSON_Minify (Some ((''[\"'' @ [CHR 0x5C, CHR 0x5C] @ ''\",\"a b\"]'') @ [NUL])) =
    Some (Some ((''[\"'' @ [CHR 0x5C, CHR 0x5C] @ ''\",\"ab\"]'') @ NUL # r))"
proof -
  let ?s = "(''[\"'' @ [CHR 0x5C, CHR 0x5C] @ ''\",\"a b\"]'')"
  have "minify ?s = (''[\"'' @ [CHR 0x5C, CHR 0x5C] @ ''\",\"ab\"]'')"
    by (simp add: minify.simps blank_def)
  then show ?thesis using cJSON_Minify_text [of ?s "[]"] by (auto simp: no_nul_def)
qed

end
