(* ===== verification/Cjson_Heap.thy ===== *)
theory Cjson_Heap
  imports Cjson_Print
begin

text \<open>
  The item lists of \<open>cJSON.c\<close> in memory: items linked by \<open>next\<close> and \<open>prev\<close> (the \<open>prev\<close> of a first
  child is the last child), with their strings in blocks of their own. Creation, lookup, insertion,
  detachment, replacement and deletion. A read or write of an item or a string that is not
  allocated, a second \<open>free\<close> and a walk that does not end are \<open>None\<close>.
\<close>

section \<open>Memory\<close>

record jcell =
  nxt :: ptr
  prv :: ptr
  chld :: ptr
  jty :: nat
  jvs :: ptr
  jvi :: int
  jvd :: dbl
  jnm :: ptr

text \<open>
  \<open>strs\<close>: string blocks, terminators included, the caller's constants among them. \<open>asks\<close> counts the
  requests for memory, \<open>grant\<close> tells which succeed; a block granted has an address of its own.
\<close>

record jmem =
  cells :: "addr \<rightharpoonup> jcell"
  strs :: "addr \<rightharpoonup> string"
  asks :: nat
  grant :: "nat \<Rightarrow> bool"

definition zero_cell :: jcell where
  "zero_cell = \<lparr>nxt = None, prv = None, chld = None, jty = cJSON_Invalid, jvs = None, jvi = 0, jvd = Fin 0, jnm = None\<rparr>"

definition cell :: "ptr \<Rightarrow> jmem \<Rightarrow> jcell option" where
  "cell p m = (case p of None \<Rightarrow> None | Some a \<Rightarrow> cells m a)"

definition edit :: "ptr \<Rightarrow> (jcell \<Rightarrow> jcell) \<Rightarrow> jmem \<Rightarrow> jmem option" where
  "edit p f m = (case p of None \<Rightarrow> None | Some a \<Rightarrow>
     map_option (\<lambda>c. m\<lparr>cells := (cells m)(a \<mapsto> f c)\<rparr>) (cells m a))"

definition free_item :: "addr \<Rightarrow> jmem \<Rightarrow> jmem option" where
  "free_item a m = (if cells m a = None then None else Some (m\<lparr>cells := (cells m)(a := None)\<rparr>))"

definition free_string :: "ptr \<Rightarrow> jmem \<Rightarrow> jmem option" where
  "free_string p m = (case p of None \<Rightarrow> Some m | Some a \<Rightarrow>
     if strs m a = None then None else Some (m\<lparr>strs := (strs m)(a := None)\<rparr>))"

definition string_at :: "ptr \<Rightarrow> jmem \<Rightarrow> string option" where
  "string_at p m = (case p of None \<Rightarrow> None | Some a \<Rightarrow> Option.bind (strs m a) c_string)"

definition New_Item :: "jmem \<Rightarrow> ptr \<times> jmem" where
  "New_Item m = (if grant m (asks m)
     then (Some (asks m), m\<lparr>cells := (cells m)(asks m \<mapsto> zero_cell), asks := asks m + 1\<rparr>)
     else (None, m\<lparr>asks := asks m + 1\<rparr>))"

definition cJSON_strdup :: "ptr \<Rightarrow> jmem \<Rightarrow> (ptr \<times> jmem) option" where
  "cJSON_strdup p m =
     (case p of
        None \<Rightarrow> Some (None, m)
      | Some _ \<Rightarrow> do {
          s \<leftarrow> string_at p m;
          Some (if grant m (asks m)
            then (Some (asks m), m\<lparr>strs := (strs m)(asks m \<mapsto> s @ [NUL]), asks := asks m + 1\<rparr>)
            else (None, m\<lparr>asks := asks m + 1\<rparr>)) })"

text \<open>Flags of \<open>type\<close>: \<open>has t f\<close> is \<open>t & f\<close>, \<open>clear t f\<close> is \<open>t & ~f\<close>.\<close>

definition has :: "nat \<Rightarrow> nat \<Rightarrow> bool" where
  "has t f \<longleftrightarrow> t AND f \<noteq> 0"

definition clear :: "nat \<Rightarrow> nat \<Rightarrow> nat" where
  "clear t f = t XOR (t AND f)"

section \<open>Deletion\<close>

partial_function (option) cJSON_Delete :: "ptr \<Rightarrow> jmem \<Rightarrow> jmem option" where
  "cJSON_Delete item m =
     (case item of
        None \<Rightarrow> Some m
      | Some a \<Rightarrow> do {
          c \<leftarrow> cells m a;
          let next = nxt c;
          m \<leftarrow> (if \<not> has (jty c) cJSON_IsReference \<and> chld c \<noteq> None then cJSON_Delete (chld c) m else Some m);
          c \<leftarrow> cells m a;
          m \<leftarrow> (if \<not> has (jty c) cJSON_IsReference then free_string (jvs c) m else Some m);
          m \<leftarrow> (if \<not> has (jty c) cJSON_StringIsConst then free_string (jnm c) m else Some m);
          m \<leftarrow> free_item a m;
          cJSON_Delete next m })"

section \<open>Lookup\<close>

partial_function (option) chain_length :: "ptr \<Rightarrow> nat \<Rightarrow> jmem \<Rightarrow> nat option" where
  "chain_length p n m =
     (case p of None \<Rightarrow> Some n | Some a \<Rightarrow> do { c \<leftarrow> cells m a; chain_length (nxt c) (n + 1) m })"

definition cJSON_GetArraySize :: "ptr \<Rightarrow> jmem \<Rightarrow> int option" where
  "cJSON_GetArraySize array m =
     (case array of
        None \<Rightarrow> Some 0
      | Some a \<Rightarrow> do { c \<leftarrow> cells m a; n \<leftarrow> chain_length (chld c) 0 m; Some (sint (of_nat n :: u32)) })"

primrec walk :: "nat \<Rightarrow> ptr \<Rightarrow> jmem \<Rightarrow> ptr option" where
  "walk 0 p m = Some p"
| "walk (Suc i) p m = (case p of None \<Rightarrow> Some None | Some a \<Rightarrow> do { c \<leftarrow> cells m a; walk i (nxt c) m })"

definition get_array_item :: "ptr \<Rightarrow> nat \<Rightarrow> jmem \<Rightarrow> ptr option" where
  "get_array_item array index m =
     (case array of None \<Rightarrow> Some None | Some a \<Rightarrow> do { c \<leftarrow> cells m a; walk index (chld c) m })"

definition cJSON_GetArrayItem :: "ptr \<Rightarrow> int \<Rightarrow> jmem \<Rightarrow> ptr option" where
  "cJSON_GetArrayItem array index m = (if index < 0 then Some None else get_array_item array (nat index) m)"

definition tolower :: "char \<Rightarrow> int" where
  "tolower c = int (if 65 \<le> ord_c c \<and> ord_c c \<le> 90 then ord_c c + 32 else ord_c c)"

text \<open>The loop of \<open>case_insensitive_strcmp\<close> on two C strings; at the end of one stands its NUL.\<close>

fun compare_lower :: "string \<Rightarrow> string \<Rightarrow> int" where
  "compare_lower [] [] = 0"
| "compare_lower [] (d # ds) = - tolower d"
| "compare_lower (c # cs) [] = tolower c"
| "compare_lower (c # cs) (d # ds) = (if tolower c = tolower d then compare_lower cs ds else tolower c - tolower d)"

definition case_insensitive_strcmp :: "ptr \<Rightarrow> ptr \<Rightarrow> jmem \<Rightarrow> int option" where
  "case_insensitive_strcmp string1 string2 m =
     (if string1 = None \<or> string2 = None then Some 1
      else if string1 = string2 then Some 0
      else do { s1 \<leftarrow> string_at string1 m; s2 \<leftarrow> string_at string2 m; Some (compare_lower s1 s2) })"

text \<open>The two walks: whether the search goes on at an item named \<open>nm\<close>.\<close>

definition goes_on :: "bool \<Rightarrow> ptr \<Rightarrow> ptr \<Rightarrow> jmem \<Rightarrow> bool option" where
  "goes_on case_sensitive name nm m =
     (if case_sensitive then
        (if nm = None then Some False else do { s1 \<leftarrow> string_at name m; s2 \<leftarrow> string_at nm m; Some (s1 \<noteq> s2) })
      else do { r \<leftarrow> case_insensitive_strcmp name nm m; Some (r \<noteq> 0) })"

partial_function (option) search_name :: "bool \<Rightarrow> ptr \<Rightarrow> ptr \<Rightarrow> jmem \<Rightarrow> ptr option" where
  "search_name case_sensitive name p m =
     (case p of
        None \<Rightarrow> Some None
      | Some a \<Rightarrow> do {
          c \<leftarrow> cells m a;
          g \<leftarrow> goes_on case_sensitive name (jnm c) m;
          if g then search_name case_sensitive name (nxt c) m else Some (Some a) })"

definition get_object_item :: "ptr \<Rightarrow> ptr \<Rightarrow> bool \<Rightarrow> jmem \<Rightarrow> ptr option" where
  "get_object_item object name case_sensitive m =
     (case object of
        None \<Rightarrow> Some None
      | Some a \<Rightarrow>
          if name = None then Some None
          else do {
            c \<leftarrow> cells m a;
            p \<leftarrow> search_name case_sensitive name (chld c) m;
            case p of
              None \<Rightarrow> Some None
            | Some _ \<Rightarrow> do { e \<leftarrow> cell p m; Some (if jnm e = None then None else p) } })"

definition cJSON_GetObjectItem :: "ptr \<Rightarrow> ptr \<Rightarrow> jmem \<Rightarrow> ptr option" where
  "cJSON_GetObjectItem object s m = get_object_item object s False m"

definition cJSON_GetObjectItemCaseSensitive :: "ptr \<Rightarrow> ptr \<Rightarrow> jmem \<Rightarrow> ptr option" where
  "cJSON_GetObjectItemCaseSensitive object s m = get_object_item object s True m"

definition cJSON_HasObjectItem :: "ptr \<Rightarrow> ptr \<Rightarrow> jmem \<Rightarrow> bool option" where
  "cJSON_HasObjectItem object s m = do { p \<leftarrow> cJSON_GetObjectItem object s m; Some (p \<noteq> None) }"

section \<open>Insertion\<close>

definition suffix_object :: "ptr \<Rightarrow> addr \<Rightarrow> jmem \<Rightarrow> jmem option" where
  "suffix_object prev item m = do {
     m \<leftarrow> edit prev (\<lambda>c. c\<lparr>nxt := Some item\<rparr>) m;
     edit (Some item) (\<lambda>c. c\<lparr>prv := prev\<rparr>) m }"

definition create_reference :: "ptr \<Rightarrow> jmem \<Rightarrow> (ptr \<times> jmem) option" where
  "create_reference item m =
     (case item of
        None \<Rightarrow> Some (None, m)
      | Some _ \<Rightarrow>
          (case New_Item m of
             (None, m) \<Rightarrow> Some (None, m)
           | (Some r, m) \<Rightarrow> do {
               c \<leftarrow> cell item m;
               m \<leftarrow> edit (Some r) (\<lambda>_. c\<lparr>jnm := None, jty := jty c OR cJSON_IsReference, nxt := None, prv := None\<rparr>) m;
               Some (Some r, m) }))"

definition add_item_to_array :: "ptr \<Rightarrow> ptr \<Rightarrow> jmem \<Rightarrow> (bool \<times> jmem) option" where
  "add_item_to_array array item m =
     (case (array, item) of
        (Some a, Some i) \<Rightarrow>
          if a = i then Some (False, m)
          else do {
            c \<leftarrow> cells m a;
            case chld c of
              None \<Rightarrow> do {
                m \<leftarrow> edit array (\<lambda>c. c\<lparr>chld := item\<rparr>) m;
                m \<leftarrow> edit item (\<lambda>c. c\<lparr>prv := item, nxt := None\<rparr>) m;
                Some (True, m) }
            | Some f \<Rightarrow> do {
                cf \<leftarrow> cells m f;
                if prv cf \<noteq> None then do {
                  m \<leftarrow> suffix_object (prv cf) i m;
                  c \<leftarrow> cells m a;
                  m \<leftarrow> edit (chld c) (\<lambda>c. c\<lparr>prv := item\<rparr>) m;
                  Some (True, m) }
                else Some (True, m) } }
      | _ \<Rightarrow> Some (False, m))"

definition cJSON_AddItemToArray :: "ptr \<Rightarrow> ptr \<Rightarrow> jmem \<Rightarrow> (bool \<times> jmem) option" where
  "cJSON_AddItemToArray array item m = add_item_to_array array item m"

definition add_item_to_object :: "ptr \<Rightarrow> ptr \<Rightarrow> ptr \<Rightarrow> bool \<Rightarrow> jmem \<Rightarrow> (bool \<times> jmem) option" where
  "add_item_to_object object s item constant_key m =
     (case (object, item) of
        (Some ob, Some i) \<Rightarrow>
          if s = None \<or> ob = i then Some (False, m)
          else do {
            c \<leftarrow> cells m i;
            (new_key, m) \<leftarrow> (if constant_key then Some (s, m) else cJSON_strdup s m);
            if new_key = None then Some (False, m)
            else do {
              let new_type = (if constant_key then jty c OR cJSON_StringIsConst else clear (jty c) cJSON_StringIsConst);
              m \<leftarrow> (if \<not> has (jty c) cJSON_StringIsConst then free_string (jnm c) m else Some m);
              m \<leftarrow> edit item (\<lambda>c. c\<lparr>jnm := new_key, jty := new_type\<rparr>) m;
              add_item_to_array object item m } }
      | _ \<Rightarrow> Some (False, m))"

definition cJSON_AddItemToObject :: "ptr \<Rightarrow> ptr \<Rightarrow> ptr \<Rightarrow> jmem \<Rightarrow> (bool \<times> jmem) option" where
  "cJSON_AddItemToObject object s item m = add_item_to_object object s item False m"

definition cJSON_AddItemToObjectCS :: "ptr \<Rightarrow> ptr \<Rightarrow> ptr \<Rightarrow> jmem \<Rightarrow> (bool \<times> jmem) option" where
  "cJSON_AddItemToObjectCS object s item m = add_item_to_object object s item True m"

definition cJSON_AddItemReferenceToArray :: "ptr \<Rightarrow> ptr \<Rightarrow> jmem \<Rightarrow> (bool \<times> jmem) option" where
  "cJSON_AddItemReferenceToArray array item m =
     (if array = None then Some (False, m)
      else do { (r, m) \<leftarrow> create_reference item m; add_item_to_array array r m })"

definition cJSON_AddItemReferenceToObject :: "ptr \<Rightarrow> ptr \<Rightarrow> ptr \<Rightarrow> jmem \<Rightarrow> (bool \<times> jmem) option" where
  "cJSON_AddItemReferenceToObject object s item m =
     (if object = None \<or> s = None then Some (False, m)
      else do { (r, m) \<leftarrow> create_reference item m; add_item_to_object object s r False m })"

section \<open>Removal and replacement\<close>

definition cJSON_DetachItemViaPointer :: "ptr \<Rightarrow> ptr \<Rightarrow> jmem \<Rightarrow> (ptr \<times> jmem) option" where
  "cJSON_DetachItemViaPointer parent item m =
     (if parent = None \<or> item = None then Some (None, m)
      else do {
        p \<leftarrow> cell parent m;
        i \<leftarrow> cell item m;
        m \<leftarrow> (if item \<noteq> chld p then edit (prv i) (\<lambda>c. c\<lparr>nxt := nxt i\<rparr>) m else Some m);
        i \<leftarrow> cell item m;
        m \<leftarrow> (if nxt i \<noteq> None then edit (nxt i) (\<lambda>c. c\<lparr>prv := prv i\<rparr>) m else Some m);
        p \<leftarrow> cell parent m;
        i \<leftarrow> cell item m;
        m \<leftarrow> (if item = chld p then edit parent (\<lambda>c. c\<lparr>chld := nxt i\<rparr>) m
              else if nxt i = None then edit (chld p) (\<lambda>c. c\<lparr>prv := prv i\<rparr>) m
              else Some m);
        m \<leftarrow> edit item (\<lambda>c. c\<lparr>prv := None, nxt := None\<rparr>) m;
        Some (item, m) })"

definition cJSON_DetachItemFromArray :: "ptr \<Rightarrow> int \<Rightarrow> jmem \<Rightarrow> (ptr \<times> jmem) option" where
  "cJSON_DetachItemFromArray array which m =
     (if which < 0 then Some (None, m)
      else do { p \<leftarrow> get_array_item array (nat which) m; cJSON_DetachItemViaPointer array p m })"

definition cJSON_DeleteItemFromArray :: "ptr \<Rightarrow> int \<Rightarrow> jmem \<Rightarrow> jmem option" where
  "cJSON_DeleteItemFromArray array which m = do {
     (p, m) \<leftarrow> cJSON_DetachItemFromArray array which m; cJSON_Delete p m }"

definition cJSON_DetachItemFromObject :: "ptr \<Rightarrow> ptr \<Rightarrow> jmem \<Rightarrow> (ptr \<times> jmem) option" where
  "cJSON_DetachItemFromObject object s m = do {
     p \<leftarrow> cJSON_GetObjectItem object s m; cJSON_DetachItemViaPointer object p m }"

definition cJSON_DetachItemFromObjectCaseSensitive :: "ptr \<Rightarrow> ptr \<Rightarrow> jmem \<Rightarrow> (ptr \<times> jmem) option" where
  "cJSON_DetachItemFromObjectCaseSensitive object s m = do {
     p \<leftarrow> cJSON_GetObjectItemCaseSensitive object s m; cJSON_DetachItemViaPointer object p m }"

definition cJSON_DeleteItemFromObject :: "ptr \<Rightarrow> ptr \<Rightarrow> jmem \<Rightarrow> jmem option" where
  "cJSON_DeleteItemFromObject object s m = do {
     (p, m) \<leftarrow> cJSON_DetachItemFromObject object s m; cJSON_Delete p m }"

definition cJSON_DeleteItemFromObjectCaseSensitive :: "ptr \<Rightarrow> ptr \<Rightarrow> jmem \<Rightarrow> jmem option" where
  "cJSON_DeleteItemFromObjectCaseSensitive object s m = do {
     (p, m) \<leftarrow> cJSON_DetachItemFromObjectCaseSensitive object s m; cJSON_Delete p m }"

definition cJSON_InsertItemInArray :: "ptr \<Rightarrow> int \<Rightarrow> ptr \<Rightarrow> jmem \<Rightarrow> (bool \<times> jmem) option" where
  "cJSON_InsertItemInArray array which newitem m =
     (if which < 0 \<or> newitem = None then Some (False, m)
      else do {
        after_inserted \<leftarrow> get_array_item array (nat which) m;
        if after_inserted = None then add_item_to_array array newitem m
        else do {
          p \<leftarrow> cell array m;
          af \<leftarrow> cell after_inserted m;
          if after_inserted \<noteq> chld p \<and> prv af = None then Some (False, m)
          else do {
            m \<leftarrow> edit newitem (\<lambda>c. c\<lparr>nxt := after_inserted, prv := prv af\<rparr>) m;
            m \<leftarrow> edit after_inserted (\<lambda>c. c\<lparr>prv := newitem\<rparr>) m;
            p \<leftarrow> cell array m;
            n \<leftarrow> cell newitem m;
            m \<leftarrow> (if after_inserted = chld p then edit array (\<lambda>c. c\<lparr>chld := newitem\<rparr>) m
                  else edit (prv n) (\<lambda>c. c\<lparr>nxt := newitem\<rparr>) m);
            Some (True, m) } } })"

definition cJSON_ReplaceItemViaPointer :: "ptr \<Rightarrow> ptr \<Rightarrow> ptr \<Rightarrow> jmem \<Rightarrow> (bool \<times> jmem) option" where
  "cJSON_ReplaceItemViaPointer parent item replacement m =
     (case parent of
        None \<Rightarrow> Some (False, m)
      | Some pa \<Rightarrow> do {
          p \<leftarrow> cells m pa;
          if chld p = None \<or> replacement = None \<or> item = None then Some (False, m)
          else if replacement = item then Some (True, m)
          else do {
            i \<leftarrow> cell item m;
            m \<leftarrow> edit replacement (\<lambda>c. c\<lparr>nxt := nxt i, prv := prv i\<rparr>) m;
            r \<leftarrow> cell replacement m;
            m \<leftarrow> (if nxt r \<noteq> None then edit (nxt r) (\<lambda>c. c\<lparr>prv := replacement\<rparr>) m else Some m);
            p \<leftarrow> cells m pa;
            m \<leftarrow> (if chld p = item then do {
                     f \<leftarrow> cell (chld p) m;
                     m \<leftarrow> (if prv f = chld p then edit replacement (\<lambda>c. c\<lparr>prv := replacement\<rparr>) m else Some m);
                     edit parent (\<lambda>c. c\<lparr>chld := replacement\<rparr>) m }
                   else do {
                     r \<leftarrow> cell replacement m;
                     m \<leftarrow> (if prv r \<noteq> None then edit (prv r) (\<lambda>c. c\<lparr>nxt := replacement\<rparr>) m else Some m);
                     r \<leftarrow> cell replacement m;
                     p \<leftarrow> cells m pa;
                     if nxt r = None then edit (chld p) (\<lambda>c. c\<lparr>prv := replacement\<rparr>) m else Some m });
            m \<leftarrow> edit item (\<lambda>c. c\<lparr>nxt := None, prv := None\<rparr>) m;
            m \<leftarrow> cJSON_Delete item m;
            Some (True, m) } })"

definition cJSON_ReplaceItemInArray :: "ptr \<Rightarrow> int \<Rightarrow> ptr \<Rightarrow> jmem \<Rightarrow> (bool \<times> jmem) option" where
  "cJSON_ReplaceItemInArray array which newitem m =
     (if which < 0 then Some (False, m)
      else do { p \<leftarrow> get_array_item array (nat which) m; cJSON_ReplaceItemViaPointer array p newitem m })"

definition replace_item_in_object :: "ptr \<Rightarrow> ptr \<Rightarrow> ptr \<Rightarrow> bool \<Rightarrow> jmem \<Rightarrow> (bool \<times> jmem) option" where
  "replace_item_in_object object s replacement case_sensitive m =
     (if replacement = None \<or> s = None then Some (False, m)
      else do {
        r \<leftarrow> cell replacement m;
        m \<leftarrow> (if \<not> has (jty r) cJSON_StringIsConst then free_string (jnm r) m else Some m);
        (key, m) \<leftarrow> cJSON_strdup s m;
        m \<leftarrow> edit replacement (\<lambda>c. c\<lparr>jnm := key\<rparr>) m;
        if key = None then Some (False, m)
        else do {
          m \<leftarrow> edit replacement (\<lambda>c. c\<lparr>jty := clear (jty c) cJSON_StringIsConst\<rparr>) m;
          p \<leftarrow> get_object_item object s case_sensitive m;
          cJSON_ReplaceItemViaPointer object p replacement m } })"

definition cJSON_ReplaceItemInObject :: "ptr \<Rightarrow> ptr \<Rightarrow> ptr \<Rightarrow> jmem \<Rightarrow> (bool \<times> jmem) option" where
  "cJSON_ReplaceItemInObject object s newitem m = replace_item_in_object object s newitem False m"

definition cJSON_ReplaceItemInObjectCaseSensitive :: "ptr \<Rightarrow> ptr \<Rightarrow> ptr \<Rightarrow> jmem \<Rightarrow> (bool \<times> jmem) option" where
  "cJSON_ReplaceItemInObjectCaseSensitive object s newitem m = replace_item_in_object object s newitem True m"


section \<open>The children of an item\<close>

text \<open>
  \<open>jseg m q xs n\<close>: the items \<open>xs\<close> are linked both ways, the first one's \<open>prev\<close> is \<open>q\<close>, the last one's
  \<open>next\<close> is \<open>n\<close>. \<open>kids m p xs\<close>: the children of \<open>p\<close> are \<open>xs\<close>, the first one's \<open>prev\<close> being the last.
\<close>

definition first :: "addr list \<Rightarrow> ptr \<Rightarrow> ptr" where
  "first xs n = (case xs of [] \<Rightarrow> n | b # _ \<Rightarrow> Some b)"

definition final :: "ptr \<Rightarrow> addr list \<Rightarrow> ptr" where
  "final q xs = (if xs = [] then q else Some (last xs))"

fun jseg :: "(addr \<rightharpoonup> jcell) \<Rightarrow> ptr \<Rightarrow> addr list \<Rightarrow> ptr \<Rightarrow> bool" where
  "jseg h q [] n \<longleftrightarrow> True"
| "jseg h q (a # xs) n \<longleftrightarrow> (\<exists>c. h a = Some c \<and> prv c = q \<and> nxt c = first xs n \<and> jseg h (Some a) xs n)"

definition kids :: "jmem \<Rightarrow> addr \<Rightarrow> addr list \<Rightarrow> bool" where
  "kids m p xs \<longleftrightarrow> distinct (p # xs) \<and> (\<exists>c. cells m p = Some c \<and> chld c = first xs None) \<and>
     jseg (cells m) (final None xs) xs None"

lemma first_simps [simp]: "first [] n = n" "first (a # xs) n = Some a" "first (xs @ ys) n = first xs (first ys n)"
  by (simp_all add: first_def split: list.split)

lemma final_simps [simp]: "final q [] = q" "final q (a # xs) = final (Some a) xs" "final q (xs @ [a]) = Some a"
  by (simp_all add: final_def)

lemma final_append [simp]: "final q (xs @ ys) = final (final q xs) ys"
  by (simp add: final_def)

lemma jseg_append: "jseg h q (xs @ ys) n \<longleftrightarrow> jseg h q xs (first ys n) \<and> jseg h (final q xs) ys n"
  by (induction xs arbitrary: q) auto

lemma jseg_upd [simp]: "a \<notin> set xs \<Longrightarrow> jseg (h(a := v)) q xs n \<longleftrightarrow> jseg h q xs n"
  by (induction xs arbitrary: q) auto

lemma jseg_cong: "\<forall>a \<in> set xs. h' a = h a \<Longrightarrow> jseg h' q xs n \<longleftrightarrow> jseg h q xs n"
  by (induction xs arbitrary: q) auto

lemma jseg_alloc: "jseg h q xs n \<Longrightarrow> a \<in> set xs \<Longrightarrow> \<exists>c. h a = Some c"
  by (induction xs arbitrary: q) auto

lemma jseg_set_prv:
  "jseg h q (a # xs) n \<Longrightarrow> a \<notin> set xs \<Longrightarrow> h a = Some c \<Longrightarrow> jseg (h(a \<mapsto> c\<lparr>prv := q'\<rparr>)) q' (a # xs) n"
  by simp

lemma jseg_set_nxt:
  "jseg h q (xs @ [a]) n \<Longrightarrow> a \<notin> set xs \<Longrightarrow> h a = Some c \<Longrightarrow> jseg (h(a \<mapsto> c\<lparr>nxt := n'\<rparr>)) q (xs @ [a]) n'"
  by (simp add: jseg_append)

text \<open>
  \<open>relinked p xs ys m m'\<close>: the list at \<open>p\<close> was \<open>xs\<close> and is \<open>ys\<close>; only links among \<open>p\<close> and these items
  differ.
\<close>

definition body :: "jcell \<Rightarrow> jcell" where
  "body c = c\<lparr>nxt := None, prv := None\<rparr>"

definition relinked :: "addr \<Rightarrow> addr list \<Rightarrow> addr list \<Rightarrow> jmem \<Rightarrow> jmem \<Rightarrow> bool" where
  "relinked p xs ys m m' \<longleftrightarrow> kids m' p ys \<and> strs m' = strs m \<and> asks m' = asks m \<and> grant m' = grant m \<and>
     (\<forall>a. a \<notin> set (p # xs @ ys) \<longrightarrow> cells m' a = cells m a) \<and>
     (\<forall>a. a \<noteq> p \<longrightarrow> map_option body (cells m' a) = map_option body (cells m a)) \<and>
     map_option (\<lambda>c. c\<lparr>chld := None\<rparr>) (cells m' p) = map_option (\<lambda>c. c\<lparr>chld := None\<rparr>) (cells m p)"

lemma cell_Some [simp]: "cell (Some a) m = cells m a"
  by (simp add: cell_def)

lemma edit_Some [simp]:
  "cells m a = Some c \<Longrightarrow> edit (Some a) f m = Some (m\<lparr>cells := (cells m)(a \<mapsto> f c)\<rparr>)"
  by (simp add: edit_def)

lemma add_item_to_array_links:
  assumes k: "kids m p xs" and x: "x \<notin> set (p # xs)" "cells m x = Some cx" "nxt cx = None"
  shows "\<exists>m'. add_item_to_array (Some p) (Some x) m = Some (True, m') \<and> relinked p xs (xs @ [x]) m m'"
proof (cases xs)
  case Nil
  obtain cp where cp: "cells m p = Some cp" "chld cp = None" using k Nil by (auto simp: kids_def)
  show ?thesis using x cp Nil
    by (auto simp: add_item_to_array_def relinked_def kids_def body_def)
next
  case (Cons f r)
  obtain cp where cp: "cells m p = Some cp" "chld cp = Some f" using k Cons by (auto simp: kids_def)
  have d: "distinct (p # xs)" and s: "jseg (cells m) (final None xs) xs None" using k by (auto simp: kids_def)
  define l where "l = last xs"
  have xs: "xs = butlast xs @ [l]" using Cons by (simp add: l_def)
  then have nl: "l \<notin> set (butlast xs)" using d by (metis distinct.simps(2) distinct_append disjoint_iff list.set_intros(1))
  obtain cf where cf: "cells m f = Some cf" "prv cf = Some l" using s Cons by (auto simp: final_def l_def)
  have lin: "l \<in> set xs" by (simp add: l_def Cons)
  then obtain cl where cl: "cells m l = Some cl" using jseg_alloc [OF s, of l] by auto
  define h1 where "h1 = (cells m)(l \<mapsto> cl\<lparr>nxt := Some x\<rparr>)"
  define h2 where "h2 = h1(x \<mapsto> cx\<lparr>prv := Some l\<rparr>)"
  have lx: "l \<noteq> x" "f \<noteq> x" "l \<noteq> p" "f \<noteq> p" using x d lin Cons by auto
  obtain cf' where cf': "h2 f = Some cf'" using cf lx by (cases "f = l") (auto simp: h2_def h1_def)
  define h3 where "h3 = h2(f \<mapsto> cf'\<lparr>prv := Some x\<rparr>)"
  have "jseg h1 (final None xs) xs (Some x)"
    using jseg_set_nxt [of "cells m" _ "butlast xs" l] s xs nl cl unfolding h1_def by metis
  then have "jseg h2 (final None xs) xs (Some x)" using x by (simp add: h2_def)
  then have s3: "jseg h3 (Some x) xs (Some x)"
    using jseg_set_prv [of h2 _ f r "Some x" cf'] d cf' unfolding h3_def Cons by (simp del: jseg.simps)
  have x3: "h3 x = Some (cx\<lparr>prv := Some l\<rparr>)" using lx by (simp add: h3_def h2_def)
  have fin: "final (Some x) xs = Some l" using Cons by (simp add: final_def l_def)
  have k': "kids (m\<lparr>cells := h3\<rparr>) p (xs @ [x])"
    using s3 x3 x d cp lx fin Cons by (auto simp: kids_def jseg_append h3_def h2_def h1_def)
  have run: "add_item_to_array (Some p) (Some x) m = Some (True, m\<lparr>cells := h3\<rparr>)"
  proof -
    have "h1 x = Some cx" "h2 p = Some cp" using x lx cp by (auto simp: h1_def h2_def)
    then show ?thesis using x cp cf cl cf' lx
      by (simp add: add_item_to_array_def suffix_object_def h1_def [symmetric] h2_def [symmetric] h3_def [symmetric])
  qed
  have "relinked p xs (xs @ [x]) m (m\<lparr>cells := h3\<rparr>)"
    using k' cl cf cf' x lx lin Cons by (auto simp: relinked_def body_def h3_def h2_def h1_def)
  then show ?thesis using run by blast
qed


lemma kidsD:
  assumes "kids m p (ys @ x # zs)"
  shows "distinct (p # ys @ x # zs)"
    "\<exists>cp. cells m p = Some cp \<and> chld cp = first ys (Some x)"
    "jseg (cells m) (final (Some x) zs) ys (Some x)"
    "\<exists>cx. cells m x = Some cx \<and> prv cx = final (final (Some x) zs) ys \<and> nxt cx = first zs None"
    "jseg (cells m) (Some x) zs None"
  using assms unfolding kids_def by (auto simp: jseg_append)

text \<open>Detaching the item \<open>x\<close> from between \<open>ys\<close> and \<open>zs\<close>.\<close>

lemma detach_links:
  assumes k: "kids m p (ys @ x # zs)"
  shows "\<exists>m' c. cJSON_DetachItemViaPointer (Some p) (Some x) m = Some (Some x, m') \<and>
    relinked p (ys @ x # zs) (ys @ zs) m m' \<and> cells m' x = Some c \<and> nxt c = None \<and> prv c = None"
proof -
  have d: "distinct (p # ys @ x # zs)" by (rule kidsD [OF k])
  obtain cp where cp: "cells m p = Some cp" "chld cp = first ys (Some x)" using kidsD [OF k] by blast
  have sy: "jseg (cells m) (final (Some x) zs) ys (Some x)" by (rule kidsD [OF k])
  obtain cx where cx: "cells m x = Some cx" "prv cx = final (final (Some x) zs) ys" "nxt cx = first zs None"
    using kidsD [OF k] by blast
  have sz: "jseg (cells m) (Some x) zs None" by (rule kidsD [OF k])
  have nx: "x \<noteq> p" using d by auto
  show ?thesis
  proof (cases ys rule: rev_cases)
    case Nil
    show ?thesis
    proof (cases zs)
      case Nil
      then show ?thesis using \<open>ys = []\<close> cp cx nx d
        by (auto simp: cJSON_DetachItemViaPointer_def relinked_def kids_def body_def)
    next
      case (Cons z zs')
      then obtain cz where cz: "cells m z = Some cz" using sz by auto
      have "jseg ((cells m)(z \<mapsto> cz\<lparr>prv := prv cx\<rparr>)) (prv cx) (z # zs') None"
        using jseg_set_prv [of "cells m" "Some x" z zs' None cz] sz cz d Cons by simp
      then show ?thesis using \<open>ys = []\<close> Cons cp cx cz nx d
        by (auto simp: cJSON_DetachItemViaPointer_def relinked_def kids_def body_def)
    qed
  next
    case (snoc bs b)
    obtain cb where cb: "cells m b = Some cb" using sy snoc by (auto simp: jseg_append)
    have db: "b \<noteq> x" "b \<noteq> p" "b \<notin> set bs" "b \<notin> set zs" using d snoc by auto
    have hd: "first ys (Some x) \<noteq> Some x" using d snoc by (cases bs) auto
    let ?h1 = "(cells m)(b \<mapsto> cb\<lparr>nxt := nxt cx\<rparr>)"
    have s1: "jseg ?h1 (final (Some x) zs) ys (nxt cx)"
      using jseg_set_nxt [of "cells m" _ bs b "Some x" cb] sy cb db snoc by simp
    have pb: "prv cx = Some b" using cx snoc by simp
    show ?thesis
    proof (cases zs)
      case Nil
      define f where "f = hd ys"
      have f: "first ys n = Some f" "ys = f # tl ys" for n using snoc by (cases bs; simp add: f_def)+
      have fin: "f \<in> set ys" using f(2) by (metis list.set_intros(1))
      then obtain cf where cf: "?h1 f = Some cf" using jseg_alloc [OF s1] by blast
      let ?h2 = "?h1(f \<mapsto> cf\<lparr>prv := Some b\<rparr>)"
      have "f \<notin> set (tl ys)" using d f(2) by (metis distinct.simps(2) distinct_append)
      then have "jseg ?h2 (Some b) ys (nxt cx)"
        using jseg_set_prv [of ?h1 _ f "tl ys" _ cf] s1 cf f(2) by metis
      moreover have "f \<noteq> x" "f \<noteq> p" using fin d by auto
      ultimately show ?thesis using Nil cp cx cb cf db pb hd f(1) nx d fin snoc
        by (auto simp: cJSON_DetachItemViaPointer_def relinked_def kids_def body_def final_def split: if_splits)
    next
      case (Cons z zs')
      obtain cz where cz: "cells m z = Some cz" using sz Cons by auto
      have dz: "z \<noteq> b" "z \<noteq> x" "z \<noteq> p" "z \<notin> set ys" using d snoc Cons by auto
      have "jseg ((cells m)(z \<mapsto> cz\<lparr>prv := Some b\<rparr>)) (Some b) zs None"
        using jseg_set_prv [of "cells m" "Some x" z zs' None cz] sz cz d Cons by simp
      then have "jseg (?h1(z \<mapsto> cz\<lparr>prv := Some b\<rparr>)) (Some b) zs None"
        using db dz by (simp add: fun_upd_twist [of b z] del: fun_upd_apply)
      moreover have "jseg (?h1(z \<mapsto> cz\<lparr>prv := Some b\<rparr>)) (final (Some x) zs) ys (nxt cx)"
        using s1 dz by simp
      ultimately show ?thesis using Cons cp cx cb cz db dz pb hd nx d snoc
        by (auto simp: cJSON_DetachItemViaPointer_def relinked_def kids_def body_def jseg_append)
    qed
  qed
qed


text \<open>Inserting the detached item \<open>n\<close> in front of \<open>x\<close>; the last steps of \<open>cJSON_InsertItemInArray\<close>.\<close>

lemma insert_links:
  assumes k: "kids m p (ys @ x # zs)" and n: "n \<notin> set (p # ys @ x # zs)" "cells m n = Some cn"
    and g: "get_array_item (Some p) (nat w) m = Some (Some x)" "0 \<le> w"
  shows "\<exists>m'. cJSON_InsertItemInArray (Some p) w (Some n) m = Some (True, m') \<and>
    relinked p (ys @ x # zs) (ys @ n # x # zs) m m'"
proof -
  have d: "distinct (p # ys @ x # zs)" by (rule kidsD [OF k])
  obtain cp where cp: "cells m p = Some cp" "chld cp = first ys (Some x)" using kidsD [OF k] by blast
  have sy: "jseg (cells m) (final (Some x) zs) ys (Some x)" by (rule kidsD [OF k])
  obtain cx where cx: "cells m x = Some cx" "prv cx = final (final (Some x) zs) ys" "nxt cx = first zs None"
    using kidsD [OF k] by blast
  have sz: "jseg (cells m) (Some x) zs None" by (rule kidsD [OF k])
  have ne: "x \<noteq> p" "x \<noteq> n" "n \<noteq> p" "n \<notin> set ys" "n \<notin> set zs" "x \<notin> set ys" "x \<notin> set zs" using d n by auto
  let ?h1 = "(cells m)(n \<mapsto> cn\<lparr>nxt := Some x, prv := prv cx\<rparr>)"
  let ?h2 = "?h1(x \<mapsto> cx\<lparr>prv := Some n\<rparr>)"
  have sz2: "jseg ?h2 (Some x) zs None" using sz ne by simp
  show ?thesis
  proof (cases ys rule: rev_cases)
    case Nil
    then show ?thesis using cp cx n g ne d sz2
      by (auto simp: cJSON_InsertItemInArray_def relinked_def kids_def body_def final_def)
  next
    case (snoc bs b)
    have hd: "first ys (Some x) \<noteq> Some x" using d snoc by (cases bs) auto
    have pb: "prv cx = Some b" using cx snoc by simp
    have db: "b \<noteq> x" "b \<noteq> p" "b \<noteq> n" "b \<notin> set bs" "b \<notin> set zs" using d n snoc by auto
    have sy2: "jseg ?h2 (final (Some x) zs) ys (Some x)" using sy ne by simp
    then obtain cb where cb: "?h2 b = Some cb" using snoc by (auto simp: jseg_append)
    have "jseg (?h2(b \<mapsto> cb\<lparr>nxt := Some n\<rparr>)) (final (Some x) zs) ys (Some n)"
      using jseg_set_nxt [of ?h2 _ bs b "Some x" cb] sy2 cb db snoc by simp
    moreover have "jseg (?h2(b \<mapsto> cb\<lparr>nxt := Some n\<rparr>)) (Some x) zs None" using sz2 db by simp
    ultimately show ?thesis using cp cx cb n g ne d db pb hd snoc
      by (auto simp: cJSON_InsertItemInArray_def relinked_def kids_def body_def jseg_append final_def split: if_splits)
  qed
qed

text \<open>Replacing \<open>x\<close> by the detached item \<open>r\<close>, up to the deletion of \<open>x\<close>.\<close>

lemma replace_links:
  assumes k: "kids m p (ys @ x # zs)" and r: "r \<notin> set (p # ys @ x # zs)" "cells m r = Some cr"
  shows "\<exists>m' c. cJSON_ReplaceItemViaPointer (Some p) (Some x) (Some r) m =
      map_option (\<lambda>m. (True, m)) (cJSON_Delete (Some x) m') \<and>
    relinked p (ys @ x # zs) (ys @ r # zs) m m' \<and> cells m' x = Some c \<and> nxt c = None \<and> prv c = None"
proof -
  have d: "distinct (p # ys @ x # zs)" by (rule kidsD [OF k])
  obtain cp where cp: "cells m p = Some cp" "chld cp = first ys (Some x)" using kidsD [OF k] by blast
  have sy: "jseg (cells m) (final (Some x) zs) ys (Some x)" by (rule kidsD [OF k])
  obtain cx where cx: "cells m x = Some cx" "prv cx = final (final (Some x) zs) ys" "nxt cx = first zs None"
    using kidsD [OF k] by blast
  have sz: "jseg (cells m) (Some x) zs None" by (rule kidsD [OF k])
  have ne: "x \<noteq> p" "x \<noteq> r" "r \<noteq> p" "r \<notin> set ys" "r \<notin> set zs" "x \<notin> set ys" "x \<notin> set zs" using d r by auto
  have fin: "Option.bind q (\<lambda>m. Some (True, m)) = map_option (\<lambda>m. (True, m)) q" for q :: "jmem option"
    by (cases q) auto
  let ?h1 = "(cells m)(r \<mapsto> cr\<lparr>nxt := nxt cx, prv := prv cx\<rparr>)"
  define h2 where "h2 = (case zs of [] \<Rightarrow> ?h1 | z # _ \<Rightarrow> ?h1(z := map_option (\<lambda>c. c\<lparr>prv := Some r\<rparr>) (cells m z)))"
  have sz2: "jseg h2 (Some r) zs None"
  proof (cases zs)
    case (Cons z zs')
    then obtain cz where cz: "cells m z = Some cz" using sz by auto
    have "z \<noteq> r" "z \<notin> set zs'" "r \<notin> set zs'" using ne d Cons by auto
    then show ?thesis using sz cz Cons by (auto simp: h2_def)
  qed (simp add: h2_def)
  have sy2: "jseg h2 (final (Some x) zs) ys (Some x)"
    using sy ne d by (cases zs) (auto simp: h2_def)
  have o: "h2 a = cells m a" if "a \<noteq> r" "a \<notin> set zs" for a
    using that by (cases zs) (auto simp: h2_def)
  have r2: "h2 r = Some (cr\<lparr>nxt := nxt cx, prv := prv cx\<rparr>)"
    using ne by (cases zs) (auto simp: h2_def)
  have b2: "map_option body (h2 a) = map_option body (cells m a)" for a
    using r(2) by (cases zs; cases "cells m a") (auto simp: h2_def body_def)
  have step1: "(if nxt cx \<noteq> None then edit (nxt cx) (\<lambda>c. c\<lparr>prv := Some r\<rparr>) (m\<lparr>cells := ?h1\<rparr>) else Some (m\<lparr>cells := ?h1\<rparr>))
      = Some (m\<lparr>cells := h2\<rparr>)"
  proof (cases zs)
    case (Cons z zs')
    then obtain cz where cz: "cells m z = Some cz" using sz by auto
    then show ?thesis using cx Cons ne by (auto simp: h2_def edit_def)
  qed (simp add: h2_def cx)
  have p2: "h2 p = Some cp" "h2 x = Some cx" using o [of p] o [of x] d ne cp cx by auto
  show ?thesis
  proof (cases ys rule: rev_cases)
    case Nil
    define cr' where "cr' = cr\<lparr>nxt := nxt cx, prv := (if zs = [] then Some r else prv cx)\<rparr>"
    define h2' where "h2' = (if zs = [] then h2(r \<mapsto> cr') else h2)"
    define h3 where "h3 = h2'(p \<mapsto> cp\<lparr>chld := Some r\<rparr>, x \<mapsto> cx\<lparr>nxt := None, prv := None\<rparr>)"
    have h2': "h2' r = Some cr'" "a \<noteq> r \<Longrightarrow> h2' a = h2 a" for a
      using r2 by (auto simp: h2'_def cr'_def)
    have last: "prv cx = Some x \<longleftrightarrow> zs = []" using cx Nil ne(7) by (cases zs rule: rev_cases) auto
    have step2: "(if prv cx = Some x then edit (Some r) (\<lambda>c. c\<lparr>prv := Some r\<rparr>) (m\<lparr>cells := h2\<rparr>) else Some (m\<lparr>cells := h2\<rparr>))
        = Some (m\<lparr>cells := h2'\<rparr>)"
      unfolding last using r2 by (simp add: h2'_def cr'_def edit_def)
    have run: "cJSON_ReplaceItemViaPointer (Some p) (Some x) (Some r) m =
        map_option (\<lambda>m. (True, m)) (cJSON_Delete (Some x) (m\<lparr>cells := h3\<rparr>))"
      using Nil cp cx r(2) ne p2 r2 step1 step2 h2'(2) [of p] h2'(2) [of x] unfolding cJSON_ReplaceItemViaPointer_def
      by (cases zs) (simp_all add: h3_def fin)
    have "jseg h3 (Some r) zs None" using sz2 ne d by (auto simp: h3_def h2'_def)
    then have k3: "kids (m\<lparr>cells := h3\<rparr>) p (ys @ r # zs)"
      using Nil d ne cx r h2'(1) by (cases zs) (auto simp: kids_def h3_def cr'_def final_def)
    have bod: "map_option body (h2' a) = map_option body (cells m a)" for a
      using b2 [of a] h2'(1) h2'(2) [of a] r(2) by (cases "a = r") (auto simp: cr'_def body_def)
    have "relinked p (ys @ x # zs) (ys @ r # zs) m (m\<lparr>cells := h3\<rparr>)"
      using k3 o bod r(2) cp cx ne Nil h2'
      by (auto simp: relinked_def h3_def body_def)
    then show ?thesis using run by (auto simp: h3_def intro!: exI [of _ "m\<lparr>cells := h3\<rparr>"])
  next
    case (snoc bs b)
    have hd: "first ys (Some x) \<noteq> Some x" using d snoc by (cases bs) auto
    have pb: "prv cx = Some b" using cx snoc by simp
    have db: "b \<noteq> x" "b \<noteq> p" "b \<noteq> r" "b \<notin> set bs" "b \<notin> set zs" using d r snoc by auto
    obtain cb where cb: "h2 b = Some cb" "cells m b = Some cb" using sy2 o [of b] db snoc by (auto simp: jseg_append)
    define h3 where "h3 = h2(b \<mapsto> cb\<lparr>nxt := Some r\<rparr>)"
    have sy3: "jseg h3 (final (Some x) zs) ys (Some r)"
      using jseg_set_nxt [of h2 _ bs b "Some x" cb] sy2 cb db snoc unfolding h3_def by simp
    have "ys \<noteq> []" using snoc by simp
    then obtain f fs where f: "ys = f # fs" by (meson neq_Nil_conv)
    obtain cf where cf: "h3 f = Some cf" using sy3 f by auto
    have cpf: "chld cp = Some f" using cp f by simp
    have df: "f \<noteq> x" "f \<noteq> p" "f \<noteq> r" "f \<notin> set fs" "f \<notin> set zs" using d r f by auto
    define h4 where "h4 = (if zs = [] then h3(f \<mapsto> cf\<lparr>prv := Some r\<rparr>) else h3)"
    define h5 where "h5 = h4(x \<mapsto> cx\<lparr>nxt := None, prv := None\<rparr>)"
    have r4: "h4 r = h2 r" "h4 x = Some cx" "h4 p = Some cp" using db df ne p2 by (auto simp: h4_def h3_def)
    have step2: "(if nxt cx = None then edit (chld cp) (\<lambda>c. c\<lparr>prv := Some r\<rparr>) (m\<lparr>cells := h3\<rparr>) else Some (m\<lparr>cells := h3\<rparr>))
        = Some (m\<lparr>cells := h4\<rparr>)"
      using cx cp cf f by (cases zs) (auto simp: h4_def edit_def)
    have h3a: "h3 r = h2 r" "h3 p = Some cp" using db p2 by (auto simp: h3_def)
    have run: "cJSON_ReplaceItemViaPointer (Some p) (Some x) (Some r) m =
        map_option (\<lambda>m. (True, m)) (cJSON_Delete (Some x) (m\<lparr>cells := h5\<rparr>))"
      using cp(1) cpf cx(1,3) r(2) ne p2 r2 step1 step2 df(1) pb cb r4 h3a unfolding cJSON_ReplaceItemViaPointer_def
      by (cases zs) (simp_all add: h3_def [symmetric] h5_def fin)
    have "jseg h4 (final (Some r) zs) ys (Some r)"
    proof (cases zs)
      case Nil
      then show ?thesis
        using jseg_set_prv [of h3 _ f fs "Some r" cf "Some r"] sy3 cf df f by (simp add: h4_def)
    next
      case (Cons z zs')
      then show ?thesis using sy3 by (simp add: h4_def)
    qed
    then have s5: "jseg h5 (final (Some r) zs) ys (Some r)" using ne by (simp add: h5_def)
    have "jseg h3 (Some r) zs None" using sz2 db by (simp add: h3_def)
    then have "jseg h5 (Some r) zs None" using ne df by (auto simp: h5_def h4_def)
    then have k5: "kids (m\<lparr>cells := h5\<rparr>) p (ys @ r # zs)"
      using s5 d r ne r2 r4 cx cp pb snoc f by (auto simp: kids_def jseg_append h5_def)
    have inys: "b \<in> set ys" by (simp add: snoc)
    have infs: "f \<in> set ys" by (simp add: f)
    have out: "cells m a = h5 a" if "a \<noteq> p" "a \<notin> set (ys @ x # zs)" "a \<noteq> r" for a
      using that o [of a] inys infs by (auto simp: h5_def h4_def h3_def)
    have bod: "map_option body (h5 a) = map_option body (cells m a)" for a
      using b2 [of a] b2 [of f] cf cx cb db df by (auto simp: h5_def h4_def h3_def body_def split: if_splits)
    have "relinked p (ys @ x # zs) (ys @ r # zs) m (m\<lparr>cells := h5\<rparr>)"
      using k5 out bod cp r4 ne by (auto simp: relinked_def h5_def)
    then show ?thesis using run by (auto simp: h5_def intro!: exI [of _ "m\<lparr>cells := h5\<rparr>"])
  qed
qed


section \<open>Lookup in a list\<close>

lemma string_at_None [simp]: "string_at None m = None"
  by (simp add: string_at_def)

lemma string_at_ptr: "string_at p m = Some s \<Longrightarrow> p \<noteq> None"
  by (cases p) auto

lemma kids_chain: "kids m p xs \<Longrightarrow> \<exists>c. cells m p = Some c \<and> chld c = first xs None \<and> jseg (cells m) (final None xs) xs None"
  by (auto simp: kids_def)

lemma chain_length_jseg: "jseg (cells m) q xs None \<Longrightarrow> chain_length (first xs None) n m = Some (n + length xs)"
proof (induction xs arbitrary: q n)
  case Nil
  show ?case by (subst chain_length.simps) simp
next
  case (Cons a xs)
  then obtain c where c: "cells m a = Some c" "nxt c = first xs None" "jseg (cells m) (Some a) xs None" by auto
  show ?case using Cons.IH [OF c(3)] c by (subst chain_length.simps) simp
qed

lemma walk_jseg: "jseg (cells m) q xs None \<Longrightarrow> walk i (first xs None) m = Some (if i < length xs then Some (xs ! i) else None)"
proof (induction xs arbitrary: q i)
  case Nil
  show ?case by (cases i) auto
next
  case (Cons a xs)
  then obtain c where c: "cells m a = Some c" "nxt c = first xs None" "jseg (cells m) (Some a) xs None" by auto
  show ?case using Cons.IH [OF c(3)] c by (cases i) auto
qed

lemma get_array_item_kids:
  "kids m p xs \<Longrightarrow> get_array_item (Some p) i m = Some (if i < length xs then Some (xs ! i) else None)"
  using walk_jseg by (auto simp: get_array_item_def dest!: kids_chain)

lemma compare_lower_eq: "no_nul s \<Longrightarrow> no_nul t \<Longrightarrow> compare_lower s t = 0 \<longleftrightarrow> map tolower s = map tolower t"
proof (induction s t rule: compare_lower.induct)
  case (2 d ds)
  have "tolower d \<noteq> 0"
  proof
    assume "tolower d = 0"
    then have "ord_c d = ord_c NUL" by (simp add: tolower_def split: if_splits)
    then show False using 2 char_eqI by (auto simp: no_nul_def)
  qed
  then show ?case by simp
next
  case (3 c cs)
  have "tolower c \<noteq> 0"
  proof
    assume "tolower c = 0"
    then have "ord_c c = ord_c NUL" by (simp add: tolower_def split: if_splits)
    then show False using 3 char_eqI by (auto simp: no_nul_def)
  qed
  then show ?case by simp
qed (auto simp: no_nul_def)

text \<open>Whether an item with this name is the one that is looked for.\<close>

definition name_matches :: "bool \<Rightarrow> string \<Rightarrow> string option \<Rightarrow> bool" where
  "name_matches case_sensitive s nm =
     (case nm of None \<Rightarrow> False | Some t \<Rightarrow> if case_sensitive then s = t else map tolower s = map tolower t)"

text \<open>The names of a list of items; \<open>None\<close> for an item without a name.\<close>

definition names_ok :: "jmem \<Rightarrow> addr list \<Rightarrow> bool" where
  "names_ok m xs \<longleftrightarrow> (\<forall>a \<in> set xs. \<forall>c. cells m a = Some c \<longrightarrow> jnm c \<noteq> None \<longrightarrow> string_at (jnm c) m \<noteq> None)"

definition name_of :: "jmem \<Rightarrow> addr \<Rightarrow> string option" where
  "name_of m a = (case cells m a of None \<Rightarrow> None | Some c \<Rightarrow> string_at (jnm c) m)"

text \<open>
  A search stops at the first item whose name is the one that is looked for; one that minds the case also stops at an item
  without a name, which \<open>get_object_item\<close> then refuses.
\<close>

definition stops_at :: "bool \<Rightarrow> string \<Rightarrow> string option \<Rightarrow> bool" where
  "stops_at case_sensitive s nm \<longleftrightarrow> case_sensitive \<and> nm = None \<or> name_matches case_sensitive s nm"

lemma goes_on_stops:
  assumes "string_at name m = Some s" "nm \<noteq> None \<Longrightarrow> string_at nm m \<noteq> None"
  shows "goes_on cs name nm m = Some (\<not> stops_at cs s (string_at nm m))"
proof (cases nm)
  case None
  then show ?thesis using assms
    by (simp add: goes_on_def case_insensitive_strcmp_def stops_at_def name_matches_def string_at_def)
next
  case (Some a)
  then obtain t where t: "string_at nm m = Some t" using assms(2) by auto
  have n: "no_nul s" "no_nul t"
    using assms(1) t by (auto simp: string_at_def bind_Some_iff dest: c_string_no_nul split: option.splits)
  have "name \<noteq> None" by (rule string_at_ptr [OF assms(1)])
  then show ?thesis using assms(1) t Some compare_lower_eq [OF n]
    by (auto simp: goes_on_def case_insensitive_strcmp_def stops_at_def name_matches_def)
qed

lemma search_name_jseg:
  assumes "string_at name m = Some s" "jseg (cells m) q xs None" "names_ok m xs"
  shows "search_name cs name (first xs None) m = Some (find (\<lambda>a. stops_at cs s (name_of m a)) xs)"
  using assms(2,3)
proof (induction xs arbitrary: q)
  case Nil
  show ?case by (subst search_name.simps) simp
next
  case (Cons a xs)
  then obtain c where c: "cells m a = Some c" "nxt c = first xs None" "jseg (cells m) (Some a) xs None" by auto
  have n: "name_of m a = string_at (jnm c) m" using c by (simp add: name_of_def)
  have "jnm c \<noteq> None \<Longrightarrow> string_at (jnm c) m \<noteq> None" using Cons.prems(2) c by (auto simp: names_ok_def)
  then have g: "goes_on cs name (jnm c) m = Some (\<not> stops_at cs s (name_of m a))"
    unfolding n by (rule goes_on_stops [OF assms(1)])
  have "search_name cs name (first xs None) m = Some (find (\<lambda>a. stops_at cs s (name_of m a)) xs)"
    using Cons.IH [OF c(3)] Cons.prems by (auto simp: names_ok_def)
  then show ?case using c g by (subst search_name.simps) simp
qed

text \<open>The items that a lookup can reach: those before the first one without a name, when it minds the case.\<close>

definition reachable_items :: "bool \<Rightarrow> jmem \<Rightarrow> addr list \<Rightarrow> addr list" where
  "reachable_items case_sensitive m xs = (if case_sensitive then takeWhile (\<lambda>a. name_of m a \<noteq> None) xs else xs)"

lemma name_matches_None [simp]: "\<not> name_matches cs s None"
  by (simp add: name_matches_def)

lemma find_reachable:
  "find (\<lambda>a. name_matches cs s (name_of m a)) (reachable_items cs m xs) =
    (case find (\<lambda>a. stops_at cs s (name_of m a)) xs of
       None \<Rightarrow> None | Some a \<Rightarrow> if name_of m a = None then None else Some a)"
proof (induction xs)
  case (Cons a xs)
  then show ?case by (cases "name_of m a") (auto simp: reachable_items_def stops_at_def)
qed (simp add: reachable_items_def)

lemma get_object_item_reachable:
  assumes "kids m p xs" "string_at name m = Some s" "names_ok m xs"
  shows "get_object_item (Some p) name cs m =
    Some (find (\<lambda>a. name_matches cs s (name_of m a)) (reachable_items cs m xs))"
proof -
  obtain c where c: "cells m p = Some c" "chld c = first xs None" "jseg (cells m) (final None xs) xs None"
    using assms(1) kids_chain by blast
  have s: "search_name cs name (first xs None) m = Some (find (\<lambda>a. stops_at cs s (name_of m a)) xs)"
    by (rule search_name_jseg [OF assms(2) c(3) assms(3)])
  have n: "name \<noteq> None" by (rule string_at_ptr [OF assms(2)])
  show ?thesis
  proof (cases "find (\<lambda>a. stops_at cs s (name_of m a)) xs")
    case None
    then show ?thesis using c s n by (simp add: get_object_item_def find_reachable)
  next
    case (Some a)
    then have a: "a \<in> set xs" by (auto simp: find_Some_iff)
    obtain ca where ca: "cells m a = Some ca" using jseg_alloc [OF c(3) a] by blast
    have "jnm ca = None \<longleftrightarrow> name_of m a = None"
      using a ca assms(3) by (auto simp: names_ok_def name_of_def string_at_def)
    then show ?thesis using c s n Some ca by (simp add: get_object_item_def find_reachable)
  qed
qed

lemma get_object_item_kids:
  assumes "kids m p xs" "string_at name m = Some s" "names_ok m xs" "\<not> cs \<or> (\<forall>a \<in> set xs. name_of m a \<noteq> None)"
  shows "get_object_item (Some p) name cs m = Some (find (\<lambda>a. name_matches cs s (name_of m a)) xs)"
proof -
  have "reachable_items cs m xs = xs" using assms(4) by (auto simp: reachable_items_def)
  then show ?thesis using get_object_item_reachable [OF assms(1-3)] by simp
qed


section \<open>Properties\<close>

text \<open>
  C26: \<open>cJSON_InsertItemInArray\<close> is insertion in a list: a free item put at index \<open>w\<close> of a well-linked list
  of children stands there, at the end when \<open>w\<close> is past it (as with \<open>cJSON_AddItemToArray\<close>); the list is
  well linked again (both directions, the first one's \<open>prev\<close> the last) and nothing but these links
  has changed in memory.
\<close>

theorem cJSON_InsertItemInArray_refines:
  assumes "kids m p xs" "x \<notin> set (p # xs)" "cells m x = Some cx" "nxt cx = None" "0 \<le> w"
  shows "\<exists>m'. cJSON_InsertItemInArray (Some p) w (Some x) m = Some (True, m') \<and>
    relinked p xs (take (nat w) xs @ x # drop (nat w) xs) m m'"
proof (cases "nat w < length xs")
  case True
  then have xs: "xs = take (nat w) xs @ xs ! nat w # drop (Suc (nat w)) xs" by (simp add: id_take_nth_drop)
  have "get_array_item (Some p) (nat w) m = Some (Some (xs ! nat w))"
    using get_array_item_kids [OF assms(1), of "nat w"] True by simp
  then show ?thesis
    using insert_links [of m p "take (nat w) xs" "xs ! nat w" "drop (Suc (nat w)) xs" x cx w] assms
    by (simp only: Cons_nth_drop_Suc [OF True] append_take_drop_id simp_thms)
next
  case False
  then have "get_array_item (Some p) (nat w) m = Some None" using get_array_item_kids [OF assms(1), of "nat w"] by simp
  then have "cJSON_InsertItemInArray (Some p) w (Some x) m = add_item_to_array (Some p) (Some x) m"
    using assms(5) by (simp add: cJSON_InsertItemInArray_def)
  then show ?thesis using add_item_to_array_links [OF assms(1-4)] False by simp
qed

text \<open>
  \<open>cJSON_DetachItemFromArray\<close> takes the item at index \<open>w\<close> out of the list and returns it with its
  links cleared; past the end it returns NULL and changes nothing.
\<close>

theorem cJSON_DetachItemFromArray_refines:
  assumes "kids m p xs" "0 \<le> w"
  shows "\<exists>r m'. cJSON_DetachItemFromArray (Some p) w m = Some (r, m') \<and>
    (if nat w < length xs
     then r = Some (xs ! nat w) \<and> relinked p xs (take (nat w) xs @ drop (nat w + 1) xs) m m' \<and>
       (\<exists>c. cells m' (xs ! nat w) = Some c \<and> nxt c = None \<and> prv c = None)
     else r = None \<and> m' = m)"
proof (cases "nat w < length xs")
  case True
  then have xs: "xs = take (nat w) xs @ xs ! nat w # drop (Suc (nat w)) xs" by (simp add: id_take_nth_drop)
  have "get_array_item (Some p) (nat w) m = Some (Some (xs ! nat w))"
    using get_array_item_kids [OF assms(1), of "nat w"] True by simp
  then show ?thesis
    using detach_links [of m p "take (nat w) xs" "xs ! nat w" "drop (Suc (nat w)) xs"] assms True
    by (auto simp: cJSON_DetachItemFromArray_def simp del: drop_Suc simp flip: xs)
next
  case False
  then have "get_array_item (Some p) (nat w) m = Some None" using get_array_item_kids [OF assms(1), of "nat w"] by simp
  then show ?thesis using False assms(2) by (simp add: cJSON_DetachItemFromArray_def cJSON_DetachItemViaPointer_def)
qed

text \<open>
  C27: a lookup by name. When the names are C strings, the lookup that ignores case returns the first child whose name
  equals the given one but for the case, and passes over children without a name. The lookup that minds the case returns
  the first child with exactly that name, but only among those that stand before the first child without a name:
  there it stops, and returns NULL. Both return NULL when there is none.
\<close>

theorem get_object_item_finds_first:
  assumes "kids m p xs" "string_at name m = Some s" "names_ok m xs"
  shows "get_object_item (Some p) name case_sensitive m =
    Some (find (\<lambda>a. name_matches case_sensitive s (name_of m a))
      (if case_sensitive then takeWhile (\<lambda>a. name_of m a \<noteq> None) xs else xs))"
  using get_object_item_reachable [OF assms] unfolding reachable_items_def .

text \<open>An object at 0 with the children \<open>a\<close>, \<open>B\<close> and \<open>b\<close>, and a free item at 4.\<close>

definition demo_mem :: jmem where
  "demo_mem = \<lparr>cells = [0 \<mapsto> zero_cell\<lparr>chld := Some 1, jty := cJSON_Object\<rparr>,
       1 \<mapsto> zero_cell\<lparr>nxt := Some 2, prv := Some 3, jty := cJSON_True, jnm := Some 5\<rparr>,
       2 \<mapsto> zero_cell\<lparr>nxt := Some 3, prv := Some 1, jty := cJSON_False, jnm := Some 6\<rparr>,
       3 \<mapsto> zero_cell\<lparr>prv := Some 2, jty := cJSON_NULL, jnm := Some 7\<rparr>,
       4 \<mapsto> zero_cell\<lparr>jty := cJSON_True\<rparr>],
     strs = [5 \<mapsto> ''a'' @ [NUL], 6 \<mapsto> ''B'' @ [NUL], 7 \<mapsto> ''b'' @ [NUL], 8 \<mapsto> ''b'' @ [NUL]],
     asks = 9, grant = (\<lambda>_. True)\<rparr>"

lemma demo_kids: "kids demo_mem 0 [1, 2, 3]"
  by (simp add: kids_def demo_mem_def zero_cell_def final_def)

theorem cJSON_InsertItemInArray_refines_witness:
  "\<exists>m'. cJSON_InsertItemInArray (Some 0) 1 (Some 4) demo_mem = Some (True, m') \<and>
    relinked 0 [1, 2, 3] [1, 4, 2, 3] demo_mem m'"
  using cJSON_InsertItemInArray_refines [OF demo_kids, of 4 "zero_cell\<lparr>jty := cJSON_True\<rparr>" 1]
  by (simp add: demo_mem_def zero_cell_def)

theorem cJSON_DetachItemFromArray_refines_witness:
  "\<exists>m'. cJSON_DetachItemFromArray (Some 0) 2 demo_mem = Some (Some 3, m') \<and>
    relinked 0 [1, 2, 3] [1, 2] demo_mem m'"
  using cJSON_DetachItemFromArray_refines [OF demo_kids, of 2] by (auto simp: numeral_2_eq_2 numeral_3_eq_3)

text \<open>The same object when its child \<open>B\<close> has lost its name.\<close>

definition demo_unnamed :: jmem where
  "demo_unnamed = demo_mem\<lparr>cells := (cells demo_mem)(2 \<mapsto> zero_cell\<lparr>nxt := Some 3, prv := Some 1, jty := cJSON_False\<rparr>)\<rparr>"

theorem get_object_item_finds_first_witness:
  "get_object_item (Some 0) (Some 8) False demo_mem = Some (Some 2) \<and>
   get_object_item (Some 0) (Some 8) True demo_mem = Some (Some 3) \<and>
   get_object_item (Some 0) (Some 8) False demo_unnamed = Some (Some 3) \<and>
   get_object_item (Some 0) (Some 8) True demo_unnamed = Some None"
proof -
  note ev = names_ok_def name_of_def string_at_def demo_unnamed_def demo_mem_def c_string_def zero_cell_def
  have b: "string_at (Some 8) demo_mem = Some ''b''" "string_at (Some 8) demo_unnamed = Some ''b''"
    by (simp_all add: ev)
  have n: "name_of demo_mem 1 = Some ''a''" "name_of demo_mem 2 = Some ''B''" "name_of demo_mem 3 = Some ''b''"
    "name_of demo_unnamed 1 = Some ''a''" "name_of demo_unnamed 2 = None" "name_of demo_unnamed 3 = Some ''b''"
    by (simp_all add: ev)
  have ok: "names_ok demo_mem [1, 2, 3]" "names_ok demo_unnamed [1, 2, 3]"
    by (simp_all add: ev)
  have k: "kids demo_unnamed 0 [1, 2, 3]"
    by (simp add: kids_def demo_unnamed_def demo_mem_def zero_cell_def final_def)
  show ?thesis
    using get_object_item_finds_first [OF demo_kids b(1) ok(1)] get_object_item_finds_first [OF k b(2) ok(2)] n
    by (simp add: name_matches_def tolower_def)
qed

end
