(* ===== verification/Cjson_Create.thy ===== *)
theory Cjson_Create
  imports Cjson_Heap
begin

text \<open>
  Making items: the \<open>cJSON_Create\<close> functions, the \<open>cJSON_Add..ToObject\<close> functions, arrays from C arrays,
  \<open>cJSON_Duplicate\<close>, the setters, the type tests, and the choice of the allocator.
\<close>

section \<open>Type tests and values\<close>

definition kind_is :: "nat \<Rightarrow> ptr \<Rightarrow> jmem \<Rightarrow> bool option" where
  "kind_is t item m = (case item of None \<Rightarrow> Some False | Some a \<Rightarrow> map_option (\<lambda>c. jty c AND 0xFF = t) (cells m a))"

definition cJSON_IsInvalid :: "ptr \<Rightarrow> jmem \<Rightarrow> bool option" where "cJSON_IsInvalid = kind_is cJSON_Invalid"
definition cJSON_IsFalse :: "ptr \<Rightarrow> jmem \<Rightarrow> bool option" where "cJSON_IsFalse = kind_is cJSON_False"
definition cJSON_IsTrue :: "ptr \<Rightarrow> jmem \<Rightarrow> bool option" where "cJSON_IsTrue = kind_is cJSON_True"
definition cJSON_IsNull :: "ptr \<Rightarrow> jmem \<Rightarrow> bool option" where "cJSON_IsNull = kind_is cJSON_NULL"
definition cJSON_IsNumber :: "ptr \<Rightarrow> jmem \<Rightarrow> bool option" where "cJSON_IsNumber = kind_is cJSON_Number"
definition cJSON_IsString :: "ptr \<Rightarrow> jmem \<Rightarrow> bool option" where "cJSON_IsString = kind_is cJSON_String"
definition cJSON_IsArray :: "ptr \<Rightarrow> jmem \<Rightarrow> bool option" where "cJSON_IsArray = kind_is cJSON_Array"
definition cJSON_IsObject :: "ptr \<Rightarrow> jmem \<Rightarrow> bool option" where "cJSON_IsObject = kind_is cJSON_Object"
definition cJSON_IsRaw :: "ptr \<Rightarrow> jmem \<Rightarrow> bool option" where "cJSON_IsRaw = kind_is cJSON_Raw"

definition cJSON_IsBool :: "ptr \<Rightarrow> jmem \<Rightarrow> bool option" where
  "cJSON_IsBool item m =
     (case item of None \<Rightarrow> Some False
      | Some a \<Rightarrow> map_option (\<lambda>c. jty c AND (cJSON_True OR cJSON_False) \<noteq> 0) (cells m a))"

definition cJSON_GetStringValue :: "ptr \<Rightarrow> jmem \<Rightarrow> ptr option" where
  "cJSON_GetStringValue item m = do {
     b \<leftarrow> cJSON_IsString item m;
     if b then map_option jvs (cell item m) else Some None }"

definition cJSON_GetNumberValue :: "ptr \<Rightarrow> jmem \<Rightarrow> dbl option" where
  "cJSON_GetNumberValue item m = do {
     b \<leftarrow> cJSON_IsNumber item m;
     if b then map_option jvd (cell item m) else Some NaN }"

definition cJSON_SetNumberHelper :: "ptr \<Rightarrow> dbl \<Rightarrow> jmem \<Rightarrow> (dbl \<times> jmem) option" where
  "cJSON_SetNumberHelper object number m = do {
     vi \<leftarrow> int_of_dbl number;
     m \<leftarrow> edit object (\<lambda>c. c\<lparr>jvi := vi, jvd := number\<rparr>) m;
     Some (number, m) }"

text \<open>
  \<open>strcpy\<close> into the block of \<open>valuestring\<close>; copying a string onto itself is undefined. The test for
  \<open>cJSON_String\<close> is a bit test here.
\<close>

definition cJSON_SetValuestring :: "ptr \<Rightarrow> ptr \<Rightarrow> jmem \<Rightarrow> (ptr \<times> jmem) option" where
  "cJSON_SetValuestring object v m =
     (case object of
        None \<Rightarrow> Some (None, m)
      | Some ob \<Rightarrow> do {
          c \<leftarrow> cells m ob;
          if \<not> has (jty c) cJSON_String \<or> has (jty c) cJSON_IsReference then Some (None, m)
          else case (jvs c, v) of
            (Some old, Some new) \<Rightarrow> do {
              s \<leftarrow> string_at v m;
              t \<leftarrow> string_at (jvs c) m;
              if length s \<le> length t then
                (if old = new then None
                 else do {
                   block \<leftarrow> strs m old;
                   block \<leftarrow> write_at block 0 (s @ [NUL]);
                   Some (Some old, m\<lparr>strs := (strs m)(old \<mapsto> block)\<rparr>) })
              else do {
                (copy, m) \<leftarrow> cJSON_strdup v m;
                if copy = None then Some (None, m)
                else do {
                  m \<leftarrow> free_string (jvs c) m;
                  m \<leftarrow> edit object (\<lambda>c. c\<lparr>jvs := copy\<rparr>) m;
                  Some (copy, m) } } }
          | _ \<Rightarrow> Some (None, m) })"

section \<open>Creation\<close>

definition create :: "(jcell \<Rightarrow> jcell) \<Rightarrow> jmem \<Rightarrow> (ptr \<times> jmem) option" where
  "create f m =
     (case New_Item m of
        (None, m) \<Rightarrow> Some (None, m)
      | (Some a, m) \<Rightarrow> do { m \<leftarrow> edit (Some a) f m; Some (Some a, m) })"

definition cJSON_CreateNull :: "jmem \<Rightarrow> (ptr \<times> jmem) option" where
  "cJSON_CreateNull = create (\<lambda>c. c\<lparr>jty := cJSON_NULL\<rparr>)"

definition cJSON_CreateTrue :: "jmem \<Rightarrow> (ptr \<times> jmem) option" where
  "cJSON_CreateTrue = create (\<lambda>c. c\<lparr>jty := cJSON_True\<rparr>)"

definition cJSON_CreateFalse :: "jmem \<Rightarrow> (ptr \<times> jmem) option" where
  "cJSON_CreateFalse = create (\<lambda>c. c\<lparr>jty := cJSON_False\<rparr>)"

definition cJSON_CreateBool :: "bool \<Rightarrow> jmem \<Rightarrow> (ptr \<times> jmem) option" where
  "cJSON_CreateBool boolean = create (\<lambda>c. c\<lparr>jty := (if boolean then cJSON_True else cJSON_False)\<rparr>)"

definition cJSON_CreateNumber :: "dbl \<Rightarrow> jmem \<Rightarrow> (ptr \<times> jmem) option" where
  "cJSON_CreateNumber num m =
     (case New_Item m of
        (None, m) \<Rightarrow> Some (None, m)
      | (Some a, m) \<Rightarrow> do {
          vi \<leftarrow> int_of_dbl num;
          m \<leftarrow> edit (Some a) (\<lambda>c. c\<lparr>jty := cJSON_Number, jvd := num, jvi := vi\<rparr>) m;
          Some (Some a, m) })"

text \<open>\<open>cJSON_CreateString\<close> and \<open>cJSON_CreateRaw\<close>, which differ in the type only.\<close>

definition create_text :: "nat \<Rightarrow> ptr \<Rightarrow> jmem \<Rightarrow> (ptr \<times> jmem) option" where
  "create_text t s m =
     (case New_Item m of
        (None, m) \<Rightarrow> Some (None, m)
      | (Some a, m) \<Rightarrow> do {
          m \<leftarrow> edit (Some a) (\<lambda>c. c\<lparr>jty := t\<rparr>) m;
          (copy, m) \<leftarrow> cJSON_strdup s m;
          m \<leftarrow> edit (Some a) (\<lambda>c. c\<lparr>jvs := copy\<rparr>) m;
          if copy = None then do { m \<leftarrow> cJSON_Delete (Some a) m; Some (None, m) }
          else Some (Some a, m) })"

definition cJSON_CreateString :: "ptr \<Rightarrow> jmem \<Rightarrow> (ptr \<times> jmem) option" where
  "cJSON_CreateString = create_text cJSON_String"

definition cJSON_CreateRaw :: "ptr \<Rightarrow> jmem \<Rightarrow> (ptr \<times> jmem) option" where
  "cJSON_CreateRaw = create_text cJSON_Raw"

definition cJSON_CreateStringReference :: "ptr \<Rightarrow> jmem \<Rightarrow> (ptr \<times> jmem) option" where
  "cJSON_CreateStringReference s = create (\<lambda>c. c\<lparr>jty := cJSON_String OR cJSON_IsReference, jvs := s\<rparr>)"

definition cJSON_CreateObjectReference :: "ptr \<Rightarrow> jmem \<Rightarrow> (ptr \<times> jmem) option" where
  "cJSON_CreateObjectReference ch = create (\<lambda>c. c\<lparr>jty := cJSON_Object OR cJSON_IsReference, chld := ch\<rparr>)"

definition cJSON_CreateArrayReference :: "ptr \<Rightarrow> jmem \<Rightarrow> (ptr \<times> jmem) option" where
  "cJSON_CreateArrayReference ch = create (\<lambda>c. c\<lparr>jty := cJSON_Array OR cJSON_IsReference, chld := ch\<rparr>)"

definition cJSON_CreateArray :: "jmem \<Rightarrow> (ptr \<times> jmem) option" where
  "cJSON_CreateArray = create (\<lambda>c. c\<lparr>jty := cJSON_Array\<rparr>)"

definition cJSON_CreateObject :: "jmem \<Rightarrow> (ptr \<times> jmem) option" where
  "cJSON_CreateObject = create (\<lambda>c. c\<lparr>jty := cJSON_Object\<rparr>)"

section \<open>Members of objects\<close>

text \<open>The body that all \<open>cJSON_Add..ToObject\<close> functions share: \<open>mk\<close> creates the item.\<close>

definition add_created ::
  "(jmem \<Rightarrow> (ptr \<times> jmem) option) \<Rightarrow> ptr \<Rightarrow> ptr \<Rightarrow> jmem \<Rightarrow> (ptr \<times> jmem) option" where
  "add_created mk object name m = do {
     (item, m) \<leftarrow> mk m;
     (ok, m) \<leftarrow> add_item_to_object object name item False m;
     if ok then Some (item, m) else do { m \<leftarrow> cJSON_Delete item m; Some (None, m) } }"

definition cJSON_AddNullToObject :: "ptr \<Rightarrow> ptr \<Rightarrow> jmem \<Rightarrow> (ptr \<times> jmem) option" where
  "cJSON_AddNullToObject = add_created cJSON_CreateNull"

definition cJSON_AddTrueToObject :: "ptr \<Rightarrow> ptr \<Rightarrow> jmem \<Rightarrow> (ptr \<times> jmem) option" where
  "cJSON_AddTrueToObject = add_created cJSON_CreateTrue"

definition cJSON_AddFalseToObject :: "ptr \<Rightarrow> ptr \<Rightarrow> jmem \<Rightarrow> (ptr \<times> jmem) option" where
  "cJSON_AddFalseToObject = add_created cJSON_CreateFalse"

definition cJSON_AddBoolToObject :: "ptr \<Rightarrow> ptr \<Rightarrow> bool \<Rightarrow> jmem \<Rightarrow> (ptr \<times> jmem) option" where
  "cJSON_AddBoolToObject object name boolean = add_created (cJSON_CreateBool boolean) object name"

definition cJSON_AddNumberToObject :: "ptr \<Rightarrow> ptr \<Rightarrow> dbl \<Rightarrow> jmem \<Rightarrow> (ptr \<times> jmem) option" where
  "cJSON_AddNumberToObject object name number = add_created (cJSON_CreateNumber number) object name"

definition cJSON_AddStringToObject :: "ptr \<Rightarrow> ptr \<Rightarrow> ptr \<Rightarrow> jmem \<Rightarrow> (ptr \<times> jmem) option" where
  "cJSON_AddStringToObject object name s = add_created (cJSON_CreateString s) object name"

definition cJSON_AddRawToObject :: "ptr \<Rightarrow> ptr \<Rightarrow> ptr \<Rightarrow> jmem \<Rightarrow> (ptr \<times> jmem) option" where
  "cJSON_AddRawToObject object name raw = add_created (cJSON_CreateRaw raw) object name"

definition cJSON_AddObjectToObject :: "ptr \<Rightarrow> ptr \<Rightarrow> jmem \<Rightarrow> (ptr \<times> jmem) option" where
  "cJSON_AddObjectToObject = add_created cJSON_CreateObject"

definition cJSON_AddArrayToObject :: "ptr \<Rightarrow> ptr \<Rightarrow> jmem \<Rightarrow> (ptr \<times> jmem) option" where
  "cJSON_AddArrayToObject = add_created cJSON_CreateArray"

section \<open>Arrays\<close>

text \<open>
  The loop of the four functions that make an array of a C array; \<open>i = 0\<close> is the first round, \<open>p\<close> the
  item before. The result is the last item made, or a failure.
\<close>

fun array_loop ::
  "('a \<Rightarrow> jmem \<Rightarrow> (ptr \<times> jmem) option) \<Rightarrow> addr \<Rightarrow> bool \<Rightarrow> ptr \<Rightarrow> 'a list \<Rightarrow> jmem \<Rightarrow> (bool \<times> ptr \<times> jmem) option" where
  "array_loop mk a is_first p [] m = Some (True, p, m)"
| "array_loop mk a is_first p (x # xs) m = do {
     (n, m) \<leftarrow> mk x m;
     case n of
       None \<Rightarrow> do { m \<leftarrow> cJSON_Delete (Some a) m; Some (False, None, m) }
     | Some i \<Rightarrow> do {
         m \<leftarrow> (if is_first then edit (Some a) (\<lambda>c. c\<lparr>chld := n\<rparr>) m else suffix_object p i m);
         array_loop mk a False n xs m } }"

definition create_array ::
  "('a \<Rightarrow> jmem \<Rightarrow> (ptr \<times> jmem) option) \<Rightarrow> 'a list option \<Rightarrow> int \<Rightarrow> jmem \<Rightarrow> (ptr \<times> jmem) option" where
  "create_array mk numbers count m =
     (case numbers of
        None \<Rightarrow> Some (None, m)
      | Some xs \<Rightarrow>
          if count < 0 then Some (None, m)
          else do {
            (a, m) \<leftarrow> cJSON_CreateArray m;
            case a of
              None \<Rightarrow> Some (None, m)
            | Some a \<Rightarrow>
                if length xs < nat count then None
                else do {
                  (ok, n, m) \<leftarrow> array_loop mk a True None (take (nat count) xs) m;
                  if \<not> ok then Some (None, m)
                  else do {
                    c \<leftarrow> cells m a;
                    m \<leftarrow> (if chld c \<noteq> None then edit (chld c) (\<lambda>c. c\<lparr>prv := n\<rparr>) m else Some m);
                    Some (Some a, m) } } })"

definition cJSON_CreateIntArray :: "int list option \<Rightarrow> int \<Rightarrow> jmem \<Rightarrow> (ptr \<times> jmem) option" where
  "cJSON_CreateIntArray = create_array (\<lambda>i. cJSON_CreateNumber (dbl_of_int i))"

text \<open>A \<open>float\<close> is a double with fewer digits; the conversion is exact.\<close>

definition cJSON_CreateFloatArray :: "dbl list option \<Rightarrow> int \<Rightarrow> jmem \<Rightarrow> (ptr \<times> jmem) option" where
  "cJSON_CreateFloatArray = create_array cJSON_CreateNumber"

definition cJSON_CreateDoubleArray :: "dbl list option \<Rightarrow> int \<Rightarrow> jmem \<Rightarrow> (ptr \<times> jmem) option" where
  "cJSON_CreateDoubleArray = create_array cJSON_CreateNumber"

definition cJSON_CreateStringArray :: "ptr list option \<Rightarrow> int \<Rightarrow> jmem \<Rightarrow> (ptr \<times> jmem) option" where
  "cJSON_CreateStringArray = create_array cJSON_CreateString"

section \<open>Duplication\<close>

text \<open>
  \<open>dup_children\<close> is the loop over the children, with the function \<open>dup\<close> that copies one of them. The fuel
  of \<open>cJSON_Duplicate\<close> bounds the calls inside calls, the one of the loop its rounds; \<open>None\<close> when it
  runs out.
\<close>

primrec dup_children ::
  "(ptr \<Rightarrow> jmem \<Rightarrow> (ptr \<times> jmem) option) \<Rightarrow> nat \<Rightarrow> addr \<Rightarrow> ptr \<Rightarrow> ptr \<Rightarrow> jmem \<Rightarrow> (bool \<times> ptr \<times> jmem) option" where
  "dup_children dup 0 newitem ch prev m = None"
| "dup_children dup (Suc n) newitem ch prev m =
     (case ch of
        None \<Rightarrow> Some (True, prev, m)
      | Some c \<Rightarrow> do {
          (newchild, m) \<leftarrow> dup ch m;
          case newchild of
            None \<Rightarrow> Some (False, prev, m)
          | Some k \<Rightarrow> do {
              m \<leftarrow> (if prev \<noteq> None then do {
                       m \<leftarrow> edit prev (\<lambda>c. c\<lparr>nxt := newchild\<rparr>) m;
                       edit newchild (\<lambda>c. c\<lparr>prv := prev\<rparr>) m }
                     else edit (Some newitem) (\<lambda>c. c\<lparr>chld := newchild\<rparr>) m);
              cc \<leftarrow> cells m c;
              dup_children dup n newitem (nxt cc) newchild m } })"

primrec cJSON_Duplicate :: "nat \<Rightarrow> ptr \<Rightarrow> bool \<Rightarrow> jmem \<Rightarrow> (ptr \<times> jmem) option" where
  "cJSON_Duplicate 0 item recurse m = None"
| "cJSON_Duplicate (Suc n) item recurse m =
     (case item of
        None \<Rightarrow> Some (None, m)
      | Some a \<Rightarrow>
          (case New_Item m of
             (None, m) \<Rightarrow> Some (None, m)
           | (Some w, m) \<Rightarrow> do {
               c \<leftarrow> cells m a;
               m \<leftarrow> edit (Some w) (\<lambda>k. k\<lparr>jty := clear (jty c) cJSON_IsReference, jvi := jvi c, jvd := jvd c\<rparr>) m;
               (vs, m) \<leftarrow> cJSON_strdup (jvs c) m;
               m \<leftarrow> edit (Some w) (\<lambda>k. k\<lparr>jvs := vs\<rparr>) m;
               if jvs c \<noteq> None \<and> vs = None then do { m \<leftarrow> cJSON_Delete (Some w) m; Some (None, m) }
               else do {
                 (nm, m) \<leftarrow> (if has (jty c) cJSON_StringIsConst then Some (jnm c, m) else cJSON_strdup (jnm c) m);
                 m \<leftarrow> edit (Some w) (\<lambda>k. k\<lparr>jnm := nm\<rparr>) m;
                 if jnm c \<noteq> None \<and> nm = None then do { m \<leftarrow> cJSON_Delete (Some w) m; Some (None, m) }
                 else if \<not> recurse then Some (Some w, m)
                 else do {
                   (ok, newchild, m) \<leftarrow> dup_children (\<lambda>p. cJSON_Duplicate n p True) n w (chld c) None m;
                   if \<not> ok then do { m \<leftarrow> cJSON_Delete (Some w) m; Some (None, m) }
                   else do {
                     k \<leftarrow> cells m w;
                     m \<leftarrow> (if chld k \<noteq> None then edit (chld k) (\<lambda>c. c\<lparr>prv := newchild\<rparr>) m else Some m);
                     Some (Some w, m) } } } }))"

section \<open>The allocator\<close>

text \<open>\<open>f\<close> stands for the functions a hook may point to; the library's own three are arguments.\<close>

record 'f cJSON_Hooks =
  malloc_fn :: "'f option"
  free_fn :: "'f option"

record 'f hook_table =
  allocate :: 'f
  deallocate :: 'f
  reallocate :: "'f option"

definition cJSON_InitHooks :: "'f \<Rightarrow> 'f \<Rightarrow> 'f \<Rightarrow> 'f cJSON_Hooks option \<Rightarrow> 'f hook_table" where
  "cJSON_InitHooks libc_malloc libc_free libc_realloc hooks =
     (case hooks of
        None \<Rightarrow> \<lparr>allocate = libc_malloc, deallocate = libc_free, reallocate = Some libc_realloc\<rparr>
      | Some h \<Rightarrow>
          let al = (case malloc_fn h of None \<Rightarrow> libc_malloc | Some f \<Rightarrow> f);
              de = (case free_fn h of None \<Rightarrow> libc_free | Some f \<Rightarrow> f) in
          \<lparr>allocate = al, deallocate = de,
           reallocate = (if al = libc_malloc \<and> de = libc_free then Some libc_realloc else None)\<rparr>)"

end
