(* ===== verification/Cjson_Tree.thy ===== *)
theory Cjson_Tree
  imports Cjson_Create "HOL-Library.Multiset"
begin

text \<open>
  Whole items in memory: a tree of cells with the strings they own. Deletion releases exactly the
  memory of a tree; the operations that delete, replace or add children keep the tree they work on
  owned; the value of a tree is the item that the printer and the parser work with.
\<close>

section \<open>Trees\<close>

datatype jtree = Node (root: addr) (sub: "jtree list")

fun tcells :: "jtree \<Rightarrow> addr list" where
  "tcells (Node a ts) = a # concat (map tcells ts)"

definition cell_strs :: "jcell option \<Rightarrow> addr list" where
  "cell_strs x = (case x of None \<Rightarrow> []
     | Some c \<Rightarrow> (case jvs c of None \<Rightarrow> [] | Some s \<Rightarrow> [s]) @
         (if has (jty c) cJSON_StringIsConst then [] else case jnm c of None \<Rightarrow> [] | Some s \<Rightarrow> [s]))"

definition strings_of :: "jmem \<Rightarrow> addr list \<Rightarrow> addr list" where
  "strings_of m as = concat (map (\<lambda>a. cell_strs (cells m a)) as)"

fun linked :: "jmem \<Rightarrow> jtree \<Rightarrow> bool" where
  "linked m (Node a ts) \<longleftrightarrow> kids m a (map root ts) \<and>
     (\<exists>c. cells m a = Some c \<and> \<not> has (jty c) cJSON_IsReference) \<and> (\<forall>t \<in> set ts. linked m t)"

text \<open>The trees \<open>ts\<close> own their cells and strings, no two of them the same.\<close>

definition owned :: "jmem \<Rightarrow> jtree list \<Rightarrow> bool" where
  "owned m ts \<longleftrightarrow> (\<forall>t \<in> set ts. linked m t) \<and> distinct (concat (map tcells ts)) \<and>
     distinct (strings_of m (concat (map tcells ts))) \<and>
     (\<forall>s \<in> set (strings_of m (concat (map tcells ts))). strs m s \<noteq> None)"

definition release :: "addr set \<Rightarrow> addr set \<Rightarrow> jmem \<Rightarrow> jmem" where
  "release A S m = m\<lparr>cells := cells m |` (- A), strs := strs m |` (- S)\<rparr>"

lemma release_simps [simp]:
  "cells (release A S m) a = (if a \<in> A then None else cells m a)"
  "strs (release A S m) a = (if a \<in> S then None else strs m a)"
  "asks (release A S m) = asks m" "grant (release A S m) = grant m"
  by (auto simp: release_def restrict_map_def)

lemma release_release [simp]: "release A S (release B T m) = release (A \<union> B) (S \<union> T) m"
  by (auto simp: release_def restrict_map_def fun_eq_iff)

lemma release_none [simp]: "release {} {} m = m"
  by (simp add: release_def restrict_map_def)

lemma free_item_release: "cells m a \<noteq> None \<Longrightarrow> free_item a m = Some (release {a} {} m)"
  by (auto simp: free_item_def release_def restrict_map_def fun_eq_iff)

lemma free_string_release:
  "free_string p m = (case p of None \<Rightarrow> Some m | Some s \<Rightarrow> if strs m s = None then None else Some (release {} {s} m))"
  by (auto simp: free_string_def release_def restrict_map_def fun_eq_iff split: option.split)

lemma kids_cong: "\<forall>a \<in> set (p # xs). cells m' a = cells m a \<Longrightarrow> kids m' p xs \<longleftrightarrow> kids m p xs"
  using jseg_cong [of xs "cells m'" "cells m"] by (simp add: kids_def)

lemma root_in: "root t \<in> set (tcells t)"
  by (cases t) simp

lemma linked_cong: "\<forall>a \<in> set (tcells t). cells m' a = cells m a \<Longrightarrow> linked m' t \<longleftrightarrow> linked m t"
proof (induction t)
  case (Node a ts)
  have "kids m' a (map root ts) \<longleftrightarrow> kids m a (map root ts)"
    using Node.prems root_in by (intro kids_cong) force
  moreover have "linked m' t \<longleftrightarrow> linked m t" if "t \<in> set ts" for t
    using Node.IH [OF that] Node.prems that by auto
  ultimately show ?case using Node.prems by simp
qed

lemma strings_of_cong: "\<forall>a \<in> set as. cells m' a = cells m a \<Longrightarrow> strings_of m' as = strings_of m as"
  by (auto simp: strings_of_def intro!: arg_cong [where f = concat])

lemma strings_of_simps [simp]:
  "strings_of m [] = []" "strings_of m (a # as) = cell_strs (cells m a) @ strings_of m as"
  "strings_of m (as @ bs) = strings_of m as @ strings_of m bs"
  by (simp_all add: strings_of_def)

lemma owned_cong:
  assumes "\<forall>a \<in> set (concat (map tcells ts)). cells m' a = cells m a"
    "\<forall>s \<in> set (strings_of m (concat (map tcells ts))). strs m s \<noteq> None \<longrightarrow> strs m' s \<noteq> None" "owned m ts"
  shows "owned m' ts"
proof -
  have "strings_of m' (concat (map tcells ts)) = strings_of m (concat (map tcells ts))"
    using assms(1) by (rule strings_of_cong)
  moreover have "linked m' t \<longleftrightarrow> linked m t" if "t \<in> set ts" for t
    using assms(1) that by (intro linked_cong) auto
  ultimately show ?thesis using assms(2,3) by (simp add: owned_def)
qed

lemma owned_Cons:
  "owned m (Node a ks # ts) \<longleftrightarrow> owned m ks \<and> owned m ts \<and>
     (\<exists>c. cells m a = Some c \<and> \<not> has (jty c) cJSON_IsReference) \<and> kids m a (map root ks) \<and>
     a \<notin> set (concat (map tcells ks)) \<and> a \<notin> set (concat (map tcells ts)) \<and>
     set (concat (map tcells ks)) \<inter> set (concat (map tcells ts)) = {} \<and>
     distinct (cell_strs (cells m a)) \<and> (\<forall>s \<in> set (cell_strs (cells m a)). strs m s \<noteq> None) \<and>
     set (cell_strs (cells m a)) \<inter> set (strings_of m (concat (map tcells ks))) = {} \<and>
     set (cell_strs (cells m a)) \<inter> set (strings_of m (concat (map tcells ts))) = {} \<and>
     set (strings_of m (concat (map tcells ks))) \<inter> set (strings_of m (concat (map tcells ts))) = {}"
  unfolding owned_def by auto

section \<open>Deletion\<close>

lemma delete_chain:
  "length (concat (map tcells ts)) = n \<Longrightarrow> owned m ts \<Longrightarrow> jseg (cells m) q (map root ts) None \<Longrightarrow>
     cJSON_Delete (first (map root ts) None) m =
       Some (release (set (concat (map tcells ts))) (set (strings_of m (concat (map tcells ts)))) m)"
proof (induction n arbitrary: ts m q rule: less_induct)
  case (less n)
  show ?case
  proof (cases ts)
    case Nil
    then show ?thesis by (subst cJSON_Delete.simps) simp
  next
    case (Cons t rest)
    obtain a ks where t: "t = Node a ks" by (cases t)
    have own: "owned m (Node a ks # rest)" using less.prems(2) Cons t by simp
    note o = own [unfolded owned_Cons]
    obtain c where c: "cells m a = Some c" "\<not> has (jty c) cJSON_IsReference" using o by blast
    have nx: "nxt c = first (map root rest) None" and sr: "jseg (cells m) (Some a) (map root rest) None"
      using less.prems(3) c by (auto simp: Cons t)
    define K where "K = set (concat (map tcells ks))"
    define KS where "KS = set (strings_of m (concat (map tcells ks)))"
    have lk: "length (concat (map tcells ks)) < n" "length (concat (map tcells rest)) < n"
      using less.prems(1) by (auto simp: Cons t)
    have ck: "chld c = first (map root ks) None" and sk: "jseg (cells m) (final None (map root ks)) (map root ks) None"
      using o c by (auto simp: kids_def)
    have dk: "cJSON_Delete (chld c) m = Some (release K KS m)"
      using less.IH [OF lk(1) refl _ sk] o unfolding ck K_def KS_def by blast
    define m1 where "m1 = release K KS m"
    have child: "(if \<not> has (jty c) cJSON_IsReference \<and> chld c \<noteq> None then cJSON_Delete (chld c) m else Some m) = Some m1"
    proof (cases ks)
      case Nil
      then show ?thesis using ck by (simp add: m1_def K_def KS_def)
    qed (use dk c ck in \<open>simp add: m1_def\<close>)
    have c1: "cells m1 a = Some c" using o c by (simp add: m1_def K_def)
    define S where "S = set (cell_strs (cells m a))"
    have str: "(free_string (jvs c) m1 \<bind> (\<lambda>m. if \<not> has (jty c) cJSON_StringIsConst then free_string (jnm c) m else Some m))
        = Some (release {} S m1)"
      using o c unfolding S_def m1_def KS_def
      by (cases "jvs c"; cases "jnm c") (auto simp: free_string_release cell_strs_def insert_commute)
    define m2 where "m2 = release {a} {} (release {} S m1)"
    have m2: "m2 = release (insert a K) (S \<union> KS) m" by (simp add: m2_def m1_def)
    have run: "cJSON_Delete (Some a) m = cJSON_Delete (nxt c) m2"
      using child c c1 str
      by (subst cJSON_Delete.simps) (simp add: Let_def m2_def free_item_release bind_assoc [symmetric] flip: Option.bind_assoc)
    have sm: "strings_of m2 (concat (map tcells rest)) = strings_of m (concat (map tcells rest))"
      using o by (intro strings_of_cong) (auto simp: m2 K_def)
    have own2: "owned m2 rest"
      by (rule owned_cong [of rest m2 m]) (use o in \<open>auto simp: m2 K_def KS_def S_def\<close>)
    have "\<forall>b \<in> set (map root rest). cells m2 b = cells m b"
      using o root_in by (fastforce simp: m2 K_def)
    then have s2: "jseg (cells m2) (Some a) (map root rest) None" using sr jseg_cong by blast
    have "cJSON_Delete (first (map root rest) None) m2 =
        Some (release (set (concat (map tcells rest))) (set (strings_of m (concat (map tcells rest)))) m2)"
      using less.IH [OF lk(2) refl own2 s2] unfolding sm .
    then show ?thesis
      using run nx by (simp add: Cons t m2 K_def KS_def S_def Un_ac)
  qed
qed


text \<open>
  C23: \<open>cJSON_Delete\<close> releases an item completely and nothing else: of a tree that owns its cells and
  strings (whose root has no next item), every cell and every owned string is freed exactly once,
  constant keys are left alone, and the rest of memory is as it was.
\<close>

theorem cJSON_Delete_releases:
  assumes "owned m [t]" "\<forall>c. cells m (root t) = Some c \<longrightarrow> nxt c = None"
  shows "cJSON_Delete (Some (root t)) m =
    Some (release (set (tcells t)) (set (strings_of m (tcells t))) m)"
proof -
  obtain c where c: "cells m (root t) = Some c"
    using assms(1) by (cases t) (auto simp: owned_def kids_def)
  then have "jseg (cells m) (prv c) (map root [t]) None" using assms(2) by simp
  from delete_chain [OF refl assms(1) this] show ?thesis by simp
qed

lemma owned_append:
  "owned m (ts @ us) \<longleftrightarrow> owned m ts \<and> owned m us \<and>
     set (concat (map tcells ts)) \<inter> set (concat (map tcells us)) = {} \<and>
     set (strings_of m (concat (map tcells ts))) \<inter> set (strings_of m (concat (map tcells us))) = {}"
  unfolding owned_def by auto

lemma owned_perm_mid:
  "owned m (ys @ x # zs) \<longleftrightarrow> owned m [x] \<and> owned m (ys @ zs) \<and>
     set (tcells x) \<inter> set (concat (map tcells (ys @ zs))) = {} \<and>
     set (strings_of m (tcells x)) \<inter> set (strings_of m (concat (map tcells (ys @ zs)))) = {}"
proof -
  have "ys @ x # zs = ys @ [x] @ zs" by simp
  then show ?thesis
    by (simp only: owned_append map_append concat_append strings_of_simps set_append list.map concat.simps append_Nil2) blast
qed

text \<open>Relinking the children of \<open>p\<close> changes no string and no tree of which no root is among them.\<close>

lemma relinked_body: "relinked p xs ys m m' \<Longrightarrow> a \<noteq> p \<Longrightarrow> map_option body (cells m' a) = map_option body (cells m a)"
  by (simp add: relinked_def)

lemma body_fields:
  "body c' = body c \<Longrightarrow> chld c' = chld c \<and> jty c' = jty c \<and> jvs c' = jvs c \<and> jvi c' = jvi c \<and> jvd c' = jvd c \<and> jnm c' = jnm c"
  by (cases c; cases c') (simp add: body_def)

lemma cell_strs_body: "map_option body x = map_option body y \<Longrightarrow> cell_strs x = cell_strs y"
  by (cases x; cases y) (auto simp: cell_strs_def dest!: body_fields)

lemma body_same:
  assumes "map_option body (cells m' a) = map_option body (cells m a)" "cells m a = Some c"
  shows "\<exists>c'. cells m' a = Some c' \<and> body c' = body c"
  using assms by auto

lemma linked_relinked:
  assumes r: "relinked p xs ys m m'" and l: "linked m t" and d: "p \<notin> set (tcells t)"
    "set (concat (map tcells (sub t))) \<inter> set (xs @ ys) = {}" "distinct (tcells t)"
  shows "linked m' t"
proof -
  obtain a ts where t: "t = Node a ts" by (cases t)
  have o: "cells m' b = cells m b" if "b \<in> set (concat (map tcells ts))" for b
  proof -
    have "b \<notin> set (p # xs @ ys)" using d that unfolding t by auto
    then show ?thesis using r unfolding relinked_def by blast
  qed
  obtain c where c: "cells m a = Some c" "\<not> has (jty c) cJSON_IsReference" "kids m a (map root ts)"
    using l by (auto simp: t)
  have "a \<noteq> p" using d by (simp add: t)
  then obtain c' where c': "cells m' a = Some c'" "body c' = body c"
    using body_same [OF relinked_body [OF r] c(1)] by blast
  have sub: "linked m' u" if "u \<in> set ts" for u
    using l that o linked_cong [of u m' m] by (auto simp: t)
  have e: "\<forall>b \<in> set (map root ts). cells m' b = cells m b" using o root_in by force
  have "jseg (cells m) (final None (map root ts)) (map root ts) None"
    using c(3) by (simp add: kids_def)
  then have "jseg (cells m') (final None (map root ts)) (map root ts) None"
    unfolding jseg_cong [OF e] .
  then have "kids m' a (map root ts)" using c c' body_fields [OF c'(2)] by (simp add: kids_def)
  then show ?thesis using sub c c' body_fields [OF c'(2)] by (simp add: t)
qed

lemma chld_fields:
  "c'\<lparr>chld := None\<rparr> = c\<lparr>chld := None\<rparr> \<Longrightarrow> jty c' = jty c \<and> jvs c' = jvs c \<and> jvi c' = jvi c \<and> jvd c' = jvd c \<and>
     jnm c' = jnm c \<and> nxt c' = nxt c \<and> prv c' = prv c"
  by (cases c; cases c') simp

lemma strings_relinked:
  assumes r: "relinked p xs ys m m'"
  shows "strings_of m' as = strings_of m as"
proof -
  have "cell_strs (cells m' a) = cell_strs (cells m a)" for a
  proof (cases "a = p")
    case True
    have "map_option (\<lambda>c. c\<lparr>chld := None\<rparr>) (cells m' p) = map_option (\<lambda>c. c\<lparr>chld := None\<rparr>) (cells m p)"
      using r by (simp add: relinked_def)
    then show ?thesis unfolding True
      by (cases "cells m p"; cases "cells m' p") (auto simp: cell_strs_def dest!: chld_fields)
  next
    case False
    then show ?thesis using relinked_body [OF r] cell_strs_body by blast
  qed
  then show ?thesis by (simp add: strings_of_def)
qed


section \<open>Changing the children of an owned tree\<close>

lemma mset_concat_map: "mset xs = mset ys \<Longrightarrow> mset (concat (map f xs)) = mset (concat (map f ys))"
proof -
  have "mset (concat (map f zs)) = (\<Sum>x\<in>#mset zs. mset (f x))" for zs
    by (induction zs) auto
  then show "mset xs = mset ys \<Longrightarrow> mset (concat (map f xs)) = mset (concat (map f ys))" by simp
qed

lemma owned_mset: "mset ts = mset us \<Longrightarrow> owned m ts \<Longrightarrow> owned m us"
proof -
  assume p: "mset ts = mset us" and o: "owned m ts"
  have c: "mset (concat (map tcells ts)) = mset (concat (map tcells us))" by (rule mset_concat_map [OF p])
  have s: "mset (strings_of m (concat (map tcells ts))) = mset (strings_of m (concat (map tcells us)))"
    unfolding strings_of_def by (rule mset_concat_map [OF c])
  show ?thesis
    using o mset_eq_imp_distinct_iff [OF c] mset_eq_imp_distinct_iff [OF s] mset_eq_setD [OF p] mset_eq_setD [OF s]
    unfolding owned_def by auto
qed

lemma not_root_below:
  assumes "owned m ts" "t \<in> set ts" "u \<in> set ts"
  shows "root u \<notin> set (concat (map tcells (sub t)))"
proof -
  obtain ys zs where ts: "ts = ys @ t # zs" using split_list [OF assms(2)] by blast
  have o: "owned m [t]" "set (tcells t) \<inter> set (concat (map tcells (ys @ zs))) = {}"
    using assms(1) unfolding ts owned_perm_mid by auto
  show ?thesis
  proof (cases "u = t")
    case True
    then show ?thesis using o(1) by (cases t) (auto simp: owned_def)
  next
    case False
    then have "root u \<in> set (concat (map tcells (ys @ zs)))"
      using assms(3) root_in [of u] unfolding ts by auto
    then have "root u \<notin> set (tcells t)" using o(2) by blast
    then show ?thesis by (cases t) auto
  qed
qed

lemma owned_after_relink:
  assumes o: "owned m (Node p ts # extra)" and r: "relinked p (map root ts) (map root us) m m'"
    and p: "mset (us @ rest) = mset (ts @ extra)"
  shows "owned m' (Node p us # rest)"
proof -
  have F: "owned m (ts @ extra)" and np: "p \<notin> set (concat (map tcells (ts @ extra)))"
    using o unfolding owned_Cons owned_append by auto
  have us: "set us \<subseteq> set (ts @ extra)" using mset_eq_setD [OF p] by auto
  have l: "linked m' t" if t: "t \<in> set (ts @ extra)" for t
  proof (rule linked_relinked [OF r])
    show "linked m t" using F t by (simp add: owned_def)
    show "p \<notin> set (tcells t)" using np t by auto
    show "distinct (tcells t)"
    proof -
      obtain ys zs where e: "ts @ extra = ys @ t # zs" using split_list [OF t] by blast
      have "distinct (concat (map tcells (ys @ t # zs)))" using F unfolding e owned_def by blast
      then show ?thesis by simp
    qed
    show "set (concat (map tcells (sub t))) \<inter> set (map root ts @ map root us) = {}"
      using not_root_below [OF F t] us by auto
  qed
  obtain cp where cp: "cells m p = Some cp" "\<not> has (jty cp) cJSON_IsReference" using o unfolding owned_Cons by blast
  have "map_option (\<lambda>c. c\<lparr>chld := None\<rparr>) (cells m' p) = map_option (\<lambda>c. c\<lparr>chld := None\<rparr>) (cells m p)"
    using r by (simp add: relinked_def)
  then obtain cp' where cp': "cells m' p = Some cp'" "cp'\<lparr>chld := None\<rparr> = cp\<lparr>chld := None\<rparr>" using cp by auto
  have k: "kids m' p (map root us)" using r by (simp add: relinked_def)
  have st: "strs m' = strs m" using r by (simp add: relinked_def)
  have sub: "linked m' t" if "t \<in> set us \<union> set rest" for t
    using l mset_eq_setD [OF p] that by auto
  have root: "linked m' (Node p us)" using k cp(2) cp' chld_fields [OF cp'(2)] sub by simp
  have cl: "mset (concat (map tcells (Node p us # rest))) = mset (concat (map tcells (Node p ts # extra)))"
    using mset_concat_map [OF p, of tcells] by simp
  have ss: "mset (strings_of m (concat (map tcells (Node p us # rest)))) =
      mset (strings_of m (concat (map tcells (Node p ts # extra))))"
    unfolding strings_of_def by (rule mset_concat_map [OF cl])
  show ?thesis
    unfolding owned_def strings_relinked [OF r] st
    using root sub o mset_eq_imp_distinct_iff [OF cl] mset_eq_imp_distinct_iff [OF ss] mset_eq_setD [OF ss]
    unfolding owned_def by auto
qed

text \<open>Deleting a detached tree beside others.\<close>

lemma delete_beside:
  assumes "owned m (F @ [t])" "cells m (root t) = Some c" "nxt c = None"
  shows "cJSON_Delete (Some (root t)) m = Some (release (set (tcells t)) (set (strings_of m (tcells t))) m) \<and>
    owned (release (set (tcells t)) (set (strings_of m (tcells t))) m) F"
proof -
  have o: "owned m [t]" "owned m F" "set (concat (map tcells F)) \<inter> set (tcells t) = {}"
    "set (strings_of m (concat (map tcells F))) \<inter> set (strings_of m (tcells t)) = {}"
    using assms(1) unfolding owned_append by auto
  have "jseg (cells m) (prv c) (map root [t]) None" using assms(2,3) by simp
  from delete_chain [OF refl o(1) this]
  have "cJSON_Delete (Some (root t)) m = Some (release (set (tcells t)) (set (strings_of m (tcells t))) m)" by simp
  moreover have "owned (release (set (tcells t)) (set (strings_of m (tcells t))) m) F"
    by (rule owned_cong [OF _ _ o(2)]) (use o(3,4) in auto)
  ultimately show ?thesis by blast
qed

lemma relinked_alloc: "relinked p xs ys m m' \<Longrightarrow> cells m' a = None \<longleftrightarrow> cells m a = None"
proof (cases "a = p")
  case True
  assume "relinked p xs ys m m'"
  then show ?thesis using True by (auto simp: relinked_def dest: arg_cong [where f = "\<lambda>x. x = None"])
next
  case False
  assume "relinked p xs ys m m'"
  then show ?thesis using relinked_body [of p xs ys m m' a] False by (auto dest: arg_cong [where f = "\<lambda>x. x = None"])
qed

text \<open>
  Deleting the item at index \<open>w\<close> of an owned array or object releases exactly the memory of that
  item, with everything below it; what is left is an owned tree without it, and no other cell or
  string is released.
\<close>

theorem cJSON_DeleteItemFromArray_releases:
  assumes o: "owned m [Node p ts]" and w: "0 \<le> w" "nat w < length ts"
  shows "\<exists>m'. cJSON_DeleteItemFromArray (Some p) w m = Some m' \<and>
    owned m' [Node p (take (nat w) ts @ drop (Suc (nat w)) ts)] \<and>
    (\<forall>a. cells m' a = None \<longleftrightarrow> cells m a = None \<or> a \<in> set (tcells (ts ! nat w))) \<and>
    (\<forall>s. strs m' s = (if s \<in> set (strings_of m (tcells (ts ! nat w))) then None else strs m s))"
proof -
  let ?t = "ts ! nat w" and ?us = "take (nat w) ts @ drop (Suc (nat w)) ts"
  have k: "kids m p (map root ts)" using o by (auto simp: owned_Cons)
  have split: "ts = take (nat w) ts @ ?t # drop (Suc (nat w)) ts" by (rule id_take_nth_drop [OF w(2)])
  obtain m1 c where d: "cJSON_DetachItemFromArray (Some p) w m = Some (Some (root ?t), m1)"
    "relinked p (map root ts) (map root ?us) m m1" "cells m1 (root ?t) = Some c" "nxt c = None"
  proof -
    have "map root ?us = take (nat w) (map root ts) @ drop (nat w + 1) (map root ts)"
      by (simp add: take_map drop_map)
    moreover have "get_array_item (Some p) (nat w) m = Some (Some (root ?t))"
      using get_array_item_kids [OF k, of "nat w"] w by simp
    moreover have "map root ts = map root (take (nat w) ts) @ root ?t # map root (drop (Suc (nat w)) ts)"
      by (subst split) simp
    ultimately show ?thesis
      using detach_links [of m p "map root (take (nat w) ts)" "root ?t" "map root (drop (Suc (nat w)) ts)"] k w that
      by (auto simp: cJSON_DetachItemFromArray_def)
  qed
  have "mset (?us @ [?t]) = mset (ts @ [])" by (subst (4) split) (simp del: append_take_drop_id)
  then have o1: "owned m1 (Node p ?us # [?t])" by (rule owned_after_relink [OF o d(2)])
  then have o2: "owned m1 ([Node p ?us] @ [?t])" by simp
  have s: "strings_of m1 as = strings_of m as" for as by (rule strings_relinked [OF d(2)])
  have "strs m1 = strs m" using d(2) by (simp add: relinked_def)
  then show ?thesis
    using d(1) delete_beside [OF o2 d(3,4)] relinked_alloc [OF d(2)]
    by (auto simp: cJSON_DeleteItemFromArray_def s)
qed

text \<open>
  C25: replacing the item at index \<open>w\<close> of an owned array or object by a free item puts that item, with all
  below it, at the same place, and releases exactly the memory of the old one.
\<close>

theorem cJSON_ReplaceItemInArray_releases:
  assumes o: "owned m [Node p ts, r]" and w: "0 \<le> w" "nat w < length ts"
  shows "\<exists>m'. cJSON_ReplaceItemInArray (Some p) w (Some (root r)) m = Some (True, m') \<and>
    owned m' [Node p (ts[nat w := r])] \<and>
    (\<forall>a. cells m' a = None \<longleftrightarrow> cells m a = None \<or> a \<in> set (tcells (ts ! nat w))) \<and>
    (\<forall>s. strs m' s = (if s \<in> set (strings_of m (tcells (ts ! nat w))) then None else strs m s))"
proof -
  let ?t = "ts ! nat w" and ?us = "ts[nat w := r]"
  define ys zs where "ys = take (nat w) ts" and "zs = drop (Suc (nat w)) ts"
  have split: "ts = ys @ ?t # zs" "?us = ys @ r # zs"
    unfolding ys_def zs_def by (rule id_take_nth_drop [OF w(2)]) (rule upd_conv_take_nth_drop [OF w(2)])
  have e1: "map root ys @ root ?t # map root zs = map root ts" by (subst (2) split(1)) simp
  have e2: "map root ys @ root r # map root zs = map root ?us" by (simp add: split(2))
  have k: "kids m p (map root ts)" and oo: "owned m [Node p ts] \<and> owned m [r]"
    "set (tcells (Node p ts)) \<inter> set (tcells r) = {}"
    using o owned_append [of m "[Node p ts]" "[r]"] by (auto simp: owned_Cons)
  obtain cr where cr: "cells m (root r) = Some cr" using oo(1) by (cases r) (auto simp: owned_Cons)
  have nr: "root r \<notin> set (p # map root ys @ root ?t # map root zs)"
  proof -
    have sub: "set (p # map root ts) \<subseteq> set (tcells (Node p ts))" using root_in by auto
    show ?thesis unfolding e1 using sub oo(2) root_in [of r] by blast
  qed
  have kk: "kids m p (map root ys @ root ?t # map root zs)" unfolding e1 by (rule k)
  obtain m1 c where d: "cJSON_ReplaceItemViaPointer (Some p) (Some (root ?t)) (Some (root r)) m =
      map_option (\<lambda>m. (True, m)) (cJSON_Delete (Some (root ?t)) m1)"
    "relinked p (map root ts) (map root ?us) m m1" "cells m1 (root ?t) = Some c" "nxt c = None"
    using replace_links [OF kk nr cr] unfolding e1 e2 by blast
  have "mset (?us @ [?t]) = mset (ts @ [r])" by (subst (3) split(1)) (simp add: split(2))
  then have "owned m1 (Node p ?us # [?t])" by (rule owned_after_relink [OF o d(2)])
  then have o2: "owned m1 ([Node p ?us] @ [?t])" by simp
  have g: "get_array_item (Some p) (nat w) m = Some (Some (root ?t))"
    using get_array_item_kids [OF k, of "nat w"] w by simp
  have s: "strings_of m1 as = strings_of m as" for as by (rule strings_relinked [OF d(2)])
  have "strs m1 = strs m" using d(2) by (simp add: relinked_def)
  then show ?thesis
    using d(1) g w(1) delete_beside [OF o2 d(3,4)] relinked_alloc [OF d(2)]
    by (auto simp: cJSON_ReplaceItemInArray_def s)
qed


section \<open>Concrete trees\<close>

text \<open>\<open>demo_mem\<close> as trees: the object at 0 with its three members, and the free item at 4.\<close>

definition demo_forest :: "jtree list" where
  "demo_forest = [Node 0 [Node 1 [], Node 2 [], Node 3 []], Node 4 []]"

lemma demo_owned: "owned demo_mem demo_forest"
  using demo_kids
  by (auto simp: demo_forest_def owned_def cell_strs_def demo_mem_def zero_cell_def kids_def final_def has_def cJSON_types)

lemma demo_owned_object: "owned demo_mem [Node 0 [Node 1 [], Node 2 [], Node 3 []]]"
  using demo_owned owned_append [of demo_mem "[Node 0 [Node 1 [], Node 2 [], Node 3 []]]" "[Node 4 []]"]
  by (simp add: demo_forest_def)

theorem cJSON_Delete_releases_witness:
  "cJSON_Delete (Some 0) demo_mem = Some (release {0, 1, 2, 3} {5, 6, 7} demo_mem)"
proof -
  have s: "set (strings_of demo_mem [0, 1, 2, 3]) = {5, 6, 7}"
    by (auto simp: cell_strs_def demo_mem_def zero_cell_def has_def cJSON_types)
  have n: "\<forall>c. cells demo_mem 0 = Some c \<longrightarrow> nxt c = None" by (simp add: demo_mem_def zero_cell_def)
  show ?thesis using cJSON_Delete_releases [OF demo_owned_object] n s by simp
qed

theorem cJSON_DeleteItemFromArray_releases_witness:
  "\<exists>m'. cJSON_DeleteItemFromArray (Some 0) 1 demo_mem = Some m' \<and> owned m' [Node 0 [Node 1 [], Node 3 []]] \<and>
    (\<forall>a. cells m' a = None \<longleftrightarrow> cells demo_mem a = None \<or> a = 2) \<and>
    (\<forall>s. strs m' s = (if s = 6 then None else strs demo_mem s))"
proof -
  have "strings_of demo_mem [2] = [6]" by (simp add: cell_strs_def demo_mem_def zero_cell_def has_def cJSON_types)
  then show ?thesis using cJSON_DeleteItemFromArray_releases [OF demo_owned_object, of 1] by simp
qed

theorem cJSON_ReplaceItemInArray_releases_witness:
  "\<exists>m'. cJSON_ReplaceItemInArray (Some 0) 0 (Some 4) demo_mem = Some (True, m') \<and>
    owned m' [Node 0 [Node 4 [], Node 2 [], Node 3 []]] \<and>
    (\<forall>a. cells m' a = None \<longleftrightarrow> cells demo_mem a = None \<or> a = 1) \<and>
    (\<forall>s. strs m' s = (if s = 5 then None else strs demo_mem s))"
proof -
  have "strings_of demo_mem [1] = [5]" by (simp add: cell_strs_def demo_mem_def zero_cell_def has_def cJSON_types)
  then show ?thesis using cJSON_ReplaceItemInArray_releases [OF demo_owned [unfolded demo_forest_def], of 0] by simp
qed

end
