(* ===== verification/Cjson_Members.thy ===== *)
theory Cjson_Members
  imports Cjson_Tree
begin

text \<open>
  The value of a tree in memory, as the printer reads it, and what the \<open>cJSON_Add..ToObject\<close> functions do
  to it: the object gets the new member at its end, or nothing changes at all.
\<close>

section \<open>The value of a tree\<close>

fun tval :: "jmem \<Rightarrow> jtree \<Rightarrow> cJSON" where
  "tval m (Node a ts) =
     (case cells m a of
        None \<Rightarrow> new_item
      | Some c \<Rightarrow> Item (jty c) (string_at (jvs c) m) (jvi c) (jvd c) (string_at (jnm c) m) (map (tval m) ts))"

definition with_kids :: "cJSON \<Rightarrow> cJSON list \<Rightarrow> cJSON" where
  "with_kids it cs = Item (ctype it) (valuestring it) (valueint it) (valuedouble it) (cname it) cs"

text \<open>Reading an item from memory along the \<open>child\<close> and \<open>next\<close> pointers, with fuel for both.\<close>

primrec read_chain :: "nat \<Rightarrow> ptr \<Rightarrow> jmem \<Rightarrow> cJSON list option" where
  "read_chain 0 p m = None"
| "read_chain (Suc n) p m =
     (case p of
        None \<Rightarrow> Some []
      | Some a \<Rightarrow> do {
          c \<leftarrow> cells m a;
          cs \<leftarrow> read_chain n (chld c) m;
          rest \<leftarrow> read_chain n (nxt c) m;
          Some (Item (jty c) (string_at (jvs c) m) (jvi c) (jvd c) (string_at (jnm c) m) cs # rest) })"

lemma read_chain_forest:
  "length (concat (map tcells ts)) < n \<Longrightarrow> (\<forall>t \<in> set ts. linked m t) \<Longrightarrow> jseg (cells m) q (map root ts) None \<Longrightarrow>
     read_chain n (first (map root ts) None) m = Some (map (tval m) ts)"
proof (induction n arbitrary: ts q)
  case (Suc n)
  show ?case
  proof (cases ts)
    case (Cons t rest)
    obtain a ks where t: "t = Node a ks" by (cases t)
    obtain c where c: "cells m a = Some c" "kids m a (map root ks)" "\<forall>k \<in> set ks. linked m k"
      using Suc.prems(2) by (auto simp: Cons t)
    have n: "nxt c = first (map root rest) None" "jseg (cells m) (Some a) (map root rest) None"
      using Suc.prems(3) c by (auto simp: Cons t)
    have k: "chld c = first (map root ks) None" "jseg (cells m) (final None (map root ks)) (map root ks) None"
      using c by (auto simp: kids_def)
    have "read_chain n (chld c) m = Some (map (tval m) ks)"
      unfolding k(1) by (rule Suc.IH [OF _ c(3) k(2)]) (use Suc.prems(1) in \<open>simp add: Cons t\<close>)
    moreover have "read_chain n (nxt c) m = Some (map (tval m) rest)"
      unfolding n(1) by (rule Suc.IH [OF _ _ n(2)]) (use Suc.prems in \<open>simp_all add: Cons t\<close>)
    ultimately show ?thesis using c by (simp add: Cons t)
  qed simp
qed simp

section \<open>Memory that a new item leaves alone\<close>

definition fresh :: "jmem \<Rightarrow> bool" where
  "fresh m \<longleftrightarrow> (\<forall>a \<ge> asks m. cells m a = None \<and> strs m a = None)"

definition readable :: "jmem \<Rightarrow> addr list \<Rightarrow> bool" where
  "readable m as \<longleftrightarrow> (\<forall>a \<in> set as. \<forall>c. cells m a = Some c \<longrightarrow>
     (\<forall>s. jvs c = Some s \<or> jnm c = Some s \<longrightarrow> strs m s \<noteq> None))"

text \<open>An object at \<open>ob\<close> with the members \<open>ts\<close>.\<close>

definition object_ok :: "jmem \<Rightarrow> addr \<Rightarrow> jtree list \<Rightarrow> bool" where
  "object_ok m ob ts \<longleftrightarrow> fresh m \<and> owned m [Node ob ts] \<and> readable m (tcells (Node ob ts))"

lemma tval_cong:
  assumes "\<forall>a \<in> set (tcells t). map_option body (cells m' a) = map_option body (cells m a)"
    "readable m (tcells t)" "\<forall>s. strs m s \<noteq> None \<longrightarrow> strs m' s = strs m s"
  shows "tval m' t = tval m t"
  using assms
proof (induction t)
  case (Node a ts)
  have sub: "tval m' t = tval m t" if "t \<in> set ts" for t
    by (rule Node.IH [OF that]) (use Node.prems that in \<open>auto simp: readable_def\<close>)
  have s: "string_at p m' = string_at p m" if "\<forall>s. p = Some s \<longrightarrow> strs m s \<noteq> None" for p
    using that Node.prems(3) by (cases p) (auto simp: string_at_def)
  show ?case
  proof (cases "cells m a")
    case None
    then show ?thesis using Node.prems(1) by simp
  next
    case (Some c)
    then obtain c' where c': "cells m' a = Some c'" "body c' = body c"
      using body_same [of m' a m c] Node.prems(1) by auto
    have "string_at (jvs c) m' = string_at (jvs c) m" "string_at (jnm c) m' = string_at (jnm c) m"
      using Node.prems(2) Some by (auto intro!: s simp: readable_def)
    then show ?thesis using Some c' body_fields [OF c'(2)] sub by simp
  qed
qed

section \<open>Flags\<close>

lemma bit_disjoint: "f AND g = 0 \<Longrightarrow> bit (f :: nat) n \<Longrightarrow> bit g n \<Longrightarrow> False"
  by (metis bit_0_eq bit_and_iff bot_apply bot_bool_def)

lemma clear_and:
  assumes "f AND g = 0"
  shows "clear t f AND g = t AND g"
proof (rule bit_eqI)
  fix n
  show "bit (clear t f AND g) n \<longleftrightarrow> bit (t AND g) n"
    using bit_disjoint [OF assms, of n] by (auto simp: clear_def bit_and_iff bit_xor_iff)
qed

lemma clear_none: "\<not> has t f \<Longrightarrow> clear t f = t"
  by (simp add: has_def clear_def)

section \<open>Creation\<close>

text \<open>
  \<open>created m v r\<close>: \<open>r\<close> is NULL and nothing is allocated, or a new item with the value \<open>v\<close> and, if it has a
  string, a new block for it.
\<close>

definition plain_cell :: "cJSON \<Rightarrow> ptr \<Rightarrow> jcell" where
  "plain_cell v s = zero_cell\<lparr>jty := ctype v, jvs := s, jvi := valueint v, jvd := valuedouble v\<rparr>"

definition created :: "jmem \<Rightarrow> cJSON \<Rightarrow> (ptr \<times> jmem) option \<Rightarrow> bool" where
  "created m v r \<longleftrightarrow> (\<exists>k. r = Some (None, m\<lparr>asks := asks m + k\<rparr>)) \<or>
     (valuestring v = None \<and> r = Some (Some (asks m),
        m\<lparr>cells := (cells m)(asks m \<mapsto> plain_cell v None), asks := asks m + 1\<rparr>)) \<or>
     (\<exists>x. valuestring v = Some x \<and> no_nul x \<and> r = Some (Some (asks m),
        m\<lparr>cells := (cells m)(asks m \<mapsto> plain_cell v (Some (asks m + 1))),
          strs := (strs m)(asks m + 1 \<mapsto> x @ [NUL]), asks := asks m + 2\<rparr>))"

lemma create_created:
  "f zero_cell = plain_cell v None \<Longrightarrow> valuestring v = None \<Longrightarrow>
     created m v (create f m)"
  by (auto simp: create_def New_Item_def created_def intro: exI [of _ 1])

lemma CreateNumber_created:
  "int_of_dbl d = Some vi \<Longrightarrow> created m (Item cJSON_Number None vi d None []) (cJSON_CreateNumber d m)"
  by (auto simp: cJSON_CreateNumber_def New_Item_def created_def plain_cell_def zero_cell_def intro: exI [of _ 1])

lemma create_text_created:
  assumes f: "fresh m" and s: "string_at s m = Some x" and t: "\<not> has t cJSON_IsReference" "\<not> has t cJSON_StringIsConst"
  shows "created m (Item t (Some x) 0 (Fin 0) None []) (create_text t s m)"
proof -
  obtain p where p: "s = Some p" using string_at_ptr [OF s] by auto
  have nn: "no_nul x" using s p by (auto simp: string_at_def bind_Some_iff dest: c_string_no_nul)
  have fr: "cells m (asks m) = None" using f by (simp add: fresh_def)
  have s': "string_at s (m\<lparr>cells := h, asks := k\<rparr>) = Some x" "string_at s (m\<lparr>asks := k, cells := h\<rparr>) = Some x" for h k
    using s by (simp_all add: string_at_def p)
  consider "\<not> grant m (asks m)" | "grant m (asks m)" "\<not> grant m (Suc (asks m))" | "grant m (asks m)" "grant m (Suc (asks m))"
    by blast
  then show ?thesis
  proof cases
    case 1
    then show ?thesis by (auto simp: create_text_def New_Item_def created_def intro: exI [of _ 1])
  next
    case 2
    have "(cells m)(asks m := None) = cells m" using fr by auto
    then have "create_text t s m = Some (None, m\<lparr>asks := asks m + 2\<rparr>)"
      using 2 s' t fr
      by (simp add: create_text_def New_Item_def cJSON_strdup_def p zero_cell_def cJSON_Delete.simps [of "Some _"]
          cJSON_Delete.simps [of None] free_string_def free_item_def Let_def)
    then show ?thesis unfolding created_def by blast
  next
    case 3
    then show ?thesis using s' nn
      by (auto simp: create_text_def New_Item_def cJSON_strdup_def p created_def plain_cell_def zero_cell_def)
  qed
qed

section \<open>Adding a member\<close>

lemma fresh_not_owned: "fresh m \<Longrightarrow> owned m ts \<Longrightarrow> asks m \<le> a \<Longrightarrow>
    a \<notin> set (concat (map tcells ts)) \<and> a \<notin> set (strings_of m (concat (map tcells ts)))"
proof -
  assume f: "fresh m" and o: "owned m ts" and a: "asks m \<le> a"
  have "\<exists>c. cells m b = Some c" if "linked m t" "b \<in> set (tcells t)" for t b
    using that
  proof (induction t)
    case (Node r us)
    then show ?case by (auto simp: kids_def)
  qed
  then have "cells m a \<noteq> None" if "a \<in> set (concat (map tcells ts))" using o that by (auto simp: owned_def)
  then show ?thesis using f o a by (auto simp: fresh_def owned_def)
qed

text \<open>The new item \<open>x\<close> with its name in the block \<open>k\<close>, before it is linked.\<close>

definition with_item :: "jmem \<Rightarrow> addr \<Rightarrow> cJSON \<Rightarrow> ptr \<Rightarrow> addr \<Rightarrow> string \<Rightarrow> jmem" where
  "with_item m x v s k nm = m\<lparr>cells := (cells m)(x \<mapsto> (plain_cell v s)\<lparr>jnm := Some k\<rparr>),
     strs := (case (s, valuestring v) of (Some a, Some t) \<Rightarrow> (strs m)(a \<mapsto> t @ [NUL]) | _ \<Rightarrow> strs m)(k \<mapsto> nm @ [NUL]),
     asks := k + 1\<rparr>"

lemma with_item_owned:
  assumes ob: "object_ok m ob ts" and k: "asks m < k" and s: "s = None \<and> valuestring v = None \<or> s = Some (asks m + 1) \<and> asks m + 1 < k \<and> valuestring v \<noteq> None"
    and t: "\<not> has (ctype v) cJSON_IsReference" "\<not> has (ctype v) cJSON_StringIsConst"
  shows "owned (with_item m (asks m) v s k nm) [Node ob ts, Node (asks m) []]"
proof -
  let ?m = "with_item m (asks m) v s k nm"
  have f: "fresh m" and o: "owned m [Node ob ts]" using ob by (auto simp: object_ok_def)
  have n: "asks m \<notin> set (concat (map tcells [Node ob ts]))" using fresh_not_owned [OF f o] by blast
  have ns: "k \<notin> set (strings_of m (concat (map tcells [Node ob ts])))" "Suc (asks m) \<notin> set (strings_of m (concat (map tcells [Node ob ts])))"
    using fresh_not_owned [OF f o, of k] fresh_not_owned [OF f o, of "Suc (asks m)"] k by auto
  have o1: "owned ?m [Node ob ts]"
  proof (rule owned_cong [OF _ _ o])
    show "\<forall>a \<in> set (concat (map tcells [Node ob ts])). cells ?m a = cells m a"
      using n by (auto simp: with_item_def)
    show "\<forall>z \<in> set (strings_of m (concat (map tcells [Node ob ts]))). strs m z \<noteq> None \<longrightarrow> strs ?m z \<noteq> None"
      by (auto simp: with_item_def split: option.split)
  qed
  have c: "cells ?m (asks m) = Some ((plain_cell v s)\<lparr>jnm := Some k\<rparr>)" by (simp add: with_item_def)
  have so: "strings_of ?m (concat (map tcells [Node ob ts])) = strings_of m (concat (map tcells [Node ob ts]))"
    using n by (intro strings_of_cong) (auto simp: with_item_def)
  have cs: "cell_strs (cells ?m (asks m)) = (case s of None \<Rightarrow> [k] | Some a \<Rightarrow> [a, k])"
    using t(2) unfolding c by (auto simp: cell_strs_def plain_cell_def zero_cell_def split: option.split)
  have al: "\<forall>z \<in> set (cell_strs (cells ?m (asks m))). strs ?m z \<noteq> None"
    unfolding cs using s by (auto simp: with_item_def split: option.splits)
  have o2: "owned ?m [Node (asks m) []]"
    using c t(1) cs al s k by (auto simp: owned_def kids_def plain_cell_def zero_cell_def split: option.splits)
  have "set (strings_of ?m (concat (map tcells [Node ob ts]))) \<inter> set (cell_strs (cells ?m (asks m))) = {}"
    unfolding so cs using ns s by (auto split: option.split)
  then have "owned ?m ([Node ob ts] @ [Node (asks m) []])"
    unfolding owned_append using o1 o2 n by auto
  then show ?thesis by simp
qed


lemma string_at_with_item:
  "k \<noteq> a \<Longrightarrow> no_nul nm \<Longrightarrow> string_at (Some k) (with_item m x v s k nm) = Some nm"
  "s = Some a \<Longrightarrow> valuestring v = Some t \<Longrightarrow> no_nul t \<Longrightarrow> k \<noteq> a \<Longrightarrow> string_at s (with_item m x v s k nm) = Some t"
  by (auto simp: string_at_def with_item_def)

lemma member_linked:
  assumes ob: "object_ok m ob ts" and k: "asks m < k"
    and s: "s = None \<and> valuestring v = None \<or> s = Some (asks m + 1) \<and> asks m + 1 < k \<and> (\<exists>t. valuestring v = Some t \<and> no_nul t)"
    and t: "\<not> has (ctype v) cJSON_IsReference" "\<not> has (ctype v) cJSON_StringIsConst" and nm: "no_nul nm"
  shows "\<exists>m'. add_item_to_array (Some ob) (Some (asks m)) (with_item m (asks m) v s k nm) = Some (True, m') \<and>
    object_ok m' ob (ts @ [Node (asks m) []]) \<and>
    tval m' (Node ob (ts @ [Node (asks m) []])) =
      with_kids (tval m (Node ob ts)) (map (tval m) ts @
        [Item (ctype v) (valuestring v) (valueint v) (valuedouble v) (Some nm) []])"
proof -
  let ?m = "with_item m (asks m) v s k nm" and ?x = "asks m"
  have f: "fresh m" and rd: "readable m (tcells (Node ob ts))" and own: "owned m [Node ob ts]"
    using ob by (auto simp: object_ok_def)
  have s': "s = None \<and> valuestring v = None \<or> s = Some (asks m + 1) \<and> asks m + 1 < k \<and> valuestring v \<noteq> None"
    using s by auto
  have o: "owned ?m [Node ob ts, Node ?x []]" by (rule with_item_owned [OF ob k s' t])
  then have o': "owned ?m (Node ob ts # [Node ?x []])" by simp
  have kd: "kids ?m ob (map root ts)" and nx: "?x \<notin> set (tcells (Node ob ts))"
    using o unfolding owned_Cons by auto
  have c: "cells ?m ?x = Some ((plain_cell v s)\<lparr>jnm := Some k\<rparr>)" by (simp add: with_item_def)
  have xn: "?x \<notin> set (ob # map root ts)" using nx root_in by force
  obtain m' where m': "add_item_to_array (Some ob) (Some ?x) ?m = Some (True, m')"
    "relinked ob (map root ts) (map root ts @ [?x]) ?m m'"
    using add_item_to_array_links [OF kd xn c] by (auto simp: plain_cell_def zero_cell_def)
  have r: "relinked ob (map root ts) (map root (ts @ [Node ?x []])) ?m m'" using m'(2) by simp
  have own': "owned m' [Node ob (ts @ [Node ?x []])]"
    by (rule owned_after_relink [OF o' r]) simp
  have st: "strs m' = strs ?m" "asks m' = asks ?m" using r by (simp_all add: relinked_def)
  have body: "map_option body (cells m' a) = map_option body (cells ?m a)" if "a \<noteq> ob" for a
    by (rule relinked_body [OF r that])
  have old: "cells ?m a = cells m a" if "a \<noteq> ?x" for a using that by (simp add: with_item_def)
  have keep: "\<forall>z. strs m z \<noteq> None \<longrightarrow> strs m' z = strs m z"
  proof (intro allI impI)
    fix z assume "strs m z \<noteq> None"
    then have "z < asks m" using f by (meson fresh_def not_le)
    then show "strs m' z = strs m z" using k s unfolding st by (auto simp: with_item_def split: option.split)
  qed
  have tv: "tval m' u = tval m u" if "u \<in> set ts" for u
  proof (rule tval_cong [OF _ _ keep])
    show "readable m (tcells u)" using rd that by (auto simp: readable_def)
    have "ob \<notin> set (tcells u)" using own that unfolding owned_Cons by auto
    moreover have "?x \<notin> set (tcells u)" using nx that by auto
    ultimately show "\<forall>a \<in> set (tcells u). map_option body (cells m' a) = map_option body (cells m a)"
      using body old by metis
  qed
  have xob: "?x \<noteq> ob" using xn by simp
  obtain cx where cx: "cells m' ?x = Some cx" "body cx = body ((plain_cell v s)\<lparr>jnm := Some k\<rparr>)"
    using body_same [OF body c] xob by blast
  have sv: "string_at s m' = valuestring v" "string_at (Some k) m' = Some nm"
  proof -
    have e: "string_at p m' = string_at p ?m" for p unfolding string_at_def st(1) ..
    show "string_at (Some k) m' = Some nm" unfolding e using string_at_with_item(1) [OF _ nm, of k "Suc k"] by simp
    show "string_at s m' = valuestring v"
      unfolding e using s string_at_with_item(2) [of s "asks m + 1" v _ k] by auto
  qed
  have tx: "tval m' (Node ?x []) = Item (ctype v) (valuestring v) (valueint v) (valuedouble v) (Some nm) []"
    using cx sv body_fields [OF cx(2)] by (simp add: plain_cell_def)
  obtain cp where cp: "cells m ob = Some cp" using own unfolding owned_Cons by blast
  have "map_option (\<lambda>c. c\<lparr>chld := None\<rparr>) (cells m' ob) = map_option (\<lambda>c. c\<lparr>chld := None\<rparr>) (cells m ob)"
    using r old [of ob] xob by (simp add: relinked_def)
  then obtain cp' where cp': "cells m' ob = Some cp'" "cp'\<lparr>chld := None\<rparr> = cp\<lparr>chld := None\<rparr>" using cp by auto
  have so: "string_at p m' = string_at p m" if "p = jvs cp \<or> p = jnm cp" for p
    using that keep rd cp by (cases p) (auto simp: string_at_def readable_def)
  have val: "tval m' (Node ob (ts @ [Node ?x []])) = with_kids (tval m (Node ob ts)) (map (tval m) ts @
        [Item (ctype v) (valuestring v) (valueint v) (valuedouble v) (Some nm) []])"
    using cp cp' chld_fields [OF cp'(2)] so tv tx by (simp add: with_kids_def del: tval.simps(1) add: tval.simps [of _ ob])
  have fr: "fresh m'"
    unfolding fresh_def
  proof (intro allI impI conjI)
    fix a assume a: "asks m' \<le> a"
    then have a': "k < a" using st by (simp add: with_item_def)
    then have "a \<noteq> ob" using f cp k by (auto simp: fresh_def)
    then show "cells m' a = None" using body [of a] old [of a] f a' k by (auto simp: fresh_def)
    show "strs m' a = None" using st f a' k s by (auto simp: with_item_def fresh_def split: option.split)
  qed
  have rd': "readable m' (tcells (Node ob (ts @ [Node ?x []])))"
    unfolding readable_def
  proof (intro ballI allI impI)
    fix a c z
    assume a: "a \<in> set (tcells (Node ob (ts @ [Node ?x []])))" and ca: "cells m' a = Some c" and z: "jvs c = Some z \<or> jnm c = Some z"
    show "strs m' z \<noteq> None"
    proof (cases "a = ?x")
      case True
      then show ?thesis
        using z ca cx body_fields [OF cx(2)] s st by (auto simp: plain_cell_def with_item_def split: option.split)
    next
      case False
      have "\<exists>c0. cells m a = Some c0 \<and> jvs c0 = jvs c \<and> jnm c0 = jnm c"
      proof (cases "a = ob")
        case True
        then show ?thesis using cp cp' ca chld_fields [OF cp'(2)] by auto
      next
        case f: False
        then have "map_option body (cells m a) = map_option body (cells m' a)" using body old False by simp
        from body_same [OF this ca] show ?thesis using body_fields by metis
      qed
      then obtain c0 where "cells m a = Some c0" "jvs c0 = jvs c" "jnm c0 = jnm c" by blast
      moreover have "a \<in> set (tcells (Node ob ts))" using a False by auto
      ultimately have "strs m z \<noteq> None" using rd z unfolding readable_def by metis
      then show ?thesis using keep by simp
    qed
  qed
  show ?thesis using m'(1) fr own' rd' val unfolding object_ok_def by blast
qed


text \<open>
  \<open>added m ob ts it r\<close>: \<open>r\<close> is NULL, and no cell and no string of \<open>m\<close> has changed; or \<open>r\<close> is a new item \<open>a\<close>,
  now the last member of the object, which has the value \<open>it\<close> added.
\<close>

definition added :: "jmem \<Rightarrow> addr \<Rightarrow> jtree list \<Rightarrow> cJSON \<Rightarrow> (ptr \<times> jmem) option \<Rightarrow> bool" where
  "added m ob ts it r \<longleftrightarrow> (\<exists>m'. r = Some (None, m') \<and> cells m' = cells m \<and> strs m' = strs m \<and> object_ok m' ob ts) \<or>
     (\<exists>a m'. r = Some (Some a, m') \<and> object_ok m' ob (ts @ [Node a []]) \<and>
        tval m' (Node ob (ts @ [Node a []])) = with_kids (tval m (Node ob ts)) (map (tval m) ts @ [it]))"

lemma update_order: "m\<lparr>strs := S, asks := A, cells := C\<rparr> = m\<lparr>cells := C, strs := S, asks := A\<rparr>" for m :: jmem
  by simp

lemma object_ok_asks: "object_ok m ob ts \<Longrightarrow> asks m \<le> k \<Longrightarrow> object_ok (m\<lparr>asks := k\<rparr>) ob ts"
  using owned_cong [of "[Node ob ts]" "m\<lparr>asks := k\<rparr>" m] by (auto simp: object_ok_def fresh_def readable_def)

lemma add_created_added:
  assumes ob: "object_ok m ob ts" and name: "string_at name m = Some nm" and mk: "created m v (mk m)"
    and t: "\<not> has (ctype v) cJSON_IsReference" "\<not> has (ctype v) cJSON_StringIsConst"
  shows "added m ob ts (Item (ctype v) (valuestring v) (valueint v) (valuedouble v) (Some nm) []) (add_created mk (Some ob) name m)"
proof -
  obtain q where q: "name = Some q" using string_at_ptr [OF name] by auto
  have nn: "no_nul nm" using name q by (auto simp: string_at_def bind_Some_iff dest: c_string_no_nul)
  obtain b where b: "strs m q = Some b" "c_string b = Some nm" using name by (auto simp: q string_at_def bind_Some_iff)
  have f: "fresh m" using ob by (simp add: object_ok_def)
  have ql: "q < asks m" by (rule ccontr) (use f b in \<open>auto simp: fresh_def not_less\<close>)
  have obl: "ob \<noteq> asks m" using ob by (auto simp: object_ok_def fresh_def owned_Cons)
  have undo: "(cells m)(asks m := None) = cells m" "(strs m)(Suc (asks m) := None) = strs m"
    using f by (auto simp: fresh_def)
  consider (none) k where "mk m = Some (None, m\<lparr>asks := asks m + k\<rparr>)"
    | (plain) "valuestring v = None" "mk m = Some (Some (asks m),
        m\<lparr>cells := (cells m)(asks m \<mapsto> plain_cell v None), asks := asks m + 1\<rparr>)"
    | (texted) x where "valuestring v = Some x" "no_nul x" "mk m = Some (Some (asks m),
        m\<lparr>cells := (cells m)(asks m \<mapsto> plain_cell v (Some (asks m + 1))),
          strs := (strs m)(asks m + 1 \<mapsto> x @ [NUL]), asks := asks m + 2\<rparr>)"
    using mk unfolding created_def by (elim disjE exE conjE) (rule that; assumption)+
  then show ?thesis
  proof cases
    case none
    then have "add_created mk (Some ob) name m = Some (None, m\<lparr>asks := asks m + k\<rparr>)"
      by (simp add: add_created_def add_item_to_object_def cJSON_Delete.simps [of None])
    then show ?thesis using object_ok_asks [OF ob] unfolding added_def by auto
  next
    case plain
    let ?k = "Suc (asks m)"
    show ?thesis
    proof (cases "grant m ?k")
      case False
      have "add_created mk (Some ob) name m = Some (None, m\<lparr>asks := Suc ?k\<rparr>)"
        using plain False b obl undo t
        by (simp add: add_created_def add_item_to_object_def cJSON_strdup_def string_at_def q plain_cell_def zero_cell_def
            cJSON_Delete.simps [of None] cJSON_Delete.simps [of "Some _"] free_string_def free_item_def Let_def)
      then show ?thesis using object_ok_asks [OF ob, of "Suc ?k"] unfolding added_def by auto
    next
      case True
      have run: "add_created mk (Some ob) name m =
          do { (ok, m1) \<leftarrow> add_item_to_array (Some ob) (Some (asks m)) (with_item m (asks m) v None ?k nm);
               if ok then Some (Some (asks m), m1) else do { m2 \<leftarrow> cJSON_Delete (Some (asks m)) m1; Some (None, m2) } }"
        using plain True b obl t
        by (simp add: add_created_def add_item_to_object_def cJSON_strdup_def string_at_def q with_item_def
            plain_cell_def zero_cell_def clear_none free_string_def Let_def update_order)
      obtain m' where m': "add_item_to_array (Some ob) (Some (asks m)) (with_item m (asks m) v None ?k nm) = Some (True, m')"
        "object_ok m' ob (ts @ [Node (asks m) []])"
        "tval m' (Node ob (ts @ [Node (asks m) []])) = with_kids (tval m (Node ob ts)) (map (tval m) ts @
          [Item (ctype v) (valuestring v) (valueint v) (valuedouble v) (Some nm) []])"
        using member_linked [OF ob, of ?k None v nm] plain(1) t nn by auto
      have "add_created mk (Some ob) name m = Some (Some (asks m), m')" unfolding run using m'(1) by simp
      then show ?thesis using m'(2,3) unfolding added_def by blast
    qed
  next
    case texted
    let ?k = "Suc (Suc (asks m))"
    have qk: "q \<noteq> Suc (asks m)" using ql by simp
    show ?thesis
    proof (cases "grant m ?k")
      case False
      have "add_created mk (Some ob) name m = Some (None, m\<lparr>asks := Suc ?k\<rparr>)"
        using texted False b obl undo t qk
        by (simp add: add_created_def add_item_to_object_def cJSON_strdup_def string_at_def q plain_cell_def zero_cell_def
            cJSON_Delete.simps [of None] cJSON_Delete.simps [of "Some _"] free_string_def free_item_def Let_def)
      then show ?thesis using object_ok_asks [OF ob, of "Suc ?k"] unfolding added_def by auto
    next
      case True
      have run: "add_created mk (Some ob) name m =
          do { (ok, m1) \<leftarrow> add_item_to_array (Some ob) (Some (asks m)) (with_item m (asks m) v (Some (asks m + 1)) ?k nm);
               if ok then Some (Some (asks m), m1) else do { m2 \<leftarrow> cJSON_Delete (Some (asks m)) m1; Some (None, m2) } }"
        using texted True b obl t qk
        by (simp add: add_created_def add_item_to_object_def cJSON_strdup_def string_at_def q with_item_def
            plain_cell_def zero_cell_def clear_none free_string_def Let_def update_order)
      obtain m' where m': "add_item_to_array (Some ob) (Some (asks m)) (with_item m (asks m) v (Some (asks m + 1)) ?k nm) = Some (True, m')"
        "object_ok m' ob (ts @ [Node (asks m) []])"
        "tval m' (Node ob (ts @ [Node (asks m) []])) = with_kids (tval m (Node ob ts)) (map (tval m) ts @
          [Item (ctype v) (valuestring v) (valueint v) (valuedouble v) (Some nm) []])"
        using member_linked [OF ob, of ?k "Some (asks m + 1)" v nm] texted(1,2) t nn by auto
      have "add_created mk (Some ob) name m = Some (Some (asks m), m')" unfolding run using m'(1) by simp
      then show ?thesis using m'(2,3) unfolding added_def by blast
    qed
  qed
qed

section \<open>Properties\<close>

text \<open>
  C24: \<open>cJSON_AddStringToObject\<close> and \<open>cJSON_AddNumberToObject\<close> are all or nothing, whichever of their
  requests for memory fails: either the object gets one more member at its end, with copies of the
  name and the text (or the number and its saturated integer), and is an owned, well-linked object
  again; or they return NULL and every cell and string is as before, so nothing leaks.
\<close>

theorem cJSON_AddToObject_all_or_nothing:
  assumes "object_ok m ob ts" "string_at name m = Some nm"
    and "string_at s m = Some x" "int_of_dbl d = Some vi"
  shows "added m ob ts (Item cJSON_String (Some x) 0 (Fin 0) (Some nm) []) (cJSON_AddStringToObject (Some ob) name s m) \<and>
    added m ob ts (Item cJSON_Number None vi d (Some nm) []) (cJSON_AddNumberToObject (Some ob) name d m)"
proof -
  have t: "\<not> has cJSON_String cJSON_IsReference" "\<not> has cJSON_String cJSON_StringIsConst"
    "\<not> has cJSON_Number cJSON_IsReference" "\<not> has cJSON_Number cJSON_StringIsConst"
    by (simp_all add: has_def cJSON_types)
  have "fresh m" using assms(1) by (simp add: object_ok_def)
  from create_text_created [OF this assms(3) t(1,2)] CreateNumber_created [OF assms(4), of m]
  show ?thesis
    using add_created_added [OF assms(1,2), of "Item cJSON_String (Some x) 0 (Fin 0) None []" "cJSON_CreateString s"]
      add_created_added [OF assms(1,2), of "Item cJSON_Number None vi d None []" "cJSON_CreateNumber d"] t
    by (simp add: cJSON_AddStringToObject_def cJSON_AddNumberToObject_def cJSON_CreateString_def)
qed


text \<open>An empty object at 0; the text \<open>ip\<close> at 1, and the text \<open>8.8.8.8\<close> at 2.\<close>

definition demo_object :: jmem where
  "demo_object = \<lparr>cells = [0 \<mapsto> zero_cell\<lparr>jty := cJSON_Object\<rparr>],
     strs = [1 \<mapsto> ''ip'' @ [NUL], 2 \<mapsto> ''8.8.8.8'' @ [NUL]], asks = 3, grant = (\<lambda>n. n \<noteq> 4)\<rparr>"

lemma demo_object_ok: "object_ok demo_object 0 []"
  by (auto simp: object_ok_def fresh_def owned_def readable_def demo_object_def kids_def zero_cell_def cell_strs_def
      has_def cJSON_types)

theorem cJSON_AddToObject_all_or_nothing_witness:
  "added demo_object 0 [] (Item cJSON_String (Some ''8.8.8.8'') 0 (Fin 0) (Some ''ip'') [])
     (cJSON_AddStringToObject (Some 0) (Some 1) (Some 2) demo_object)"
proof -
  have "string_at (Some 1) demo_object = Some ''ip''" "string_at (Some 2) demo_object = Some ''8.8.8.8''"
    by (simp_all add: string_at_def demo_object_def c_string_def)
  moreover have "int_of_dbl (Fin (of_int 1)) = Some 1" by (rule int_of_dbl_int) (simp_all add: INT_MIN_def INT_MAX_def)
  ultimately show ?thesis using cJSON_AddToObject_all_or_nothing [OF demo_object_ok] by blast
qed

end
