(* ===== verification/Cjson_Build.thy ===== *)
theory Cjson_Build
  imports Cjson_Members
begin

text \<open>
  Building items when memory suffices: a forest of owned trees with their values, and what creating an item,
  naming it, and adding one tree to another do to it. The string blocks that were there before stay.
\<close>

section \<open>Forests\<close>

definition root_ok :: "jmem \<Rightarrow> jtree \<Rightarrow> bool" where
  "root_ok m t \<longleftrightarrow> (\<forall>c. cells m (root t) = Some c \<longrightarrow> nxt c = None \<and> (jnm c \<noteq> None \<longrightarrow> string_at (jnm c) m \<noteq> None))"

definition forest_ok :: "jmem \<Rightarrow> jtree list \<Rightarrow> cJSON list \<Rightarrow> bool" where
  "forest_ok m F vs \<longleftrightarrow> fresh m \<and> owned m F \<and> readable m (concat (map tcells F)) \<and> map (tval m) F = vs \<and>
     (\<forall>t \<in> set F. root_ok m t)"

definition granted :: "jmem \<Rightarrow> bool" where
  "granted m \<longleftrightarrow> (\<forall>n. grant m n)"

definition grows :: "jmem \<Rightarrow> jmem \<Rightarrow> bool" where
  "grows m m' \<longleftrightarrow> grant m' = grant m \<and> (\<forall>z. strs m z \<noteq> None \<longrightarrow> strs m' z = strs m z)"

lemma grows_trans: "grows m m' \<Longrightarrow> grows m' m'' \<Longrightarrow> grows m m''"
  unfolding grows_def by metis

lemma grows_granted: "grows m m' \<Longrightarrow> granted m \<Longrightarrow> granted m'"
  by (simp add: grows_def granted_def)

lemma grows_string: "grows m m' \<Longrightarrow> string_at p m = Some s \<Longrightarrow> string_at p m' = Some s"
  by (cases p) (auto simp: grows_def string_at_def bind_Some_iff)

definition named :: "cJSON \<Rightarrow> string \<Rightarrow> cJSON" where
  "named w nm = Item (ctype w) (valuestring w) (valueint w) (valuedouble w) (Some nm) (child w)"

lemma forest_swap: "forest_ok m (a # b # F) (v # w # vs) \<Longrightarrow> forest_ok m (b # a # F) (w # v # vs)"
  using owned_mset [of "a # b # F" "b # a # F" m] by (auto simp: forest_ok_def readable_def add_mset_commute)

lemma linked_alloc: "linked m t \<Longrightarrow> a \<in> set (tcells t) \<Longrightarrow> cells m a \<noteq> None"
proof (induction t)
  case (Node r us)
  then show ?case by (auto simp: kids_def)
qed

lemma kept_string: "\<forall>z. strs m z \<noteq> None \<longrightarrow> strs m' z = strs m z \<Longrightarrow> string_at p m = Some s \<Longrightarrow> string_at p m' = Some s"
  by (cases p) (auto simp: string_at_def bind_Some_iff)

lemma root_ok_keep:
  assumes "\<forall>z. strs m z \<noteq> None \<longrightarrow> strs m' z = strs m z" "cells m' (root t) = cells m (root t)" "root_ok m t"
  shows "root_ok m' t"
  using assms(2,3) kept_string [OF assms(1)] by (fastforce simp: root_ok_def)

lemma readable_sub: "readable m as \<Longrightarrow> set bs \<subseteq> set as \<Longrightarrow> readable m bs"
  by (auto simp: readable_def)

text \<open>Values do not change where cells keep their bodies and strings stay.\<close>

lemma forest_tval:
  assumes "readable m (concat (map tcells F))" "\<forall>z. strs m z \<noteq> None \<longrightarrow> strs m' z = strs m z"
    "\<forall>a \<in> set (concat (map tcells F)). map_option body (cells m' a) = map_option body (cells m a)"
  shows "map (tval m') F = map (tval m) F"
proof (rule map_cong [OF refl])
  fix t assume t: "t \<in> set F"
  show "tval m' t = tval m t"
    using assms t by (intro tval_cong) (auto simp: readable_def)
qed

text \<open>A new item in front; \<open>s\<close> is its string block, if it has one.\<close>

lemma forest_new:
  assumes F: "forest_ok m F vs" and k: "asks m < k" and t: "\<not> has (ctype v) cJSON_IsReference"
    and s: "s = None \<and> valuestring v = None \<and> S = strs m \<or>
      s = Some (asks m + 1) \<and> asks m + 1 < k \<and> (\<exists>x. valuestring v = Some x \<and> no_nul x \<and> S = (strs m)(asks m + 1 \<mapsto> x @ [NUL]))"
    and v: "cname v = None" "child v = []"
  shows "forest_ok (m\<lparr>cells := (cells m)(asks m \<mapsto> plain_cell v s), strs := S, asks := k\<rparr>) (Node (asks m) [] # F) (v # vs) \<and>
    grows m (m\<lparr>cells := (cells m)(asks m \<mapsto> plain_cell v s), strs := S, asks := k\<rparr>)"
proof -
  let ?m = "m\<lparr>cells := (cells m)(asks m \<mapsto> plain_cell v s), strs := S, asks := k\<rparr>" and ?C = "set (concat (map tcells F))"
  have f: "fresh m" and o: "owned m F" and rd: "readable m (concat (map tcells F))" using F by (auto simp: forest_ok_def)
  have n: "asks m \<notin> ?C" "asks m + 1 \<notin> set (strings_of m (concat (map tcells F)))"
    using fresh_not_owned [OF f o, of "asks m"] fresh_not_owned [OF f o, of "asks m + 1"] by auto
  have keep: "\<forall>z. strs m z \<noteq> None \<longrightarrow> strs ?m z = strs m z"
    using s f by (auto simp: fresh_def)
  have same: "\<forall>a \<in> ?C. cells ?m a = cells m a" using n(1) by auto
  have oF: "owned ?m F" by (rule owned_cong [OF same _ o]) (use keep in auto)
  have so: "strings_of ?m (concat (map tcells F)) = strings_of m (concat (map tcells F))" by (rule strings_of_cong [OF same])
  have cs: "cell_strs (cells ?m (asks m)) = (case s of None \<Rightarrow> [] | Some a \<Rightarrow> [a])"
    by (auto simp: cell_strs_def plain_cell_def zero_cell_def split: option.split)
  have own: "owned ?m (Node (asks m) [] # F)"
    unfolding owned_Cons so cs using oF n t s by (auto simp: kids_def plain_cell_def zero_cell_def owned_def)
  have rd': "readable ?m (concat (map tcells (Node (asks m) [] # F)))"
    using rd keep same s n(1) unfolding readable_def by (fastforce simp: plain_cell_def zero_cell_def)
  have "map (tval ?m) F = map (tval m) F" by (rule forest_tval [OF rd keep]) (use same in auto)
  then have tF: "map (tval ?m) F = vs" using F unfolding forest_ok_def by metis
  have "string_at s ?m = valuestring v" using s by (auto simp: string_at_def)
  then have tn: "tval ?m (Node (asks m) []) = v"
    using v by (cases v) (simp add: plain_cell_def zero_cell_def)
  have fr: "fresh ?m" using f k s by (auto simp: fresh_def)
  have nx: "root_ok ?m t" if "t \<in> set F" for t
  proof (rule root_ok_keep [OF keep])
    show "cells ?m (root t) = cells m (root t)" using same that root_in [of t] by auto
    show "root_ok m t" using F that by (simp add: forest_ok_def)
  qed
  have "root_ok ?m (Node (asks m) [])" by (simp add: root_ok_def plain_cell_def zero_cell_def)
  then show ?thesis
    using fr own rd' tF tn nx keep by (auto simp: forest_ok_def grows_def)
qed


text \<open>The last tree becomes the last child of the first.\<close>

lemma forest_add:
  assumes F: "forest_ok m (Node p ts # t # F) (v # w # vs)"
  shows "\<exists>m'. add_item_to_array (Some p) (Some (root t)) m = Some (True, m') \<and>
    forest_ok m' (Node p (ts @ [t]) # F) (with_kids v (child v @ [w]) # vs) \<and> grows m m'"
proof -
  have f: "fresh m" and o: "owned m (Node p ts # t # F)" and rd: "readable m (concat (map tcells (Node p ts # t # F)))"
    and tv: "tval m (Node p ts) = v" "tval m t = w" "map (tval m) F = vs"
    and nx: "\<forall>u \<in> {Node p ts, t} \<union> set F. root_ok m u"
    using F by (auto simp: forest_ok_def)
  obtain c where c: "cells m (root t) = Some c" using o by (cases t) (auto simp: owned_Cons)
  have kd: "kids m p (map root ts)" and np: "p \<notin> set (concat (map tcells (ts @ t # F)))"
    and dj: "set (concat (map tcells ts)) \<inter> set (concat (map tcells (t # F))) = {}"
    using o unfolding owned_Cons by auto
  have rin: "root t \<in> set (concat (map tcells (t # F)))" using root_in by simp
  have rts: "root u \<in> set (concat (map tcells ts))" if "u \<in> set ts" for u using that root_in by fastforce
  have nt: "root t \<notin> set (p # map root ts)"
    using np rin dj rts by (auto simp: disjoint_iff)
  obtain m' where m': "add_item_to_array (Some p) (Some (root t)) m = Some (True, m')"
    "relinked p (map root ts) (map root ts @ [root t]) m m'"
    using add_item_to_array_links [OF kd nt c] nx c by (auto simp: root_ok_def)
  have r: "relinked p (map root ts) (map root (ts @ [t])) m m'" using m'(2) by simp
  have own: "owned m' (Node p (ts @ [t]) # F)" by (rule owned_after_relink [OF o r]) simp
  have st: "strs m' = strs m" "asks m' = asks m" "grant m' = grant m" using r by (simp_all add: relinked_def)
  have body: "map_option body (cells m' a) = map_option body (cells m a)" if "a \<noteq> p" for a
    by (rule relinked_body [OF r that])
  have fr: "fresh m'" using f relinked_alloc [OF r] st by (simp add: fresh_def)
  obtain cp where cp: "cells m p = Some cp" using kd by (auto simp: kids_def)
  have "map_option (\<lambda>c. c\<lparr>chld := None\<rparr>) (cells m' p) = map_option (\<lambda>c. c\<lparr>chld := None\<rparr>) (cells m p)"
    using r by (simp add: relinked_def)
  then obtain cp' where cp': "cells m' p = Some cp'" "cp'\<lparr>chld := None\<rparr> = cp\<lparr>chld := None\<rparr>" using cp by auto
  note pf = chld_fields [OF cp'(2)]
  have same: "jvs c' = jvs d \<and> jnm c' = jnm d" if "cells m' a = Some c'" "cells m a = Some d" for a c' d
    using that pf cp cp' body [of a] body_fields [of c' d] by (cases "a = p") auto
  have rd': "readable m' (concat (map tcells (Node p (ts @ [t]) # F)))"
    unfolding readable_def
  proof (intro ballI allI impI)
    fix a c' z
    assume a: "a \<in> set (concat (map tcells (Node p (ts @ [t]) # F)))" and c': "cells m' a = Some c'" "jvs c' = Some z \<or> jnm c' = Some z"
    obtain d where d: "cells m a = Some d" using relinked_alloc [OF r, of a] c'(1) by auto
    have "a \<in> set (concat (map tcells (Node p ts # t # F)))" using a by auto
    then show "strs m' z \<noteq> None" using rd d same [OF c'(1) d] c'(2) unfolding readable_def st by metis
  qed
  have keep: "\<forall>z. strs m z \<noteq> None \<longrightarrow> strs m' z = strs m z" by (simp add: st)
  have all: "map (tval m') (ts @ t # F) = map (tval m) (ts @ t # F)"
  proof (rule forest_tval [OF _ keep])
    show "readable m (concat (map tcells (ts @ t # F)))" using rd by (auto simp: readable_def)
    show "\<forall>a \<in> set (concat (map tcells (ts @ t # F))). map_option body (cells m' a) = map_option body (cells m a)"
      using np body by metis
  qed
  have so: "string_at q m' = string_at q m" for q by (simp add: string_at_def st split: option.split)
  have root': "tval m' (Node p (ts @ [t])) = with_kids v (child v @ [w])"
    using all tv cp cp'(1) pf so by (auto simp: with_kids_def simp del: tval.simps simp add: tval.simps [of _ p])
  have nx': "root_ok m' u" if u: "u \<in> set F" for u
  proof (rule root_ok_keep [OF keep])
    have ur: "root u \<in> set (concat (map tcells F))" using u root_in by fastforce
    have "set (tcells t) \<inter> set (concat (map tcells F)) = {}" using o by (auto simp: owned_def)
    then have "root u \<noteq> root t" using ur root_in [of t] by (metis disjoint_iff)
    moreover have "root u \<notin> set (map root ts)"
    proof
      assume "root u \<in> set (map root ts)"
      then have "root u \<in> set (concat (map tcells ts))" using rts by auto
      then show False using dj ur by auto
    qed
    ultimately have "root u \<notin> set (p # map root ts @ [root t])" using np ur by auto
    then have "root u \<notin> set (p # map root ts @ map root (ts @ [t]))" by auto
    then show "cells m' (root u) = cells m (root u)" using r unfolding relinked_def by blast
    show "root_ok m u" using nx u by simp
  qed
  have "root_ok m' (Node p (ts @ [t]))" using nx cp cp' pf so by (auto simp: root_ok_def)
  then have "forest_ok m' (Node p (ts @ [t]) # F) (with_kids v (child v @ [w]) # vs)"
    using fr own rd' all tv root' nx' by (auto simp: forest_ok_def simp del: tval.simps)
  then show ?thesis using m'(1) keep st by (auto simp: grows_def)
qed


text \<open>A copy of the name in a new block of the first tree's root, which had no name.\<close>

lemma forest_name:
  assumes F: "forest_ok m (Node a ts # F) (w # vs)" and c: "cells m a = Some c" "jnm c = None" "\<not> has (jty c) cJSON_StringIsConst"
    and nm: "no_nul nm"
  defines "m' \<equiv> m\<lparr>cells := (cells m)(a \<mapsto> c\<lparr>jnm := Some (asks m)\<rparr>), strs := (strs m)(asks m \<mapsto> nm @ [NUL]), asks := asks m + 1\<rparr>"
  shows "forest_ok m' (Node a ts # F) (named w nm # vs) \<and> grows m m'"
proof -
  let ?k = "asks m"
  have f: "fresh m" and o: "owned m (Node a ts # F)" and rd: "readable m (concat (map tcells (Node a ts # F)))"
    and tv: "tval m (Node a ts) = w" "map (tval m) F = vs"
    and nx: "\<forall>u \<in> {Node a ts} \<union> set F. root_ok m u"
    using F by (auto simp: forest_ok_def)
  note oo = o [unfolded owned_Cons]
  have ns: "?k \<notin> set (strings_of m (concat (map tcells (Node a ts # F))))" using fresh_not_owned [OF f o, of ?k] by blast
  have ka: "?k \<noteq> a" using fresh_not_owned [OF f o, of ?k] by auto
  have same: "\<forall>b \<in> set (concat (map tcells ts)). cells m' b = cells m b" "\<forall>b \<in> set (concat (map tcells F)). cells m' b = cells m b"
    using oo by (auto simp: m'_def)
  have keep: "\<forall>z. strs m z \<noteq> None \<longrightarrow> strs m' z = strs m z" using f by (auto simp: fresh_def m'_def)
  have own: "owned m' ts" "owned m' F"
    by (rule owned_cong [OF same(1)]; use oo keep in auto) (rule owned_cong [OF same(2)]; use oo keep in auto)
  have so: "strings_of m' (concat (map tcells ts)) = strings_of m (concat (map tcells ts))"
    "strings_of m' (concat (map tcells F)) = strings_of m (concat (map tcells F))"
    by (rule strings_of_cong [OF same(1)], rule strings_of_cong [OF same(2)])
  have ca: "cells m' a = Some (c\<lparr>jnm := Some ?k\<rparr>)" by (simp add: m'_def)
  have cs: "cell_strs (cells m' a) = cell_strs (cells m a) @ [?k]"
    using c by (auto simp: ca cell_strs_def split: option.split)
  have "kids m' a (map root ts)"
  proof -
    have "\<forall>b \<in> set (map root ts). cells m' b = cells m b" using same(1) root_in by fastforce
    then have "jseg (cells m') q (map root ts) n \<longleftrightarrow> jseg (cells m) q (map root ts) n" for q n by (rule jseg_cong)
    then show ?thesis using oo c(1) ca by (auto simp: kids_def)
  qed
  then have o': "owned m' (Node a ts # F)"
    unfolding owned_Cons so cs using own oo ns c(1) keep ca by (auto simp: m'_def)
  have rd': "readable m' (concat (map tcells (Node a ts # F)))"
    unfolding readable_def
  proof (intro ballI allI impI)
    fix b c' z
    assume b: "b \<in> set (concat (map tcells (Node a ts # F)))" and c': "cells m' b = Some c'" "jvs c' = Some z \<or> jnm c' = Some z"
    show "strs m' z \<noteq> None"
    proof (cases "z = ?k")
      case True
      then show ?thesis by (simp add: m'_def)
    next
      case False
      have "\<exists>d. cells m b = Some d \<and> (jvs d = Some z \<or> jnm d = Some z)"
        using c' False c(1) by (cases "b = a") (auto simp: m'_def)
      then show ?thesis using rd b keep unfolding readable_def by metis
    qed
  qed
  have st: "string_at (jvs c) m' = string_at (jvs c) m"
  proof (cases "jvs c")
    case (Some z)
    then have "strs m z \<noteq> None" using rd c(1) by (auto simp: readable_def)
    then show ?thesis using keep by (simp add: Some string_at_def)
  qed simp
  have sk: "string_at (Some ?k) m' = Some nm" using nm by (simp add: string_at_def m'_def)
  have sub: "map (tval m') ts = map (tval m) ts" "map (tval m') F = vs"
  proof -
    show "map (tval m') ts = map (tval m) ts"
      by (rule forest_tval [OF readable_sub [OF rd] keep]) (use same(1) in auto)
    have "map (tval m') F = map (tval m) F"
      by (rule forest_tval [OF readable_sub [OF rd] keep]) (use same(2) in auto)
    then show "map (tval m') F = vs" using tv by metis
  qed
  have t: "tval m' (Node a ts) = named w nm"
    using tv(1) c ca st sk sub(1) by (auto simp: named_def)
  have nx': "root_ok m' u" if u: "u \<in> set F" for u
  proof (rule root_ok_keep [OF keep])
    show "cells m' (root u) = cells m (root u)" using same(2) u root_in [of u] by auto
    show "root_ok m u" using nx u by simp
  qed
  have "root_ok m' (Node a ts)" using nx c(1) sk by (simp add: root_ok_def ca)
  then have "forest_ok m' (Node a ts # F) (named w nm # vs)"
    using f o' rd' t sub(2) c(1) nx' by (auto simp: forest_ok_def fresh_def m'_def simp del: tval.simps)
  then show ?thesis using keep by (simp add: grows_def m'_def)
qed

lemma forest_add_named:
  assumes F: "forest_ok m (Node p ts # Node a us # F) (v # w # vs)" and g: "granted m" and name: "string_at name m = Some nm"
    and w: "cname w = None" "\<not> has (ctype w) cJSON_StringIsConst"
  shows "\<exists>m'. add_item_to_object (Some p) name (Some a) False m = Some (True, m') \<and>
    forest_ok m' (Node p (ts @ [Node a us]) # F) (with_kids v (child v @ [named w nm]) # vs) \<and> grows m m'"
proof -
  obtain q where q: "name = Some q" using string_at_ptr [OF name] by auto
  have nn: "no_nul nm" using name q by (auto simp: string_at_def bind_Some_iff dest: c_string_no_nul)
  have S: "forest_ok m (Node a us # Node p ts # F) (w # v # vs)" by (rule forest_swap [OF F])
  obtain c where c: "cells m a = Some c" using S by (auto simp: forest_ok_def owned_Cons)
  have n: "jnm c = None" "\<not> has (jty c) cJSON_StringIsConst" using S c w by (auto simp: forest_ok_def root_ok_def)
  define m1 where "m1 = m\<lparr>cells := (cells m)(a \<mapsto> c\<lparr>jnm := Some (asks m)\<rparr>), strs := (strs m)(asks m \<mapsto> nm @ [NUL]), asks := asks m + 1\<rparr>"
  have n1: "forest_ok m1 (Node a us # Node p ts # F) (named w nm # v # vs)" "grows m m1"
    using forest_name [OF S c n nn] unfolding m1_def by auto
  obtain m' where m': "add_item_to_array (Some p) (Some a) m1 = Some (True, m')"
    "forest_ok m' (Node p (ts @ [Node a us]) # F) (with_kids v (child v @ [named w nm]) # vs)" "grows m1 m'"
    using forest_add [OF forest_swap [OF n1(1)]] by auto
  have pa: "p \<noteq> a" using F by (auto simp: forest_ok_def owned_Cons)
  have "add_item_to_object (Some p) name (Some a) False m = add_item_to_array (Some p) (Some a) m1"
    using g name n c pa
    by (simp add: add_item_to_object_def cJSON_strdup_def q granted_def free_string_def clear_none m1_def update_order)
  then show ?thesis using m' grows_trans [OF n1(2) m'(3)] by auto
qed


section \<open>The creating functions\<close>

lemma asks_last: "m\<lparr>asks := k, cells := h\<rparr> = m\<lparr>cells := h, asks := k\<rparr>" for m :: jmem
  by simp

lemma create_forest:
  assumes F: "forest_ok m F vs" and g: "granted m" and z: "f zero_cell = plain_cell v None" "\<not> has (ctype v) cJSON_IsReference"
    and v: "cname v = None" "child v = []" "valuestring v = None"
  shows "\<exists>m'. create f m = Some (Some (asks m), m') \<and> forest_ok m' (Node (asks m) [] # F) (v # vs) \<and> grows m m'"
  using forest_new [OF F, of "asks m + 1" v None "strs m"] g z v
  by (auto simp: create_def New_Item_def granted_def asks_last)

lemma create_number_forest:
  assumes F: "forest_ok m F vs" and g: "granted m" and d: "int_of_dbl d = Some vi"
  shows "\<exists>m'. cJSON_CreateNumber d m = Some (Some (asks m), m') \<and>
    forest_ok m' (Node (asks m) [] # F) (Item cJSON_Number None vi d None [] # vs) \<and> grows m m'"
proof -
  have "\<not> has cJSON_Number cJSON_IsReference" by (simp add: has_def cJSON_types)
  then show ?thesis
    using forest_new [OF F, of "asks m + 1" "Item cJSON_Number None vi d None []" None "strs m"] g d
    by (auto simp: cJSON_CreateNumber_def New_Item_def granted_def plain_cell_def zero_cell_def asks_last)
qed

lemma create_string_forest:
  assumes F: "forest_ok m F vs" and g: "granted m" and s: "string_at s m = Some x"
  shows "\<exists>m'. cJSON_CreateString s m = Some (Some (asks m), m') \<and>
    forest_ok m' (Node (asks m) [] # F) (Item cJSON_String (Some x) 0 (Fin 0) None [] # vs) \<and> grows m m'"
proof -
  obtain p where p: "s = Some p" using string_at_ptr [OF s] by auto
  have nn: "no_nul x" using s p by (auto simp: string_at_def bind_Some_iff dest: c_string_no_nul)
  have s': "string_at s (m\<lparr>cells := h, asks := k\<rparr>) = Some x" "string_at s (m\<lparr>asks := k, cells := h\<rparr>) = Some x" for h k
    using s by (simp_all add: string_at_def p)
  let ?v = "Item cJSON_String (Some x) 0 (Fin 0) None []"
  have "cJSON_CreateString s m = Some (Some (asks m), m\<lparr>cells := (cells m)(asks m \<mapsto> plain_cell ?v (Some (asks m + 1))),
      strs := (strs m)(asks m + 1 \<mapsto> x @ [NUL]), asks := asks m + 2\<rparr>)"
    using g s' by (auto simp: cJSON_CreateString_def create_text_def New_Item_def cJSON_strdup_def p granted_def plain_cell_def zero_cell_def)
  moreover have "\<not> has cJSON_String cJSON_IsReference" by (simp add: has_def cJSON_types)
  ultimately show ?thesis
    using forest_new [OF F, of "asks m + 2" ?v "Some (asks m + 1)" "(strs m)(asks m + 1 \<mapsto> x @ [NUL])"] nn by auto
qed

text \<open>A new leaf as a member of the first tree.\<close>

lemma add_created_forest:
  assumes mk: "\<exists>m1. mk m = Some (Some (asks m), m1) \<and> forest_ok m1 (Node (asks m) [] # Node e ts # F) (w # v # vs) \<and> grows m m1"
    and g: "granted m" and name: "string_at name m = Some nm" and w: "cname w = None" "\<not> has (ctype w) cJSON_StringIsConst"
  shows "\<exists>r ts' m'. add_created mk (Some e) name m = Some (r, m') \<and> forest_ok m' (Node e ts' # F) (with_kids v (child v @ [named w nm]) # vs) \<and>
    grows m m'"
proof -
  obtain m1 where m1: "mk m = Some (Some (asks m), m1)" "forest_ok m1 (Node (asks m) [] # Node e ts # F) (w # v # vs)" "grows m m1"
    using mk by blast
  obtain m' where m': "add_item_to_object (Some e) name (Some (asks m)) False m1 = Some (True, m')"
    "forest_ok m' (Node e (ts @ [Node (asks m) []]) # F) (with_kids v (child v @ [named w nm]) # vs)" "grows m1 m'"
    using forest_add_named [OF forest_swap [OF m1(2)] grows_granted [OF m1(3) g] grows_string [OF m1(3) name] w] by blast
  show ?thesis using m1(1) m' grows_trans [OF m1(3) m'(3)] by (auto simp: add_created_def)
qed

lemma add_string_forest:
  assumes F: "forest_ok m (Node e ts # F) (v # vs)" and g: "granted m" and s: "string_at name m = Some nm" "string_at s m = Some x"
  shows "\<exists>r ts' m'. cJSON_AddStringToObject (Some e) name s m = Some (r, m') \<and>
    forest_ok m' (Node e ts' # F) (with_kids v (child v @ [named (Item cJSON_String (Some x) 0 (Fin 0) None []) nm]) # vs) \<and> grows m m'"
  unfolding cJSON_AddStringToObject_def
  by (rule add_created_forest [where mk = "cJSON_CreateString s", OF create_string_forest [OF F g s(2)] g s(1)]) (simp_all add: has_def cJSON_types)

lemma add_number_forest:
  assumes F: "forest_ok m (Node e ts # F) (v # vs)" and g: "granted m" and s: "string_at name m = Some nm" "int_of_dbl d = Some vi"
  shows "\<exists>r ts' m'. cJSON_AddNumberToObject (Some e) name d m = Some (r, m') \<and>
    forest_ok m' (Node e ts' # F) (with_kids v (child v @ [named (Item cJSON_Number None vi d None []) nm]) # vs) \<and> grows m m'"
  unfolding cJSON_AddNumberToObject_def
  by (rule add_created_forest [where mk = "cJSON_CreateNumber d", OF create_number_forest [OF F g s(2)] g s(1)]) (simp_all add: has_def cJSON_types)

end
