(* ===== verification/Cjson_Compare.thy ===== *)
theory Cjson_Compare
  imports Cjson_Build
begin

text \<open>
  \<open>cJSON_Compare\<close>: two items in memory compared by value. Against the code, which walks both trees and looks members
  up by name, stands \<open>compare_items\<close> on the values of the trees.
\<close>

section \<open>The code\<close>

text \<open>
  The loops over the elements of two arrays and over the members of an object, with the function \<open>cmp\<close> that compares
  two items. The fuel bounds the rounds, the one of \<open>cJSON_Compare\<close> the calls inside calls; \<open>None\<close> when it runs out.
\<close>

primrec compare_elements :: "(ptr \<Rightarrow> ptr \<Rightarrow> bool option) \<Rightarrow> nat \<Rightarrow> ptr \<Rightarrow> ptr \<Rightarrow> jmem \<Rightarrow> bool option" where
  "compare_elements cmp 0 a b m = None"
| "compare_elements cmp (Suc n) a b m =
     (case a of
        None \<Rightarrow> Some (b = None)
      | Some x \<Rightarrow>
          (case b of
             None \<Rightarrow> Some False
           | Some y \<Rightarrow> do {
               ok \<leftarrow> cmp a b;
               if \<not> ok then Some False
               else do { c \<leftarrow> cells m x; d \<leftarrow> cells m y; compare_elements cmp n (nxt c) (nxt d) m } }))"

primrec compare_members :: "(ptr \<Rightarrow> ptr \<Rightarrow> bool option) \<Rightarrow> nat \<Rightarrow> ptr \<Rightarrow> ptr \<Rightarrow> bool \<Rightarrow> jmem \<Rightarrow> bool option" where
  "compare_members cmp 0 element other case_sensitive m = None"
| "compare_members cmp (Suc n) element other case_sensitive m =
     (case element of
        None \<Rightarrow> Some True
      | Some x \<Rightarrow> do {
          c \<leftarrow> cells m x;
          e \<leftarrow> get_object_item other (jnm c) case_sensitive m;
          if e = None then Some False
          else do {
            ok \<leftarrow> cmp element e;
            if \<not> ok then Some False
            else compare_members cmp n (nxt c) other case_sensitive m } })"

primrec cJSON_Compare :: "nat \<Rightarrow> ptr \<Rightarrow> ptr \<Rightarrow> bool \<Rightarrow> jmem \<Rightarrow> bool option" where
  "cJSON_Compare 0 a b case_sensitive m = None"
| "cJSON_Compare (Suc n) a b case_sensitive m =
     (case (a, b) of
        (Some x, Some y) \<Rightarrow> do {
          c \<leftarrow> cells m x;
          d \<leftarrow> cells m y;
          let t = jty c AND 0xFF;
          if t \<noteq> jty d AND 0xFF then Some False
          else if t \<notin> {cJSON_False, cJSON_True, cJSON_NULL, cJSON_Number, cJSON_String, cJSON_Raw, cJSON_Array, cJSON_Object}
            then Some False
          else if x = y then Some True
          else if t \<in> {cJSON_False, cJSON_True, cJSON_NULL} then Some True
          else if t = cJSON_Number then Some (compare_double (jvd c) (jvd d))
          else if t \<in> {cJSON_String, cJSON_Raw} then
            (if jvs c = None \<or> jvs d = None then Some False
             else do { s1 \<leftarrow> string_at (jvs c) m; s2 \<leftarrow> string_at (jvs d) m; Some (s1 = s2) })
          else if t = cJSON_Array then
            compare_elements (\<lambda>p q. cJSON_Compare n p q case_sensitive m) n (chld c) (chld d) m
          else do {
            ok \<leftarrow> compare_members (\<lambda>p q. cJSON_Compare n p q case_sensitive m) n (chld c) b case_sensitive m;
            if \<not> ok then Some False
            else compare_members (\<lambda>p q. cJSON_Compare n p q case_sensitive m) n (chld d) a case_sensitive m } }
      | _ \<Rightarrow> Some False)"

section \<open>Comparison by value\<close>

definition member_named :: "bool \<Rightarrow> string option \<Rightarrow> cJSON list \<Rightarrow> cJSON option" where
  "member_named cs nm es = (case nm of None \<Rightarrow> None | Some s \<Rightarrow> find (\<lambda>e. name_matches cs s (cname e)) es)"

lemma member_named_in: "member_named cs nm es = Some e \<Longrightarrow> e \<in> set es"
  by (auto simp: member_named_def find_Some_iff split: option.splits)

lemma child_smaller: "x \<in> set (child a) \<Longrightarrow> size x < size a"
  by (cases a) (auto simp: less_Suc_eq_le intro: size_list_estimation')

function compare_items :: "bool \<Rightarrow> cJSON \<Rightarrow> cJSON \<Rightarrow> bool" where
  "compare_items cs a b =
     (let t = ctype a AND 0xFF in
      t = ctype b AND 0xFF \<and>
      (t \<in> {cJSON_False, cJSON_True, cJSON_NULL} \<or>
       t = cJSON_Number \<and> compare_double (valuedouble a) (valuedouble b) \<or>
       t \<in> {cJSON_String, cJSON_Raw} \<and> valuestring a \<noteq> None \<and> valuestring a = valuestring b \<or>
       t = cJSON_Array \<and> list_all2 (compare_items cs) (child a) (child b) \<or>
       t = cJSON_Object \<and>
         (\<forall>x \<in> set (child a). case member_named cs (cname x) (child b) of None \<Rightarrow> False | Some y \<Rightarrow> compare_items cs x y) \<and>
         (\<forall>y \<in> set (child b). case member_named cs (cname y) (child a) of None \<Rightarrow> False | Some x \<Rightarrow> compare_items cs y x)))"
  by pat_completeness auto
termination
  by (relation "measure (\<lambda>(_, a, b). size a + size b)")
    (auto dest!: child_smaller member_named_in)

declare compare_items.simps [simp del]

section \<open>The code computes it\<close>

text \<open>Strings that end, and objects whose members have names.\<close>

definition texts_ok :: "jmem \<Rightarrow> addr list \<Rightarrow> bool" where
  "texts_ok m as \<longleftrightarrow> (\<forall>a \<in> set as. \<forall>c. cells m a = Some c \<longrightarrow>
     (jvs c \<noteq> None \<longrightarrow> string_at (jvs c) m \<noteq> None) \<and> (jnm c \<noteq> None \<longrightarrow> string_at (jnm c) m \<noteq> None))"

fun members_named :: "cJSON \<Rightarrow> bool" where
  "members_named (Item ty vs vi vd nm cs) \<longleftrightarrow>
     (ty AND 0xFF = cJSON_Object \<longrightarrow> (\<forall>c \<in> set cs. cname c \<noteq> None)) \<and> (\<forall>c \<in> set cs. members_named c)"

definition comparable :: "jmem \<Rightarrow> jtree \<Rightarrow> bool" where
  "comparable m t \<longleftrightarrow> linked m t \<and> texts_ok m (tcells t) \<and> members_named (tval m t)"

lemma texts_sub: "texts_ok m as \<Longrightarrow> set bs \<subseteq> set as \<Longrightarrow> texts_ok m bs"
  unfolding texts_ok_def by blast

lemma comparable_kid:
  assumes "comparable m (Node a ts)" "t \<in> set ts"
  shows "comparable m t" "set (tcells t) \<subseteq> set (tcells (Node a ts))" "length (tcells t) < length (tcells (Node a ts))"
proof -
  show s: "set (tcells t) \<subseteq> set (tcells (Node a ts))" using assms(2) by auto
  have "texts_ok m (tcells t)" by (rule texts_sub [OF _ s]) (use assms(1) in \<open>simp only: comparable_def\<close>)
  then show "comparable m t" using assms by (auto simp: comparable_def)
  have "length (tcells t) \<le> sum_list (map (length \<circ> tcells) ts)" using member_le_sum_list [of "length (tcells t)" "map (length \<circ> tcells) ts"] assms(2) by auto
  then show "length (tcells t) < length (tcells (Node a ts))" by (simp add: length_concat comp_def)
qed

lemma tval_name: "linked m t \<Longrightarrow> cname (tval m t) = name_of m (root t)"
  by (cases t) (auto simp: name_of_def)

lemma find_tree:
  assumes "\<forall>t \<in> set ts. linked m t"
  shows "find (\<lambda>a. name_matches cs s (name_of m a)) (map root ts) = map_option root (find (\<lambda>t. name_matches cs s (cname (tval m t))) ts)"
    and "find (\<lambda>e. name_matches cs s (cname e)) (map (tval m) ts) = map_option (tval m) (find (\<lambda>t. name_matches cs s (cname (tval m t))) ts)"
  using assms by (induction ts) (auto simp: tval_name)

lemma lookup_tree:
  assumes u: "comparable m (Node b us)" and o: "\<forall>t \<in> set us. cname (tval m t) \<noteq> None"
    and nm: "nm \<noteq> None \<longrightarrow> string_at nm m \<noteq> None"
  shows "\<exists>r. get_object_item (Some b) nm cs m = Some (map_option root r) \<and>
    member_named cs (string_at nm m) (map (tval m) us) = map_option (tval m) r \<and> (\<forall>t. r = Some t \<longrightarrow> t \<in> set us)"
proof (cases nm)
  case None
  then show ?thesis by (intro exI [of _ None]) (simp add: get_object_item_def member_named_def string_at_def)
next
  case (Some n)
  then obtain s where s: "string_at nm m = Some s" using nm by auto
  have l: "\<forall>t \<in> set us. linked m t" "kids m b (map root us)" using u by (auto simp: comparable_def)
  have "names_ok m (map root us)"
  proof -
    have "set (map root us) \<subseteq> set (tcells (Node b us))" using root_in by fastforce
    then have "texts_ok m (map root us)" using u texts_sub unfolding comparable_def by blast
    then show ?thesis unfolding texts_ok_def names_ok_def by blast
  qed
  moreover have "\<forall>a \<in> set (map root us). name_of m a \<noteq> None" using o l(1) by (auto simp: tval_name)
  ultimately have "get_object_item (Some b) nm cs m = Some (find (\<lambda>a. name_matches cs s (name_of m a)) (map root us))"
    using get_object_item_kids [OF l(2) s] by blast
  then show ?thesis
    unfolding find_tree(1) [OF l(1)] using s find_tree(2) [OF l(1), of cs s]
    by (intro exI [of _ "find (\<lambda>t. name_matches cs s (cname (tval m t))) us"]) (auto simp: member_named_def find_Some_iff)
qed

lemma compare_elements_trees:
  assumes "\<And>t u. t \<in> set ts \<Longrightarrow> u \<in> set us \<Longrightarrow> cmp (Some (root t)) (Some (root u)) = Some (P (tval m t) (tval m u))"
    and "jseg (cells m) q (map root ts) None" "jseg (cells m) q' (map root us) None" "length ts < n"
  shows "compare_elements cmp n (first (map root ts) None) (first (map root us) None) m =
    Some (list_all2 P (map (tval m) ts) (map (tval m) us))"
  using assms
proof (induction n arbitrary: ts us q q')
  case (Suc n)
  show ?case
  proof (cases ts)
    case Nil
    then show ?thesis by (cases us) auto
  next
    case t: (Cons t ts')
    show ?thesis
    proof (cases us)
      case Nil
      then show ?thesis using t by simp
    next
      case u: (Cons u us')
      obtain c d where c: "cells m (root t) = Some c" "nxt c = first (map root ts') None" "jseg (cells m) (Some (root t)) (map root ts') None"
        and d: "cells m (root u) = Some d" "nxt d = first (map root us') None" "jseg (cells m) (Some (root u)) (map root us') None"
        using Suc.prems(2,3) t u by auto
      have "compare_elements cmp n (first (map root ts') None) (first (map root us') None) m =
          Some (list_all2 P (map (tval m) ts') (map (tval m) us'))"
        by (rule Suc.IH [OF _ c(3) d(3)]) (use Suc.prems t u in auto)
      then show ?thesis using Suc.prems(1) [of t u] t u c d by simp
    qed
  qed
qed simp

lemma compare_members_trees:
  assumes cmp: "\<And>t u. t \<in> set ts \<Longrightarrow> u \<in> set us \<Longrightarrow> cmp (Some (root t)) (Some (root u)) = Some (P (tval m t) (tval m u))"
    and u: "comparable m (Node b us)" "\<forall>u \<in> set us. cname (tval m u) \<noteq> None" and t: "\<forall>t \<in> set ts. comparable m t"
    and seg: "jseg (cells m) q (map root ts) None" "length ts < n"
  shows "compare_members cmp n (first (map root ts) None) (Some b) cs m =
    Some (\<forall>x \<in> set (map (tval m) ts). case member_named cs (cname x) (map (tval m) us) of None \<Rightarrow> False | Some y \<Rightarrow> P x y)"
  using cmp t seg
proof (induction n arbitrary: ts q)
  case (Suc n)
  show ?case
  proof (cases ts)
    case (Cons t ts')
    obtain c where c: "cells m (root t) = Some c" "nxt c = first (map root ts') None" "jseg (cells m) (Some (root t)) (map root ts') None"
      using Suc.prems(3) Cons by auto
    have ct: "comparable m t" using Suc.prems(2) Cons by simp
    then have "jnm c \<noteq> None \<longrightarrow> string_at (jnm c) m \<noteq> None" using c(1) root_in [of t] by (auto simp: comparable_def texts_ok_def)
    from lookup_tree [OF u this, of cs] obtain r where r: "get_object_item (Some b) (jnm c) cs m = Some (map_option root r)"
      "member_named cs (string_at (jnm c) m) (map (tval m) us) = map_option (tval m) r" "\<forall>t. r = Some t \<longrightarrow> t \<in> set us" by blast
    have nm: "cname (tval m t) = string_at (jnm c) m" using ct c(1) by (simp add: comparable_def tval_name name_of_def)
    have "compare_members cmp n (first (map root ts') None) (Some b) cs m =
        Some (\<forall>x \<in> set (map (tval m) ts'). case member_named cs (cname x) (map (tval m) us) of None \<Rightarrow> False | Some y \<Rightarrow> P x y)"
      by (rule Suc.IH [OF _ _ c(3)]) (use Suc.prems Cons in auto)
    then show ?thesis using Cons c r nm Suc.prems(1) [of t] by (cases r) auto
  qed simp
qed simp

lemma kids_count: "length ts < length (tcells (Node a ts))"
proof -
  have "\<forall>t \<in> set ts. 1 \<le> length (tcells t)"
  proof
    fix t assume "t \<in> set ts"
    show "1 \<le> length (tcells t)" by (cases t) simp
  qed
  then have "length ts \<le> sum_list (map (length \<circ> tcells) ts)" by (induction ts) fastforce+
  then show ?thesis by (simp add: length_concat comp_def)
qed

lemma compare_trees:
  assumes "length (tcells t) + length (tcells u) < n" "comparable m t" "comparable m u" "set (tcells t) \<inter> set (tcells u) = {}"
  shows "cJSON_Compare n (Some (root t)) (Some (root u)) cs m = Some (compare_items cs (tval m t) (tval m u))"
  using assms
proof (induction n arbitrary: t u)
  case (Suc n)
  obtain a ts b us where t: "t = Node a ts" and u: "u = Node b us" by (cases t, cases u)
  obtain c d where c: "cells m a = Some c" "chld c = first (map root ts) None" "jseg (cells m) (final None (map root ts)) (map root ts) None"
    and d: "cells m b = Some d" "chld d = first (map root us) None" "jseg (cells m) (final None (map root us)) (map root us) None"
    using Suc.prems(2,3) by (auto simp: comparable_def t u kids_def)
  let ?cmp = "\<lambda>p q. cJSON_Compare n p q cs m" and ?v = "tval m"
  have sub: "?cmp (Some (root x)) (Some (root y)) = Some (compare_items cs (?v x) (?v y))"
    "?cmp (Some (root y)) (Some (root x)) = Some (compare_items cs (?v y) (?v x))" if "x \<in> set ts" "y \<in> set us" for x y
  proof -
    note kx = comparable_kid [OF Suc.prems(2) [unfolded t] that(1)] and ky = comparable_kid [OF Suc.prems(3) [unfolded u] that(2)]
    have l: "length (tcells x) + length (tcells y) < n" "length (tcells y) + length (tcells x) < n"
      using kx(3) ky(3) Suc.prems(1) by (simp_all add: t u)
    have e: "set (tcells x) \<inter> set (tcells y) = {}" "set (tcells y) \<inter> set (tcells x) = {}"
      using kx(2) ky(2) Suc.prems(4) unfolding t u by blast+
    show "?cmp (Some (root x)) (Some (root y)) = Some (compare_items cs (?v x) (?v y))"
      by (rule Suc.IH [OF l(1) kx(1) ky(1) e(1)])
    show "?cmp (Some (root y)) (Some (root x)) = Some (compare_items cs (?v y) (?v x))"
      by (rule Suc.IH [OF l(2) ky(1) kx(1) e(2)])
  qed
  have ab: "a \<noteq> b" using Suc.prems(4) by (auto simp: t u)
  have n: "length ts < n" "length us < n" using kids_count [of ts a] kids_count [of us b] Suc.prems(1) by (simp_all only: t u)
  have arr: "compare_elements ?cmp n (chld c) (chld d) m = Some (list_all2 (compare_items cs) (map ?v ts) (map ?v us))"
    unfolding c(2) d(2) by (rule compare_elements_trees [OF _ c(3) d(3) n(1)]) (rule sub(1))
  have tx: "jvs c \<noteq> None \<longrightarrow> string_at (jvs c) m \<noteq> None" "jvs d \<noteq> None \<longrightarrow> string_at (jvs d) m \<noteq> None"
    using Suc.prems(2,3) c(1) d(1) by (auto simp: comparable_def texts_ok_def t u)
  have vs: "string_at None m = None" by (simp add: string_at_def)
  have vt: "?v t = Item (jty c) (string_at (jvs c) m) (jvi c) (jvd c) (string_at (jnm c) m) (map ?v ts)"
    and vu: "?v u = Item (jty d) (string_at (jvs d) m) (jvi d) (jvd d) (string_at (jnm d) m) (map ?v us)"
    using c(1) d(1) by (simp_all add: t u)
  have kt: "\<forall>x \<in> set ts. comparable m x" and ku: "\<forall>x \<in> set us. comparable m x"
    using comparable_kid(1) Suc.prems(2,3) unfolding t u by blast+
  let ?ob = "\<lambda>xs ys. \<forall>x \<in> set (map ?v xs). case member_named cs (cname x) (map ?v ys) of None \<Rightarrow> False | Some y \<Rightarrow> compare_items cs x y"
  have obj: "compare_members ?cmp n (chld c) (Some b) cs m = Some (?ob ts us)" "compare_members ?cmp n (chld d) (Some a) cs m = Some (?ob us ts)"
    if o: "jty c AND 0xFF = cJSON_Object" "jty d AND 0xFF = cJSON_Object"
  proof -
    have nt: "\<forall>x \<in> set ts. cname (?v x) \<noteq> None" and nu: "\<forall>x \<in> set us. cname (?v x) \<noteq> None"
      using Suc.prems(2,3) o vt vu unfolding comparable_def by auto
    show "compare_members ?cmp n (chld c) (Some b) cs m = Some (?ob ts us)"
      unfolding c(2) by (rule compare_members_trees [OF _ Suc.prems(3) [unfolded u] nu kt c(3) n(1)]) (rule sub(1))
    show "compare_members ?cmp n (chld d) (Some a) cs m = Some (?ob us ts)"
      unfolding d(2) by (rule compare_members_trees [OF _ Suc.prems(2) [unfolded t] nt ku d(3) n(2)]) (rule sub(2))
  qed
  let ?T = "jty c AND 0xFF" and ?U = "jty d AND 0xFF"
  note spec = compare_items.simps [of cs "Item (jty c) _ _ _ _ _" "Item (jty d) _ _ _ _ _"]
  consider (differ) "?T \<noteq> ?U" | (bad) "?T \<notin> {cJSON_False, cJSON_True, cJSON_NULL, cJSON_Number, cJSON_String, cJSON_Raw, cJSON_Array, cJSON_Object}"
    | (simple) "?T = ?U" "?T \<in> {cJSON_False, cJSON_True, cJSON_NULL}" | (number) "?U = cJSON_Number" "?T = cJSON_Number"
    | (string) "?T = ?U" "?T \<in> {cJSON_String, cJSON_Raw}" | (array) "?U = cJSON_Array" "?T = cJSON_Array"
    | (object) "?U = cJSON_Object" "?T = cJSON_Object" by (metis insertE insertI1 insertI2 singletonD)
  then show ?case
  proof cases
    case differ
    then show ?thesis unfolding vt vu spec using c(1) d(1) by (simp add: t u)
  next
    case bad
    then show ?thesis unfolding vt vu spec using c(1) d(1) by (simp add: t u Let_def)
  next
    case simple
    then have v: "?T \<in> {cJSON_False, cJSON_True, cJSON_NULL, cJSON_Number, cJSON_String, cJSON_Raw, cJSON_Array, cJSON_Object}" by auto
    have "cJSON_Compare (Suc n) (Some a) (Some b) cs m = Some True"
      using simple v c(1) d(1) by (simp add: Let_def del: insert_iff)
    then show ?thesis unfolding vt vu spec using simple by (simp add: t u Let_def del: insert_iff)
  next
    case number
    have k: "?T = ?U" "?T \<in> {cJSON_False, cJSON_True, cJSON_NULL, cJSON_Number, cJSON_String, cJSON_Raw, cJSON_Array, cJSON_Object}" "?T \<notin> {cJSON_False, cJSON_True, cJSON_NULL}" "?T \<notin> {cJSON_String, cJSON_Raw}" "?T \<noteq> cJSON_Array" "?T \<noteq> cJSON_Object"
      using number by (simp_all add: cJSON_types)
    have "cJSON_Compare (Suc n) (Some a) (Some b) cs m = Some (compare_double (jvd c) (jvd d))"
      using k c(1) d(1) ab number by (simp add: Let_def del: insert_iff)
    then show ?thesis unfolding vt vu spec using k number by (simp add: t u Let_def del: insert_iff)
  next
    case string
    then have k: "?T \<noteq> cJSON_Number" "?T \<noteq> cJSON_Array" "?T \<noteq> cJSON_Object" "?T \<notin> {cJSON_False, cJSON_True, cJSON_NULL}" by (auto simp: cJSON_types)
    have v: "?T \<in> {cJSON_False, cJSON_True, cJSON_NULL, cJSON_Number, cJSON_String, cJSON_Raw, cJSON_Array, cJSON_Object}" using string by auto
    have "cJSON_Compare (Suc n) (Some a) (Some b) cs m =
        (if jvs c = None \<or> jvs d = None then Some False
         else do { s1 \<leftarrow> string_at (jvs c) m; s2 \<leftarrow> string_at (jvs d) m; Some (s1 = s2) })"
      using string k v c(1) d(1) ab by (simp add: Let_def del: insert_iff)
    also have "\<dots> = Some (string_at (jvs c) m \<noteq> None \<and> string_at (jvs c) m = string_at (jvs d) m)"
      using tx vs by (cases "jvs c"; cases "jvs d") auto
    finally show ?thesis unfolding vt vu spec using string k by (simp add: t u Let_def del: insert_iff)
  next
    case array
    have k: "?T = ?U" "?T \<in> {cJSON_False, cJSON_True, cJSON_NULL, cJSON_Number, cJSON_String, cJSON_Raw, cJSON_Array, cJSON_Object}" "?T \<notin> {cJSON_False, cJSON_True, cJSON_NULL}" "?T \<notin> {cJSON_String, cJSON_Raw}" "?T \<noteq> cJSON_Number" "?T \<noteq> cJSON_Object"
      using array by (simp_all add: cJSON_types)
    have "cJSON_Compare (Suc n) (Some a) (Some b) cs m = Some (list_all2 (compare_items cs) (map ?v ts) (map ?v us))"
      using k c(1) d(1) ab array arr by (simp add: Let_def del: insert_iff)
    then show ?thesis unfolding vt vu spec using k array by (simp add: t u Let_def del: insert_iff)
  next
    case object
    have k: "?T = ?U" "?T \<in> {cJSON_False, cJSON_True, cJSON_NULL, cJSON_Number, cJSON_String, cJSON_Raw, cJSON_Array, cJSON_Object}" "?T \<notin> {cJSON_False, cJSON_True, cJSON_NULL}" "?T \<notin> {cJSON_String, cJSON_Raw}" "?T \<noteq> cJSON_Number" "?T \<noteq> cJSON_Array"
      using object by (simp_all add: cJSON_types)
    have "cJSON_Compare (Suc n) (Some a) (Some b) cs m = Some (?ob ts us \<and> ?ob us ts)"
      using k c(1) d(1) ab object obj by (simp add: Let_def del: insert_iff)
    then show ?thesis unfolding vt vu spec using k object by (simp add: t u Let_def del: insert_iff)
  qed
qed simp

section \<open>Equal items\<close>

lemma round_dbl_minus: "dbl_abs (round_dbl (- q)) = dbl_abs (round_dbl q)"
  by (auto simp: round_dbl_def Let_def abs_mult)

lemma round_dbl_diff: "dbl_abs (round_dbl (a - b)) = dbl_abs (round_dbl (b - a))"
  using round_dbl_minus [of "a - b"] by simp

lemma round_dbl_nonneg: "0 \<le> q \<Longrightarrow> dbl_le (Fin 0) (round_dbl q)"
proof -
  assume q: "0 \<le> q"
  have r: "0 \<le> round_half_even x" if "0 \<le> x" for x
    using that by (simp add: round_half_even_def Let_def)
  have u: "0 \<le> (pow_int 2 k :: rat)" for k by (simp add: pow_int_def)
  have "0 \<le> (of_int (round_half_even (\<bar>q\<bar> / pow_int 2 k)) :: rat)" for k
    unfolding of_int_0_le_iff by (rule r) (simp add: u)
  then show ?thesis using q u by (auto simp: round_dbl_def Let_def sgn_if)
qed

lemma compare_double_sym: "compare_double a b = compare_double b a"
proof (cases "\<exists>x y. a = Fin x \<and> b = Fin y")
  case True
  then obtain x y where "a = Fin x" "b = Fin y" by blast
  then show ?thesis using round_dbl_diff [of x y] by (auto simp: compare_double_def Let_def)
next
  case False
  then show ?thesis by (cases a; cases b) (auto simp: compare_double_def Let_def)
qed

lemma compare_double_refl: "compare_double (Fin q) (Fin q)"
  using round_dbl_nonneg [of "\<bar>q\<bar> * DBL_EPSILON"] by (simp add: compare_double_def Let_def round_dbl_def [of 0] DBL_EPSILON_def)

lemma compare_items_sym: "compare_items cs a b = compare_items cs b a"
proof (induction "size a + size b" arbitrary: a b rule: less_induct)
  case less
  have arr: "list_all2 (compare_items cs) (child a) (child b) = list_all2 (compare_items cs) (child b) (child a)"
  proof -
    have "compare_items cs x y = compare_items cs y x" if "x \<in> set (child a)" "y \<in> set (child b)" for x y
      using child_smaller [OF that(1)] child_smaller [OF that(2)] by (intro less.hyps) simp
    then have "list_all2 (compare_items cs) (child a) (child b) = list_all2 (\<lambda>x y. compare_items cs y x) (child a) (child b)"
      by (intro list.rel_cong refl)
    also have "\<dots> = list_all2 (compare_items cs) (child b) (child a)" by (auto simp: list_all2_conv_all_nth)
    finally show ?thesis .
  qed
  have str: "(valuestring a \<noteq> None \<and> valuestring a = valuestring b) = (valuestring b \<noteq> None \<and> valuestring b = valuestring a)" by metis
  show ?case
  proof (cases "ctype a AND 0xFF = ctype b AND 0xFF")
    case True
    show ?thesis
      unfolding compare_items.simps [of cs a b] compare_items.simps [of cs b a] Let_def True arr str
        compare_double_sym [of "valuedouble a" "valuedouble b"]
      by (simp only: conj_ac simp_thms)
  next
    case False
    then show ?thesis unfolding compare_items.simps [of cs a b] compare_items.simps [of cs b a] Let_def by simp
  qed
qed

text \<open>Items whose copies compare equal: valid types, finite numbers, strings where they belong, no name twice in an object.\<close>

definition key :: "bool \<Rightarrow> cJSON \<Rightarrow> int list" where
  "key cs e = (case cname e of None \<Rightarrow> [] | Some s \<Rightarrow> if cs then map (\<lambda>c. int (ord_c c)) s else map tolower s)"

fun copyable :: "bool \<Rightarrow> cJSON \<Rightarrow> bool" where
  "copyable cs (Item ty vs vi vd nm es) \<longleftrightarrow>
     ty AND 0xFF \<in> {cJSON_False, cJSON_True, cJSON_NULL, cJSON_Number, cJSON_String, cJSON_Raw, cJSON_Array, cJSON_Object} \<and>
     (ty AND 0xFF = cJSON_Number \<longrightarrow> (\<exists>q. vd = Fin q)) \<and> (ty AND 0xFF \<in> {cJSON_String, cJSON_Raw} \<longrightarrow> vs \<noteq> None) \<and>
     (ty AND 0xFF = cJSON_Object \<longrightarrow> (\<forall>e \<in> set es. cname e \<noteq> None) \<and> distinct (map (key cs) es)) \<and>
     (\<forall>e \<in> set es. copyable cs e)"

lemma ord_c_inj: "map (\<lambda>c. int (ord_c c)) s = map (\<lambda>c. int (ord_c c)) t \<longleftrightarrow> s = t"
proof -
  have "inj (\<lambda>c. int (ord_c c))" by (auto intro!: injI dest: char_eqI)
  then show ?thesis by (rule inj_map_eq_map)
qed

lemma name_matches_key: "cname x = Some s \<Longrightarrow> cname e \<noteq> None \<Longrightarrow> name_matches cs s (cname e) \<longleftrightarrow> key cs x = key cs e"
  by (auto simp: name_matches_def key_def ord_c_inj)

lemma member_named_self:
  assumes "x \<in> set es" "\<forall>e \<in> set es. cname e \<noteq> None" "distinct (map (key cs) es)"
  shows "member_named cs (cname x) es = Some x"
proof -
  obtain s where s: "cname x = Some s" using assms(1,2) by auto
  have "find (\<lambda>e. name_matches cs s (cname e)) es = find (\<lambda>e. key cs x = key cs e) es"
    using assms(2) name_matches_key [OF s] by (intro find_cong) auto
  moreover have "find (\<lambda>e. key cs x = key cs e) es = Some x"
    using assms(1,3)
  proof (induction es)
    case (Cons e es)
    then show ?case by (cases "x = e") (auto simp: image_iff)
  qed simp
  ultimately show ?thesis by (simp add: member_named_def s)
qed

lemma copyable_equal: "copyable cs v \<Longrightarrow> compare_items cs v v"
proof (induction v)
  case (Item ty vs vi vd nm es)
  have sub: "\<forall>e \<in> set es. compare_items cs e e" using Item by simp
  have arr: "list_all2 (compare_items cs) es es" using sub by (simp add: list.rel_refl_strong)
  have ob: "ty AND 0xFF = cJSON_Object \<Longrightarrow> \<forall>x \<in> set es. case member_named cs (cname x) es of None \<Rightarrow> False | Some y \<Rightarrow> compare_items cs x y"
    using member_named_self [of _ es cs] sub Item.prems by simp
  show ?case
    unfolding compare_items.simps [of cs "Item _ _ _ _ _ _"] using Item.prems arr ob by (auto simp: Let_def compare_double_refl)
qed

lemma copyable_named: "copyable cs v \<Longrightarrow> members_named v"
  by (induction v) auto

text \<open>An infinite number is unlike itself.\<close>

lemma compare_infinite: "\<not> compare_double (Inf s) (Inf s)"
  by (simp add: compare_double_def Let_def)


section \<open>Separate items in memory\<close>

text \<open>
  C21: two separate trees in memory, whose strings end and whose members have names, are compared by \<open>cJSON_Compare\<close>
  as their values are by \<open>compare_items\<close>, in either order of the arguments: the call returns with fuel for one call
  per cell, members are looked up by name (in any order), elements are compared in order, numbers up to the relative
  tolerance of \<open>compare_double\<close>.
\<close>

theorem compare_by_value:
  assumes "comparable m t" "comparable m u" "set (tcells t) \<inter> set (tcells u) = {}" "length (tcells t) + length (tcells u) < n"
  shows "cJSON_Compare n (Some (root t)) (Some (root u)) cs m = Some (compare_items cs (tval m t) (tval m u)) \<and>
    cJSON_Compare n (Some (root u)) (Some (root t)) cs m = Some (compare_items cs (tval m t) (tval m u))"
  using compare_trees [OF assms(4,1,2,3), of cs] compare_trees [of u t n m cs] compare_items_sym [of cs "tval m u"] assms
  by (simp add: add.commute Int_commute)

definition demo_pair :: jmem where
  "demo_pair = \<lparr>cells = [0 \<mapsto> zero_cell\<lparr>chld := Some 1, jty := cJSON_Object\<rparr>,
      1 \<mapsto> zero_cell\<lparr>nxt := Some 2, prv := Some 2, jty := cJSON_True, jnm := Some 10\<rparr>,
      2 \<mapsto> zero_cell\<lparr>prv := Some 1, jty := cJSON_String, jvs := Some 12, jnm := Some 11\<rparr>,
      3 \<mapsto> zero_cell\<lparr>chld := Some 4, jty := cJSON_Object\<rparr>,
      4 \<mapsto> zero_cell\<lparr>nxt := Some 5, prv := Some 5, jty := cJSON_String, jvs := Some 13, jnm := Some 14\<rparr>,
      5 \<mapsto> zero_cell\<lparr>prv := Some 4, jty := cJSON_True, jnm := Some 15\<rparr>],
    strs = [10 \<mapsto> ''a'' @ [NUL], 11 \<mapsto> ''b'' @ [NUL], 12 \<mapsto> ''x'' @ [NUL], 13 \<mapsto> ''x'' @ [NUL], 14 \<mapsto> ''B'' @ [NUL],
      15 \<mapsto> ''A'' @ [NUL]],
    asks = 16, grant = (\<lambda>_. True)\<rparr>"

lemma demo_strings: "string_at (Some 10) demo_pair = Some ''a''" "string_at (Some 11) demo_pair = Some ''b''"
  "string_at (Some 12) demo_pair = Some ''x''" "string_at (Some 13) demo_pair = Some ''x''"
  "string_at (Some 14) demo_pair = Some ''B''" "string_at (Some 15) demo_pair = Some ''A''" "string_at None demo_pair = None"
  by (simp_all add: string_at_def demo_pair_def c_string_def)

abbreviation (input) demo_left :: jtree where
  "demo_left \<equiv> Node 0 [Node 1 [], Node 2 []]"

abbreviation (input) demo_right :: jtree where
  "demo_right \<equiv> Node 3 [Node 4 [], Node 5 []]"

lemma demo_cells: "map (cells demo_pair) [0, 1, 2, 3, 4, 5] =
  [Some (zero_cell\<lparr>chld := Some 1, jty := cJSON_Object\<rparr>),
   Some (zero_cell\<lparr>nxt := Some 2, prv := Some 2, jty := cJSON_True, jnm := Some 10\<rparr>),
   Some (zero_cell\<lparr>prv := Some 1, jty := cJSON_String, jvs := Some 12, jnm := Some 11\<rparr>),
   Some (zero_cell\<lparr>chld := Some 4, jty := cJSON_Object\<rparr>),
   Some (zero_cell\<lparr>nxt := Some 5, prv := Some 5, jty := cJSON_String, jvs := Some 13, jnm := Some 14\<rparr>),
   Some (zero_cell\<lparr>prv := Some 4, jty := cJSON_True, jnm := Some 15\<rparr>)]"
  by (simp add: demo_pair_def)

lemma demo_values:
  "tval demo_pair demo_left = Item cJSON_Object None 0 (Fin 0) None
     [Item cJSON_True None 0 (Fin 0) (Some ''a'') [], Item cJSON_String (Some ''x'') 0 (Fin 0) (Some ''b'') []]"
  "tval demo_pair demo_right = Item cJSON_Object None 0 (Fin 0) None
     [Item cJSON_String (Some ''x'') 0 (Fin 0) (Some ''B'') [], Item cJSON_True None 0 (Fin 0) (Some ''A'') []]"
  using demo_cells by (simp_all add: demo_strings zero_cell_def)

lemma demo_comparable: "comparable demo_pair demo_left" "comparable demo_pair demo_right"
  using demo_cells unfolding comparable_def demo_values
  by (simp_all add: texts_ok_def demo_strings kids_def zero_cell_def final_def has_def cJSON_types)

theorem compare_by_value_witness:
  "cJSON_Compare 7 (Some 0) (Some 3) False demo_pair = Some True \<and> cJSON_Compare 7 (Some 3) (Some 0) True demo_pair = Some False"
proof -
  have d: "set (tcells demo_left) \<inter> set (tcells demo_right) = {}" "length (tcells demo_left) + length (tcells demo_right) < 7" by simp_all
  have "compare_items False (tval demo_pair demo_left) (tval demo_pair demo_right)"
    "\<not> compare_items True (tval demo_pair demo_left) (tval demo_pair demo_right)"
    unfolding demo_values
    by (simp_all add: compare_items.simps [of _ "Item _ _ _ _ _ _"] cJSON_types member_named_def name_matches_def tolower_def)
  then show ?thesis using compare_by_value [OF demo_comparable d, of False] compare_by_value [OF demo_comparable d, of True] by simp
qed

end
