(* ===== verification/Cjson_Duplicate.thy ===== *)
theory Cjson_Duplicate
  imports Cjson_Compare
begin

text \<open>
  \<open>cJSON_Duplicate\<close> of a whole item, when memory suffices: a new tree with the same value beside the old one, which
  \<open>cJSON_Compare\<close> takes for equal.
\<close>

section \<open>Memory that grows\<close>

definition extends :: "jmem \<Rightarrow> jmem \<Rightarrow> bool" where
  "extends m m' \<longleftrightarrow> grant m' = grant m \<and> asks m \<le> asks m' \<and> (\<forall>a. cells m a \<noteq> None \<longrightarrow> cells m' a = cells m a) \<and>
     (\<forall>z. strs m z \<noteq> None \<longrightarrow> strs m' z = strs m z)"

lemma extends_refl [simp]: "extends m m"
  by (simp add: extends_def)

lemma extends_trans: "extends m m' \<Longrightarrow> extends m' m'' \<Longrightarrow> extends m m''"
  unfolding extends_def by (metis order_trans)

lemma extends_new: "extends m0 m \<Longrightarrow> cells m0 w = None \<Longrightarrow> extends m0 (m\<lparr>cells := (cells m)(w \<mapsto> c)\<rparr>)"
  by (auto simp: extends_def)

lemma extends_string: "extends m m' \<Longrightarrow> string_at p m = Some s \<Longrightarrow> string_at p m' = Some s"
  by (rule kept_string) (auto simp: extends_def)

lemma extends_granted: "extends m m' \<Longrightarrow> granted m \<Longrightarrow> granted m'"
  by (simp add: extends_def granted_def)

lemma texts_readable: "texts_ok m as \<Longrightarrow> readable m as"
  unfolding texts_ok_def readable_def string_at_def by (metis bind.bind_lzero option.distinct(1) option.simps(5))

lemma texts_append: "texts_ok m (as @ bs) \<longleftrightarrow> texts_ok m as \<and> texts_ok m bs"
  unfolding texts_ok_def by (simp add: ball_Un)

lemma texts_cong:
  assumes "texts_ok m as" "\<forall>a \<in> set as. cells m' a = cells m a" "\<forall>z. strs m z \<noteq> None \<longrightarrow> strs m' z = strs m z"
  shows "texts_ok m' as"
  unfolding texts_ok_def
proof (intro ballI allI impI)
  fix a c assume a: "a \<in> set as" "cells m' a = Some c"
  then have "cells m a = Some c" using assms(2) by simp
  then have "(jvs c \<noteq> None \<longrightarrow> string_at (jvs c) m \<noteq> None) \<and> (jnm c \<noteq> None \<longrightarrow> string_at (jnm c) m \<noteq> None)"
    using assms(1) a(1) unfolding texts_ok_def by blast
  then show "(jvs c \<noteq> None \<longrightarrow> string_at (jvs c) m' \<noteq> None) \<and> (jnm c \<noteq> None \<longrightarrow> string_at (jnm c) m' \<noteq> None)"
    using kept_string [OF assms(3)] by (metis not_None_eq)
qed

text \<open>A forest with the values \<open>vs\<close>, whose cells and strings lie at addresses from \<open>lo\<close> up to \<open>hi\<close>.\<close>

definition resides :: "jmem \<Rightarrow> addr \<Rightarrow> addr \<Rightarrow> jtree list \<Rightarrow> cJSON list \<Rightarrow> bool" where
  "resides m lo hi us vs \<longleftrightarrow> owned m us \<and> texts_ok m (concat (map tcells us)) \<and> map (tval m) us = vs \<and>
     (\<forall>a \<in> set (concat (map tcells us)) \<union> set (strings_of m (concat (map tcells us))). lo \<le> a \<and> a < hi)"

lemma resides_nil [simp]: "resides m lo hi [] []"
  by (simp add: resides_def owned_def texts_ok_def)

lemma resides_same:
  assumes w: "resides m lo hi us vs" and c: "\<forall>a \<in> set (concat (map tcells us)). cells m' a = cells m a"
    and s: "\<forall>z. strs m z \<noteq> None \<longrightarrow> strs m' z = strs m z"
  shows "resides m' lo hi us vs"
proof -
  have o: "owned m us" and x: "texts_ok m (concat (map tcells us))" using w by (auto simp: resides_def)
  note r = texts_readable [OF x]
  have "owned m' us" by (rule owned_cong [OF c _ o]) (use s in auto)
  moreover have "texts_ok m' (concat (map tcells us))" by (rule texts_cong [OF x c s])
  moreover have "map (tval m') us = map (tval m) us" by (rule forest_tval [OF r s]) (use c in simp)
  ultimately show ?thesis using w strings_of_cong [OF c] unfolding resides_def by metis
qed

lemma resides_extends: "resides m lo hi us vs \<Longrightarrow> extends m m' \<Longrightarrow> resides m' lo hi us vs"
proof -
  assume w: "resides m lo hi us vs" and e: "extends m m'"
  have "cells m a \<noteq> None" if "a \<in> set (concat (map tcells us))" for a
    using w that linked_alloc by (auto simp: resides_def owned_def)
  then have c: "\<forall>a \<in> set (concat (map tcells us)). cells m' a = cells m a" using e unfolding extends_def by blast
  show ?thesis by (rule resides_same [OF w c]) (use e in \<open>simp add: extends_def\<close>)
qed

lemma resides_append:
  assumes u: "resides m lo mid us vs" and x: "resides m mid hi xs ys" and o: "lo \<le> mid" "mid \<le> hi"
  shows "resides m lo hi (us @ xs) (vs @ ys)"
proof -
  let ?A = "set (concat (map tcells us))" and ?B = "set (concat (map tcells xs))"
    and ?S = "set (strings_of m (concat (map tcells us)))" and ?T = "set (strings_of m (concat (map tcells xs)))"
  have b: "\<forall>a \<in> ?A \<union> ?S. lo \<le> a \<and> a < mid" "\<forall>a \<in> ?B \<union> ?T. mid \<le> a \<and> a < hi"
    and ow: "owned m us" "owned m xs" using u x unfolding resides_def by blast+
  have d: "?A \<inter> ?B = {}" "?S \<inter> ?T = {}" using b by (meson UnCI disjoint_iff leD)+
  then have "owned m (us @ xs)" using ow by (simp only: owned_append)
  moreover have "texts_ok m (concat (map tcells (us @ xs)))" using u x by (simp add: resides_def texts_append)
  moreover have "map (tval m) (us @ xs) = vs @ ys" using u x by (simp add: resides_def)
  moreover have "\<forall>a \<in> set (concat (map tcells (us @ xs))) \<union> set (strings_of m (concat (map tcells (us @ xs)))). lo \<le> a \<and> a < hi"
  proof
    fix a assume "a \<in> set (concat (map tcells (us @ xs))) \<union> set (strings_of m (concat (map tcells (us @ xs))))"
    then have "a \<in> ?A \<union> ?S \<or> a \<in> ?B \<union> ?T" by auto
    then show "lo \<le> a \<and> a < hi" using b o by (meson le_trans less_le_trans)
  qed
  ultimately show ?thesis unfolding resides_def by blast
qed

text \<open>Linking the roots of a forest to each other changes nothing below them.\<close>

lemma linked_outer:
  assumes l: "linked m t" "distinct (tcells t)" and c: "\<forall>a \<in> set (concat (map tcells (sub t))). cells m' a = cells m a"
    "map_option body (cells m' (root t)) = map_option body (cells m (root t))"
  shows "linked m' t"
proof -
  obtain a ts where t: "t = Node a ts" by (cases t)
  obtain ca where ca: "cells m a = Some ca" "\<not> has (jty ca) cJSON_IsReference" "kids m a (map root ts)" using l(1) by (auto simp: t)
  then obtain ca' where ca': "cells m' a = Some ca'" "body ca' = body ca" using c(2) by (auto simp: t)
  have sub: "linked m' u" if "u \<in> set ts" for u
    using l(1) that c(1) linked_cong [of u m' m] by (auto simp: t)
  have e: "\<forall>b \<in> set (map root ts). cells m' b = cells m b" using c(1) root_in by (force simp: t)
  have "jseg (cells m') (final None (map root ts)) (map root ts) None"
    using ca(3) unfolding jseg_cong [OF e] by (simp add: kids_def)
  then have "kids m' a (map root ts)" using ca ca' body_fields [OF ca'(2)] by (simp add: kids_def)
  then show ?thesis using sub ca ca' body_fields [OF ca'(2)] by (simp add: t)
qed

lemma resides_relink:
  assumes w: "resides m lo hi us vs" and s: "strs m' = strs m"
    and b: "\<forall>a \<in> set (concat (map tcells us)). map_option body (cells m' a) = map_option body (cells m a)"
    and c: "\<forall>a \<in> set (concat (map tcells us)). a \<notin> root ` set us \<longrightarrow> cells m' a = cells m a"
  shows "resides m' lo hi us vs"
proof -
  have o: "owned m us" and x: "texts_ok m (concat (map tcells us))" using w by (auto simp: resides_def)
  note r = texts_readable [OF x]
  have so: "strings_of m' (concat (map tcells us)) = strings_of m (concat (map tcells us))"
    unfolding strings_of_def
  proof (rule arg_cong [where f = concat], rule map_cong [OF refl])
    show "cell_strs (cells m' a) = cell_strs (cells m a)" if "a \<in> set (concat (map tcells us))" for a
      by (rule cell_strs_body) (rule bspec [OF b that])
  qed
  have l: "linked m' t" if t: "t \<in> set us" for t
  proof (rule linked_outer)
    show "linked m t" using o t by (simp add: owned_def)
    show "distinct (tcells t)" using o t by (auto simp: owned_def distinct_concat_iff)
    show "map_option body (cells m' (root t)) = map_option body (cells m (root t))" using b t root_in [of t] by auto
    show "\<forall>a \<in> set (concat (map tcells (sub t))). cells m' a = cells m a"
    proof
      fix a assume a: "a \<in> set (concat (map tcells (sub t)))"
      then have "a \<notin> root ` set us" using not_root_below [OF o t] by auto
      moreover have "a \<in> set (tcells t)" using a by (cases t) auto
      then have "a \<in> set (concat (map tcells us))" using t by auto
      ultimately show "cells m' a = cells m a" using c by blast
    qed
  qed
  have "owned m' us" using o l so s by (simp add: owned_def)
  moreover have "texts_ok m' (concat (map tcells us))"
    unfolding texts_ok_def
  proof (intro ballI allI impI)
    fix a k assume a: "a \<in> set (concat (map tcells us))" "cells m' a = Some k"
    then have "map_option body (cells m' a) = map_option body (cells m a)" using b by blast
    then obtain k0 where k0: "cells m a = Some k0" "body k = body k0" using a(2) by (cases "cells m a") auto
    have "string_at p m' = string_at p m" for p by (cases p) (simp_all add: string_at_def s)
    moreover have "(jvs k0 \<noteq> None \<longrightarrow> string_at (jvs k0) m \<noteq> None) \<and> (jnm k0 \<noteq> None \<longrightarrow> string_at (jnm k0) m \<noteq> None)"
      using x a(1) k0(1) unfolding texts_ok_def by blast
    ultimately show "(jvs k \<noteq> None \<longrightarrow> string_at (jvs k) m' \<noteq> None) \<and> (jnm k \<noteq> None \<longrightarrow> string_at (jnm k) m' \<noteq> None)"
      using body_fields [OF k0(2)] by simp
  qed
  moreover have "map (tval m') us = map (tval m) us" by (rule forest_tval [OF r _ b]) (simp add: s)
  ultimately show ?thesis using w so unfolding resides_def by metis
qed

section \<open>A copied node\<close>

lemma fresh_None: "fresh m \<Longrightarrow> cells m (asks m) = None" "fresh m \<Longrightarrow> strs m (asks m) = None"
  by (simp_all add: fresh_def)

lemma string_at_cells [simp]: "string_at p (m\<lparr>cells := h\<rparr>) = string_at p m" "string_at p (m\<lparr>asks := k\<rparr>) = string_at p m"
  by (cases p; simp add: string_at_def)+

text \<open>A copied string: the new pointer, NULL for NULL, to a block of its own.\<close>

lemma strdup_ok:
  assumes m: "fresh m" "granted m" and p: "p \<noteq> None \<longrightarrow> string_at p m \<noteq> None"
  shows "\<exists>q m'. cJSON_strdup p m = Some (q, m') \<and> (q = None \<longleftrightarrow> p = None) \<and> extends m m' \<and> fresh m' \<and> cells m' = cells m \<and>
    string_at q m' = string_at p m \<and> (\<forall>z. q = Some z \<longrightarrow> z = asks m \<and> asks m < asks m' \<and> strs m' z \<noteq> None)"
proof (cases p)
  case None
  then show ?thesis using m by (simp add: cJSON_strdup_def string_at_def)
next
  case (Some z)
  then obtain s where s: "string_at p m = Some s" using p by auto
  then have nn: "no_nul s" by (auto simp: string_at_def bind_Some_iff split: option.splits dest: c_string_no_nul)
  show ?thesis
    using m s nn Some fresh_None [OF m(1)]
    by (auto simp: cJSON_strdup_def granted_def extends_def fresh_def string_at_def)
qed

text \<open>The part of \<open>cJSON_Duplicate\<close> before the children are copied.\<close>

definition head_cell :: "jcell \<Rightarrow> ptr \<Rightarrow> ptr \<Rightarrow> jcell" where
  "head_cell c vs nm = zero_cell\<lparr>jty := jty c, jvs := vs, jvi := jvi c, jvd := jvd c, jnm := nm\<rparr>"

lemma head_strs: "cell_strs (Some (head_cell c vs nm)) = (case vs of None \<Rightarrow> [] | Some s \<Rightarrow> [s]) @
    (if has (jty c) cJSON_StringIsConst then [] else case nm of None \<Rightarrow> [] | Some s \<Rightarrow> [s])"
  by (simp add: cell_strs_def head_cell_def zero_cell_def)

definition copied_head :: "jmem \<Rightarrow> jcell \<Rightarrow> addr \<Rightarrow> jmem \<Rightarrow> bool" where
  "copied_head m c w m2 \<longleftrightarrow> (\<exists>vs nm. w = asks m \<and> extends m m2 \<and> fresh m2 \<and> granted m2 \<and> cells m2 w = Some (head_cell c vs nm) \<and>
     w < asks m2 \<and> string_at vs m2 = string_at (jvs c) m \<and> string_at nm m2 = string_at (jnm c) m \<and>
     distinct (cell_strs (cells m2 w)) \<and> (\<forall>z \<in> set (cell_strs (cells m2 w)). w < z \<and> z < asks m2) \<and>
     (\<forall>z. vs = Some z \<or> nm = Some z \<longrightarrow> strs m2 z \<noteq> None) \<and> (vs = None \<longleftrightarrow> jvs c = None) \<and> (nm = None \<longleftrightarrow> jnm c = None))"

lemma duplicate_head:
  assumes w0: "w = asks m" and m: "fresh m" "granted m" and c: "cells m a = Some c" "\<not> has (jty c) cJSON_IsReference"
    and s: "jvs c \<noteq> None \<longrightarrow> string_at (jvs c) m \<noteq> None" "jnm c \<noteq> None \<longrightarrow> string_at (jnm c) m \<noteq> None"
  shows "\<exists>m2. copied_head m c w m2 \<and>
    cJSON_Duplicate (Suc n) (Some a) True m = do {
      (ok, newchild, m) \<leftarrow> dup_children (\<lambda>p. cJSON_Duplicate n p True) n w (chld c) None m2;
      if \<not> ok then do { m \<leftarrow> cJSON_Delete (Some w) m; Some (None, m) }
      else do {
        k \<leftarrow> cells m w;
        m \<leftarrow> (if chld k \<noteq> None then edit (chld k) (\<lambda>c. c\<lparr>prv := newchild\<rparr>) m else Some m);
        Some (Some w, m) } }"
proof -
  let ?w = w
  let ?A = "m\<lparr>cells := (cells m)(?w \<mapsto> head_cell c None None), asks := ?w + 1\<rparr>"
  have w: "cells m w = None" "strs m w = None" using fresh_None [OF m(1)] w0 by auto
  have aw: "a \<noteq> ?w" using c(1) w(1) by auto
  have A: "fresh ?A" "granted ?A" "extends m ?A" "cells ?A ?w = Some (head_cell c None None)" "\<And>p. string_at p ?A = string_at p m"
    using m w w0 by (auto simp: fresh_def granted_def extends_def)
  obtain vs B where B: "cJSON_strdup (jvs c) ?A = Some (vs, B)" "vs = None \<longleftrightarrow> jvs c = None" "extends ?A B" "fresh B"
    "cells B = cells ?A" "string_at vs B = string_at (jvs c) m" "\<forall>z. vs = Some z \<longrightarrow> z = ?w + 1 \<and> ?w + 1 < asks B \<and> strs B z \<noteq> None"
    using strdup_ok [OF A(1,2), of "jvs c"] s(1) A(5) w0 by auto
  let ?B = "B\<lparr>cells := (cells B)(?w \<mapsto> head_cell c vs None)\<rparr>"
  have gB: "granted B" by (rule extends_granted [OF B(3) A(2)])
  have eB: "extends m B" by (rule extends_trans [OF A(3) B(3)])
  have lB: "?w < asks B" using B(3) by (simp add: extends_def)
  have fB: "fresh ?B" "granted ?B" "extends m ?B" "\<And>p. string_at p ?B = string_at p B"
    using B(4) gB lB extends_new [OF eB w(1)] by (auto simp: fresh_def granted_def)
  have nB: "string_at (jnm c) ?B = string_at (jnm c) m" 
  proof (cases "jnm c")
    case None
    then show ?thesis by (simp add: string_at_def)
  next
    case (Some z)
    then obtain x where "string_at (jnm c) m = Some x" using s(2) by auto
    then show ?thesis using extends_string [OF eB] fB(4) by metis
  qed
  let ?nm = "if has (jty c) cJSON_StringIsConst then Some (jnm c, ?B) else cJSON_strdup (jnm c) ?B"
  obtain nm C where C: "?nm = Some (nm, C)" "nm = None \<longleftrightarrow> jnm c = None" "extends ?B C" "fresh C" "cells C = cells ?B"
    "string_at nm C = string_at (jnm c) m"
    "\<forall>z. nm = Some z \<and> \<not> has (jty c) cJSON_StringIsConst \<longrightarrow> z = asks B \<and> asks B < asks C" "\<forall>z. nm = Some z \<longrightarrow> strs C z \<noteq> None"
  proof (cases "has (jty c) cJSON_StringIsConst")
    case True
    have "\<forall>z. jnm c = Some z \<longrightarrow> strs ?B z \<noteq> None" using s(2) nB by (auto simp: string_at_def bind_eq_Some_conv)
    then show ?thesis using that [of "jnm c" ?B] True fB nB by simp
  next
    case False
    obtain q C where D: "cJSON_strdup (jnm c) ?B = Some (q, C)" "q = None \<longleftrightarrow> jnm c = None" "extends ?B C" "fresh C" "cells C = cells ?B"
      "string_at q C = string_at (jnm c) ?B" "\<forall>z. q = Some z \<longrightarrow> z = asks ?B \<and> asks ?B < asks C \<and> strs C z \<noteq> None"
      using strdup_ok [OF fB(1,2), of "jnm c"] s(2) nB by auto
    show ?thesis by (rule that [of q C]) (use False D nB in auto)
  qed
  let ?C = "C\<lparr>cells := (cells C)(?w \<mapsto> head_cell c vs nm)\<rparr>"
  have eC: "extends m C" by (rule extends_trans [OF fB(3) C(3)])
  have lC: "asks B \<le> asks C" "granted C" using C(3) extends_granted [OF C(3) fB(2)] by (simp_all add: extends_def)
  have sC: "strs ?C = strs C" "asks ?C = asks C" "cells ?C ?w = Some (head_cell c vs nm)" "\<And>p. string_at p ?C = string_at p C"
    by simp_all
  have vC: "string_at vs C = string_at (jvs c) m"
  proof (cases vs)
    case None
    then show ?thesis using B(2) by (simp add: string_at_def)
  next
    case (Some z)
    then obtain x where "string_at (jvs c) m = Some x" using s(1) B(2) by auto
    then show ?thesis using extends_string [OF C(3), of vs x] B(6) fB(4) by simp
  qed
  have kept: "\<forall>z. vs = Some z \<longrightarrow> strs C z \<noteq> None" using B(7) C(3) by (auto simp: extends_def)
  have "copied_head m c ?w ?C"
    unfolding copied_head_def
  proof (rule exI [of _ vs], rule exI [of _ nm], intro conjI)
    show "extends m ?C" by (rule extends_new [OF eC w(1)])
    show "fresh ?C" using C(4) lB lC by (auto simp: fresh_def)
    show "granted ?C" using lC by (simp add: granted_def)
    show "?w < asks ?C" using lB lC by simp
    show "distinct (cell_strs (cells ?C ?w))" "\<forall>z \<in> set (cell_strs (cells ?C ?w)). ?w < z \<and> z < asks ?C"
      unfolding sC(2,3) head_strs using B(7) C(7) lC(1) lB
      by (cases vs; cases nm; cases "has (jty c) cJSON_StringIsConst"; simp)+
    show "\<forall>z. vs = Some z \<or> nm = Some z \<longrightarrow> strs ?C z \<noteq> None" using kept C(8) by auto
    show "w = asks m" by (rule w0)
    show "vs = None \<longleftrightarrow> jvs c = None" "nm = None \<longleftrightarrow> jnm c = None" by (rule B(2), rule C(2))
  qed (simp_all only: sC vC C(6))
  moreover have "cJSON_Duplicate (Suc n) (Some a) True m = do {
      (ok, newchild, m) \<leftarrow> dup_children (\<lambda>p. cJSON_Duplicate n p True) n ?w (chld c) None ?C;
      if \<not> ok then do { m \<leftarrow> cJSON_Delete (Some ?w) m; Some (None, m) }
      else do {
        k \<leftarrow> cells m ?w;
        m \<leftarrow> (if chld k \<noteq> None then edit (chld k) (\<lambda>c. c\<lparr>prv := newchild\<rparr>) m else Some m);
        Some (Some ?w, m) } }"
  proof -
    have h: "zero_cell\<lparr>jty := jty c, jvi := jvi c, jvd := jvd c\<rparr> = head_cell c None None"
      "(head_cell c None None)\<lparr>jvs := vs\<rparr> = head_cell c vs None" "(head_cell c vs None)\<lparr>jnm := nm\<rparr> = head_cell c vs nm"
      by (simp_all add: head_cell_def zero_cell_def)
    have new: "New_Item m = (Some ?w, m\<lparr>cells := (cells m)(?w \<mapsto> zero_cell), asks := ?w + 1\<rparr>)"
      using m(2) w0 by (simp add: New_Item_def granted_def)
    have e1: "edit (Some ?w) (\<lambda>k. k\<lparr>jty := clear (jty c) cJSON_IsReference, jvi := jvi c, jvd := jvd c\<rparr>)
        (m\<lparr>cells := (cells m)(?w \<mapsto> zero_cell), asks := ?w + 1\<rparr>) = Some ?A"
      by (simp add: clear_none [OF c(2)] h(1) edit_def update_order)
    have e2: "edit (Some ?w) (\<lambda>k. k\<lparr>jvs := vs\<rparr>) B = Some ?B" using B(5) by (simp add: h(2))
    have e3: "edit (Some ?w) (\<lambda>k. k\<lparr>jnm := nm\<rparr>) C = Some ?C" using C(5) by (simp add: h(3))
    have rd: "cells (m\<lparr>cells := (cells m)(?w \<mapsto> zero_cell), asks := ?w + 1\<rparr>) a = Some c" using aw c(1) by simp
    have n1: "\<not> (jvs c \<noteq> None \<and> vs = None)" and n2: "\<not> (jnm c \<noteq> None \<and> nm = None)" using B(2) C(2) by auto
    show ?thesis
      by (simp only: cJSON_Duplicate.simps new option.case prod.case rd e1 B(1) e2 n1 if_False C(1) e3 n2 bind.bind_lunit not_True_eq_False)
  qed
  ultimately show ?thesis by (intro exI [of _ ?C] conjI)
qed

section \<open>The children\<close>

definition source :: "jmem \<Rightarrow> jtree \<Rightarrow> bool" where
  "source m t \<longleftrightarrow> linked m t \<and> texts_ok m (tcells t)"

text \<open>While the children of \<open>w\<close> are copied: the copies \<open>us\<close>, linked, the first without a \<open>prev\<close>.\<close>

definition building :: "jmem \<Rightarrow> addr \<Rightarrow> addr \<Rightarrow> jtree list \<Rightarrow> cJSON list \<Rightarrow> bool" where
  "building m w lo us vs \<longleftrightarrow> (\<exists>c. cells m w = Some c \<and> chld c = first (map root us) None) \<and> jseg (cells m) None (map root us) None \<and>
     resides m lo (asks m) us vs \<and> w < lo \<and> lo \<le> asks m \<and> fresh m \<and> granted m"

definition framed :: "addr \<Rightarrow> addr \<Rightarrow> jmem \<Rightarrow> jmem \<Rightarrow> bool" where
  "framed w lo m m' \<longleftrightarrow> grant m' = grant m \<and> asks m \<le> asks m' \<and> (\<forall>z. strs m z \<noteq> None \<longrightarrow> strs m' z = strs m z) \<and>
     (\<forall>a. cells m a \<noteq> None \<longrightarrow> a < lo \<longrightarrow> a \<noteq> w \<longrightarrow> cells m' a = cells m a) \<and>
     (cells m w \<noteq> None \<longrightarrow> map_option (\<lambda>c. c\<lparr>chld := None\<rparr>) (cells m' w) = map_option (\<lambda>c. c\<lparr>chld := None\<rparr>) (cells m w))"

lemma framed_trans: "framed w lo m m' \<Longrightarrow> framed w lo m' m'' \<Longrightarrow> cells m w \<noteq> None \<Longrightarrow> cells m' w \<noteq> None \<Longrightarrow> framed w lo m m''"
  unfolding framed_def by (smt (verit) order_trans)

lemma extends_framed: "extends m m' \<Longrightarrow> framed w lo m m'"
  by (auto simp: extends_def framed_def)

lemma source_cong:
  assumes "source m t" "\<forall>a \<in> set (tcells t). cells m' a = cells m a" "\<forall>z. strs m z \<noteq> None \<longrightarrow> strs m' z = strs m z"
  shows "source m' t" "tval m' t = tval m t"
proof -
  show "source m' t" using assms linked_cong [OF assms(2)] texts_cong by (auto simp: source_def)
  show "tval m' t = tval m t"
    by (rule tval_cong) (use assms texts_readable in \<open>auto simp: source_def\<close>)
qed

lemma distinct_roots: "distinct (concat (map tcells us)) \<Longrightarrow> distinct (map root us)"
proof (induction us)
  case (Cons u us)
  have "root u \<noteq> root x" if x: "x \<in> set us" for x
  proof
    assume "root u = root x"
    then have "root u \<in> set (concat (map tcells us))" using x root_in [of x] by auto
    then show False using Cons.prems root_in [of u] by auto
  qed
  then have "root u \<notin> root ` set us" by blast
  then show ?case using Cons by simp
qed simp

lemma link_next:
  assumes b: "building m w lo us vs" and e: "extends m m1" "fresh m1" and u: "resides m1 (asks m) (asks m1) [u] [v]"
    "cells m1 (root u) = Some cu" "nxt cu = None" "prv cu = None"
  shows "\<exists>m2. (if final None (map root us) \<noteq> None then do {
           m \<leftarrow> edit (final None (map root us)) (\<lambda>c. c\<lparr>nxt := Some (root u)\<rparr>) m1;
           edit (Some (root u)) (\<lambda>c. c\<lparr>prv := final None (map root us)\<rparr>) m }
         else edit (Some w) (\<lambda>c. c\<lparr>chld := Some (root u)\<rparr>) m1) = Some m2 \<and>
    building m2 w lo (us @ [u]) (vs @ [v]) \<and> framed w lo m1 m2"
proof -
  let ?r = "root u"
  obtain cw where cw: "cells m w = Some cw" "chld cw = first (map root us) None" and seg: "jseg (cells m) None (map root us) None"
    and res: "resides m lo (asks m) us vs" and lo: "w < lo" "lo \<le> asks m" and fg: "granted m"
    using b by (auto simp: building_def)
  have cw1: "cells m1 w = Some cw" using e(1) cw(1) by (auto simp: extends_def)
  have al: "asks m \<le> asks m1" "granted m1" using e(1) extends_granted [OF e(1) fg] by (simp_all add: extends_def)
  have res1: "resides m1 lo (asks m1) (us @ [u]) (vs @ [v])"
    by (rule resides_append [OF resides_extends [OF res e(1)] u(1) lo(2) al(1)])
  have rng: "\<forall>a \<in> set (concat (map tcells (us @ [u]))). lo \<le> a" using res1 by (simp add: resides_def)
  have wn: "w \<notin> set (concat (map tcells (us @ [u])))" using rng lo(1) linorder_not_less by blast
  have ur: "asks m \<le> ?r" using u(1) root_in [of u] by (auto simp: resides_def)
  have usr: "a < asks m" if a: "a \<in> set (map root us)" for a
  proof -
    obtain x where x: "x \<in> set us" "a = root x" using a by auto
    then have "a \<in> set (concat (map tcells us))" using root_in [of x] by auto
    then show ?thesis using res unfolding resides_def by blast
  qed
  have rn: "?r \<notin> set (map root us)" using usr ur by force
  have seg1: "jseg (cells m1) None (map root us) None"
  proof -
    have "\<forall>a \<in> set (map root us). cells m1 a = cells m a"
      using jseg_alloc [OF seg] e(1) unfolding extends_def by (metis option.distinct(1))
    then show ?thesis using seg jseg_cong by blast
  qed
  have dr: "distinct (map root us)" by (rule distinct_roots) (use res in \<open>simp add: resides_def owned_def\<close>)
  show ?thesis
  proof (cases us rule: rev_cases)
    case Nil
    let ?m2 = "m1\<lparr>cells := (cells m1)(w \<mapsto> cw\<lparr>chld := Some ?r\<rparr>)\<rparr>"
    have "resides ?m2 lo (asks m1) (us @ [u]) (vs @ [v])"
      by (rule resides_same [OF res1]) (use wn in auto)
    moreover have "?r \<noteq> w" using ur lo by simp
    ultimately have "building ?m2 w lo (us @ [u]) (vs @ [v])"
      using Nil u lo al e(2) cw1 by (auto simp: building_def fresh_def granted_def)
    moreover have "framed w lo m1 ?m2" using cw1 by (auto simp: framed_def)
    ultimately show ?thesis using Nil cw1 by (intro exI [of _ ?m2]) simp
  next
    case (snoc us' x)
    let ?l = "root x"
    have lr: "?l \<noteq> ?r" using rn snoc by auto
    obtain cl where cl: "cells m1 ?l = Some cl" using jseg_alloc [OF seg1, of ?l] snoc by auto
    let ?h = "(cells m1)(?l \<mapsto> cl\<lparr>nxt := Some ?r\<rparr>)"
    let ?m2 = "m1\<lparr>cells := ?h(?r \<mapsto> cu\<lparr>prv := Some ?l\<rparr>)\<rparr>"
    have "jseg ?h None (map root us' @ [?l]) (Some ?r)"
      using jseg_set_nxt [of "cells m1" None "map root us'" ?l None cl "Some ?r"] seg1 dr cl snoc by simp
    then have "jseg (cells ?m2) None (map root us) (Some ?r)" using rn snoc by simp
    then have sg: "jseg (cells ?m2) None (map root (us @ [u])) None"
      using u(3) by (simp add: jseg_append) (simp add: snoc)
    have rs: "resides ?m2 lo (asks m1) (us @ [u]) (vs @ [v])"
    proof (rule resides_relink [OF res1])
      show "\<forall>a \<in> set (concat (map tcells (us @ [u]))). map_option body (cells ?m2 a) = map_option body (cells m1 a)"
        using cl u(2) lr by (auto simp: body_def)
      show "\<forall>a \<in> set (concat (map tcells (us @ [u]))). a \<notin> root ` set (us @ [u]) \<longrightarrow> cells ?m2 a = cells m1 a"
        using snoc by auto
    qed simp
    have lw: "?l \<noteq> w" "?r \<noteq> w" "lo \<le> ?l" "lo \<le> ?r"

    proof -
      have "?l \<in> set (concat (map tcells (us @ [u])))" "?r \<in> set (concat (map tcells (us @ [u])))"
        using root_in [of x] root_in [of u] snoc by auto
      then show "lo \<le> ?l" "lo \<le> ?r" using rng by blast+
      then show "?l \<noteq> w" "?r \<noteq> w" using lo by simp_all
    qed
    have "building ?m2 w lo (us @ [u]) (vs @ [v])"
      using sg rs lo al e(2) cw1 cw(2) lw cl u(2) snoc by (auto simp: building_def fresh_def granted_def)
    moreover have "framed w lo m1 ?m2" using cw1 lw by (auto simp: framed_def)
    ultimately show ?thesis using snoc cl u(2) lr by (intro exI [of _ ?m2]) simp
  qed
qed

text \<open>\<open>copied n t m\<close>: what a call that copies \<open>t\<close> does.\<close>

definition copied :: "nat \<Rightarrow> jtree \<Rightarrow> jmem \<Rightarrow> bool" where
  "copied n t m \<longleftrightarrow> (\<exists>m' u. cJSON_Duplicate n (Some (root t)) True m = Some (Some (root u), m') \<and> extends m m' \<and> fresh m' \<and>
     resides m' (asks m) (asks m') [u] [tval m t] \<and> (\<exists>c. cells m' (root u) = Some c \<and> nxt c = None \<and> prv c = None))"

lemma dup_children_ok:
  assumes IH: "\<And>k m. source m k \<Longrightarrow> length (tcells k) < n \<Longrightarrow> fresh m \<Longrightarrow> granted m \<Longrightarrow> copied n k m"
    and "\<forall>k \<in> set ks. source m k \<and> length (tcells k) < n" "jseg (cells m) q (map root ks) None"
      "\<forall>a \<in> set (concat (map tcells ks)). a < w" "building m w lo us vs" "length ks < r"
  shows "\<exists>m' us'. dup_children (\<lambda>p. cJSON_Duplicate n p True) r w (first (map root ks) None) (final None (map root us)) m =
      Some (True, final None (map root us'), m') \<and>
    building m' w lo us' (vs @ map (tval m) ks) \<and> framed w lo m m'"
  using assms(2-)
proof (induction ks arbitrary: m us vs r q)
  case Nil
  then show ?case by (cases r) (auto simp: framed_def)
next
  case (Cons k ks)
  obtain r' where r: "r = Suc r'" using Cons.prems(5) by (cases r) auto
  have fg: "fresh m" "granted m" "w < lo" "cells m w \<noteq> None" using Cons.prems(4) by (auto simp: building_def)
  have k: "source m k" "length (tcells k) < n" using Cons.prems(1) by simp_all
  obtain m1 u cu where u: "cJSON_Duplicate n (Some (root k)) True m = Some (Some (root u), m1)" "extends m m1" "fresh m1"
    "resides m1 (asks m) (asks m1) [u] [tval m k]" "cells m1 (root u) = Some cu" "nxt cu = None" "prv cu = None"
    using IH [OF k fg(1,2)] by (auto simp: copied_def)
  obtain m2 where m2: "(if final None (map root us) \<noteq> None then do {
           m \<leftarrow> edit (final None (map root us)) (\<lambda>c. c\<lparr>nxt := Some (root u)\<rparr>) m1;
           edit (Some (root u)) (\<lambda>c. c\<lparr>prv := final None (map root us)\<rparr>) m }
         else edit (Some w) (\<lambda>c. c\<lparr>chld := Some (root u)\<rparr>) m1) = Some m2"
    "building m2 w lo (us @ [u]) (vs @ [tval m k])" "framed w lo m1 m2"
    using link_next [OF Cons.prems(4) u(2,3,4,5,6,7)] by blast
  have ex: "cells m1 w \<noteq> None" "cells m2 w \<noteq> None" using u(2) fg(4) m2(2) by (auto simp: extends_def building_def)
  have f2: "framed w lo m m2" by (rule framed_trans [OF extends_framed [OF u(2)] m2(3) fg(4) ex(1)])
  have al: "cells m a \<noteq> None" if a: "a \<in> set (concat (map tcells (k # ks)))" for a
    using a Cons.prems(1) linked_alloc by (fastforce simp: source_def)
  have keep: "cells m2 a = cells m a" if a: "a \<in> set (concat (map tcells (k # ks)))" for a
  proof -
    have "a < w" using a Cons.prems(3) by blast
    then have "a < lo" "a \<noteq> w" using fg(3) by simp_all
    then show ?thesis using f2 al [OF a] unfolding framed_def by blast
  qed
  have st: "\<forall>z. strs m z \<noteq> None \<longrightarrow> strs m2 z = strs m z" using f2 by (simp add: framed_def)
  have sub: "\<forall>a \<in> set (tcells x). cells m2 a = cells m a" if "x \<in> set (k # ks)" for x using keep that by auto
  have src: "source m2 x" "tval m2 x = tval m x" if "x \<in> set ks" for x
    using source_cong [OF _ sub st] Cons.prems(1) that by simp_all
  obtain ck where ck: "cells m (root k) = Some ck" "nxt ck = first (map root ks) None" "jseg (cells m) (Some (root k)) (map root ks) None"
    using Cons.prems(2) by auto
  have ck2: "cells m2 (root k) = Some ck" using keep [of "root k"] root_in [of k] ck(1) by simp
  have sg: "jseg (cells m2) (Some (root k)) (map root ks) None"
  proof -
    have "\<forall>a \<in> set (map root ks). cells m2 a = cells m a" using keep root_in by fastforce
    then show ?thesis using ck(3) jseg_cong by blast
  qed
  have srcs: "\<forall>k \<in> set ks. source m2 k \<and> length (tcells k) < n" using src(1) Cons.prems(1) by simp
  have low: "\<forall>a \<in> set (concat (map tcells ks)). a < w" using Cons.prems(3) by simp
  have l: "length ks < r'" using Cons.prems(5) r by simp
  obtain m' us' where m': "dup_children (\<lambda>p. cJSON_Duplicate n p True) r' w (first (map root ks) None) (final None (map root (us @ [u]))) m2 =
      Some (True, final None (map root us'), m')"
    "building m' w lo us' ((vs @ [tval m k]) @ map (tval m2) ks)" "framed w lo m2 m'"
    using Cons.IH [OF srcs sg low m2(2) l] by blast
  have e: "map (tval m2) ks = map (tval m) ks" using src(2) by simp
  have "building m' w lo us' (vs @ map (tval m) (k # ks))"
    using m'(2) by (simp only: e list.map append_assoc append_Cons append_Nil)
  moreover have "dup_children (\<lambda>p. cJSON_Duplicate n p True) r w (first (map root (k # ks)) None) (final None (map root us)) m =
      Some (True, final None (map root us'), m')"
    using u(1) m2(1) ck2 ck(2) m'(1) by (simp add: r)
  moreover have "framed w lo m m'" by (rule framed_trans [OF f2 m'(3) fg(4) ex(2)])
  ultimately show ?case by blast
qed


lemma head_fields: "c'\<lparr>chld := None\<rparr> = (head_cell c vs nm)\<lparr>chld := None\<rparr> \<Longrightarrow>
    jty c' = jty c \<and> jvs c' = vs \<and> jvi c' = jvi c \<and> jvd c' = jvd c \<and> jnm c' = nm \<and> nxt c' = None \<and> prv c' = None"
  by (cases c') (simp add: head_cell_def zero_cell_def)

text \<open>The last step: the first copy gets its \<open>prev\<close>, and the new item owns its children.\<close>

lemma close_children:
  assumes b: "building m w lo us vs" and s: "\<exists>c. cells m w = Some c \<and> \<not> has (jty c) cJSON_IsReference \<and> distinct (cell_strs (Some c)) \<and>
      (\<forall>z \<in> set (cell_strs (Some c)). w \<le> z \<and> z < lo \<and> strs m z \<noteq> None) \<and> (\<forall>z. jvs c = Some z \<or> jnm c = Some z \<longrightarrow> strs m z \<noteq> None)"
  shows "\<exists>m'. (do { k \<leftarrow> cells m w;
        m \<leftarrow> (if chld k \<noteq> None then edit (chld k) (\<lambda>c. c\<lparr>prv := final None (map root us)\<rparr>) m else Some m);
        Some (Some w, m) }) = Some (Some w, m') \<and> framed w lo m m' \<and> fresh m' \<and> asks m' = asks m \<and> cells m' w = cells m w \<and> strs m' = strs m \<and>
    owned m' [Node w us] \<and> resides m' lo (asks m) us vs"
proof -
  obtain c where c: "cells m w = Some c" "chld c = first (map root us) None" "\<not> has (jty c) cJSON_IsReference"
    "distinct (cell_strs (Some c))" "\<forall>z \<in> set (cell_strs (Some c)). w \<le> z \<and> z < lo \<and> strs m z \<noteq> None"
    using b s by (auto simp: building_def)
  have seg: "jseg (cells m) None (map root us) None" and res: "resides m lo (asks m) us vs" and lo: "w < lo" "lo \<le> asks m" and f: "fresh m"
    using b by (auto simp: building_def)
  have rng: "\<forall>a \<in> set (concat (map tcells us)). lo \<le> a" "\<forall>a \<in> set (strings_of m (concat (map tcells us))). lo \<le> a"
    using res unfolding resides_def by blast+
  have dr: "distinct (map root us)" by (rule distinct_roots) (use res in \<open>simp add: resides_def owned_def\<close>)
  have rin: "root x \<in> set (concat (map tcells us))" if "x \<in> set us" for x using that root_in [of x] by auto
  obtain m' where m': "(if chld c \<noteq> None then edit (chld c) (\<lambda>c. c\<lparr>prv := final None (map root us)\<rparr>) m else Some m) = Some m'"
    "jseg (cells m') (final None (map root us)) (map root us) None" "strs m' = strs m" "asks m' = asks m" "grant m' = grant m"
    "\<forall>a. a \<notin> root ` set us \<longrightarrow> cells m' a = cells m a" "\<forall>a. map_option body (cells m' a) = map_option body (cells m a)"
  proof (cases us)
    case Nil
    then show ?thesis using that [of m] c(2) by simp
  next
    case (Cons x xs)
    then obtain k where k: "cells m (root x) = Some k" using seg by auto
    let ?m = "m\<lparr>cells := (cells m)(root x \<mapsto> k\<lparr>prv := final None (map root us)\<rparr>)\<rparr>"
    have "jseg (cells ?m) (final None (map root us)) (map root us) None"
      using jseg_set_prv [of "cells m" None "root x" "map root xs" None k] seg dr k Cons by simp
    then show ?thesis using that [of ?m] c(2) k Cons by (simp add: body_def)
  qed
  have wr: "w \<notin> root ` set us" "w \<notin> set (concat (map tcells us))" 
  proof -
    show "w \<notin> set (concat (map tcells us))" using rng(1) lo(1) linorder_not_less by blast
    then show "w \<notin> root ` set us" using rin by blast
  qed
  have cw: "cells m' w = Some c" using m'(6) wr c(1) by simp
  have res': "resides m' lo (asks m) us vs"
    by (rule resides_relink [OF res m'(3)]) (use m'(6,7) in auto)
  have so: "strings_of m' (concat (map tcells us)) = strings_of m (concat (map tcells us))"
    unfolding strings_of_def
  proof (rule arg_cong [where f = concat], rule map_cong [OF refl])
    show "cell_strs (cells m' a) = cell_strs (cells m a)" for a by (rule cell_strs_body) (rule spec [OF m'(7)])
  qed
  have kd: "kids m' w (map root us)" using cw c(2) m'(2) wr(1) dr by (simp add: kids_def)
  have disj: "set (cell_strs (Some c)) \<inter> set (strings_of m' (concat (map tcells us))) = {}"
    unfolding so using c(5) rng(2) by (meson disjoint_iff leD)
  have ow: "owned m' us" using res' by (simp add: resides_def)
  have "owned m' [Node w us]"
    unfolding owned_Cons cw using ow kd c(3-5) disj wr(2) m'(3) by (simp add: owned_def)
  moreover have "framed w lo m m'"
  proof -
    have "cells m' a = cells m a" if "a < lo" for a
    proof -
      have "a \<notin> set (concat (map tcells us))" using rng(1) that linorder_not_less by blast
      then have "a \<notin> root ` set us" using rin by blast
      then show ?thesis using m'(6) by blast
    qed
    then show ?thesis using m'(3-5) lo(1) by (simp add: framed_def)
  qed
  moreover have "fresh m'"
    using f m'(3,4,7) unfolding fresh_def by (metis map_option_is_None)
  ultimately show ?thesis using m' cw c(1) res' by (intro exI [of _ m']) simp
qed


section \<open>The whole item\<close>

lemma source_kid: "source m (Node a ts) \<Longrightarrow> t \<in> set ts \<Longrightarrow> source m t"
proof -
  assume s: "source m (Node a ts)" and t: "t \<in> set ts"
  have "set (tcells t) \<subseteq> set (tcells (Node a ts))" using t by auto
  moreover have "texts_ok m (tcells (Node a ts))" "linked m t" using s t unfolding source_def by auto
  ultimately show "source m t" unfolding source_def using texts_sub by blast
qed

lemma kid_cells: "t \<in> set ts \<Longrightarrow> length (tcells t) < length (tcells (Node a ts))"
proof -
  assume "t \<in> set ts"
  then have "length (tcells t) \<le> sum_list (map (length \<circ> tcells) ts)"
    using member_le_sum_list [of "length (tcells t)" "map (length \<circ> tcells) ts"] by auto
  then show ?thesis by (simp add: length_concat comp_def)
qed

lemma duplicate_tree:
  "source m t \<Longrightarrow> length (tcells t) < n \<Longrightarrow> fresh m \<Longrightarrow> granted m \<Longrightarrow> copied n t m"
proof (induction n arbitrary: t m)
  case (Suc n)
  obtain a ts where t: "t = Node a ts" by (cases t)
  obtain c where c: "cells m a = Some c" "\<not> has (jty c) cJSON_IsReference" "chld c = first (map root ts) None"
    "jseg (cells m) (final None (map root ts)) (map root ts) None"
    using Suc.prems(1) by (auto simp: source_def t kids_def)
  have tx: "jvs c \<noteq> None \<longrightarrow> string_at (jvs c) m \<noteq> None" "jnm c \<noteq> None \<longrightarrow> string_at (jnm c) m \<noteq> None"
    using Suc.prems(1) c(1) by (auto simp: source_def texts_ok_def t)
  define w where "w = asks m"
  obtain m2 where h: "copied_head m c w m2" and run: "cJSON_Duplicate (Suc n) (Some a) True m = do {
      (ok, newchild, m) \<leftarrow> dup_children (\<lambda>p. cJSON_Duplicate n p True) n w (chld c) None m2;
      if \<not> ok then do { m \<leftarrow> cJSON_Delete (Some w) m; Some (None, m) }
      else do {
        k \<leftarrow> cells m w;
        m \<leftarrow> (if chld k \<noteq> None then edit (chld k) (\<lambda>c. c\<lparr>prv := newchild\<rparr>) m else Some m);
        Some (Some w, m) } }"
    using duplicate_head [OF w_def Suc.prems(3,4) c(1,2) tx] by blast
  obtain vs nm where h2: "extends m m2" "fresh m2" "granted m2" "cells m2 w = Some (head_cell c vs nm)" "w < asks m2"
    "string_at vs m2 = string_at (jvs c) m" "string_at nm m2 = string_at (jnm c) m" "distinct (cell_strs (cells m2 w))"
    "\<forall>z \<in> set (cell_strs (cells m2 w)). w < z \<and> z < asks m2" "\<forall>z. vs = Some z \<or> nm = Some z \<longrightarrow> strs m2 z \<noteq> None"
    "vs = None \<longleftrightarrow> jvs c = None" "nm = None \<longleftrightarrow> jnm c = None"
    using h unfolding copied_head_def by (elim exE conjE) (rule that)
  have below: "a' < w" if "cells m a' \<noteq> None" for a' using Suc.prems(3) that unfolding fresh_def w_def by (meson not_le)
  have same: "cells m2 a' = cells m a'" if "a' \<in> set (tcells x)" "source m x" for a' x
    using linked_alloc [of m x a'] that h2(1) by (auto simp: source_def extends_def)
  have st: "\<forall>z. strs m z \<noteq> None \<longrightarrow> strs m2 z = strs m z" using h2(1) by (simp add: extends_def)
  have kid: "source m x" if "x \<in> set ts" for x using source_kid Suc.prems(1) that t by blast
  have src: "source m2 x" "tval m2 x = tval m x" "length (tcells x) < n" if "x \<in> set ts" for x
  proof -
    have "\<forall>a \<in> set (tcells x). cells m2 a = cells m a" using same kid [OF that] by blast
    then show "source m2 x" "tval m2 x = tval m x" using source_cong [OF kid [OF that] _ st] by blast+
    show "length (tcells x) < n" using kid_cells [OF that, of a] Suc.prems(2) t by simp
  qed
  have b2: "building m2 w (asks m2) [] []"
    using h2 by (auto simp: building_def head_cell_def zero_cell_def)
  have sg: "jseg (cells m2) (final None (map root ts)) (map root ts) None"
  proof -
    have "\<forall>a \<in> set (map root ts). cells m2 a = cells m a" using same kid root_in by fastforce
    then show ?thesis using c(4) jseg_cong by blast
  qed
  have low: "\<forall>a \<in> set (concat (map tcells ts)). a < w"
  proof
    fix a' assume "a' \<in> set (concat (map tcells ts))"
    then obtain x where x: "x \<in> set ts" "a' \<in> set (tcells x)" by auto
    then show "a' < w" using below linked_alloc [of m x a'] kid [of x] unfolding source_def by blast
  qed
  have len: "length ts < n" using kids_count [of ts a] Suc.prems(2) t by simp
  have srcs: "\<forall>k \<in> set ts. source m2 k \<and> length (tcells k) < n" using src by blast
  obtain m3 us where m3: "dup_children (\<lambda>p. cJSON_Duplicate n p True) n w (first (map root ts) None) None m2 =
      Some (True, final None (map root us), m3)" "building m3 w (asks m2) us (map (tval m2) ts)" "framed w (asks m2) m2 m3"
    using dup_children_ok [OF Suc.IH srcs sg low b2 len] by auto
  obtain k where k: "cells m3 w = Some k" "k\<lparr>chld := None\<rparr> = (head_cell c vs nm)\<lparr>chld := None\<rparr>"
    using m3(2,3) h2(4) by (auto simp: building_def framed_def)
  note kf = head_fields [OF k(2)]
  have cs: "cell_strs (Some k) = cell_strs (cells m2 w)" using kf h2(4) by (simp add: cell_strs_def head_cell_def zero_cell_def)
  have st3: "\<forall>z. strs m2 z \<noteq> None \<longrightarrow> strs m3 z = strs m2 z" using m3(3) by (simp add: framed_def)
  have al: "\<forall>z \<in> set (cell_strs (cells m2 w)). strs m2 z \<noteq> None"
    using h2(10) unfolding h2(4) head_strs by (auto split: option.splits if_splits)
  have pre: "\<exists>c. cells m3 w = Some c \<and> \<not> has (jty c) cJSON_IsReference \<and> distinct (cell_strs (Some c)) \<and>
      (\<forall>z \<in> set (cell_strs (Some c)). w \<le> z \<and> z < asks m2 \<and> strs m3 z \<noteq> None) \<and> (\<forall>z. jvs c = Some z \<or> jnm c = Some z \<longrightarrow> strs m3 z \<noteq> None)"
  proof (intro exI [of _ k] conjI)
    show "\<forall>z \<in> set (cell_strs (Some k)). w \<le> z \<and> z < asks m2 \<and> strs m3 z \<noteq> None"
      unfolding cs using h2(9) al st3 by (metis less_imp_le)
    show "\<forall>z. jvs k = Some z \<or> jnm k = Some z \<longrightarrow> strs m3 z \<noteq> None" using kf h2(10) st3 by metis
  qed (use k(1) kf c(2) cs h2(8) in simp_all)
  obtain m4 where m4: "(do { k \<leftarrow> cells m3 w;
        m \<leftarrow> (if chld k \<noteq> None then edit (chld k) (\<lambda>c. c\<lparr>prv := final None (map root us)\<rparr>) m3 else Some m3);
        Some (Some w, m) }) = Some (Some w, m4)" "framed w (asks m2) m3 m4" "fresh m4" "asks m4 = asks m3" "cells m4 w = cells m3 w"
    "strs m4 = strs m3" "owned m4 [Node w us]" "resides m4 (asks m2) (asks m3) us (map (tval m2) ts)"
    using close_children [OF m3(2) pre] by blast
  have "cJSON_Duplicate (Suc n) (Some a) True m = Some (Some w, m4)"
    unfolding run c(3) m3(1) using m4(1) by simp
  moreover have ext: "extends m m4"
    unfolding extends_def
  proof (intro conjI allI impI)
    show "grant m4 = grant m" "asks m \<le> asks m4" using h2(1) m3(3) m4(2) by (simp_all add: extends_def framed_def)
    show "strs m4 z = strs m z" if "strs m z \<noteq> None" for z using that st st3 m4(6) by metis
    fix x assume x: "cells m x \<noteq> None"
    have lt: "x < asks m2" "x \<noteq> w" using below [OF x] h2(5) by simp_all
    have "cells m2 x = cells m x" using h2(1) x by (simp add: extends_def)
    moreover from this have "cells m3 x = cells m2 x" using m3(3) x lt by (simp add: framed_def)
    ultimately show "cells m4 x = cells m x" using m4(2) x lt by (simp add: framed_def)
  qed
  moreover have "resides m4 (asks m) (asks m4) [Node w us] [tval m t]"
    unfolding resides_def
  proof (intro conjI)
    show "owned m4 [Node w us]" by (rule m4(7))
    have wk: "cells m4 w = Some k" using m4(5) k(1) by simp
    have str: "string_at p m4 = string_at p m2" if "\<forall>z. p = Some z \<longrightarrow> strs m2 z \<noteq> None" for p
      using that st3 m4(6) by (cases p) (simp_all add: string_at_def)
    have "texts_ok m4 (concat (map tcells us))" using m4(8) by (simp add: resides_def)
    moreover have "jvs k \<noteq> None \<longrightarrow> string_at (jvs k) m4 \<noteq> None" "jnm k \<noteq> None \<longrightarrow> string_at (jnm k) m4 \<noteq> None"
      using str [of vs] str [of nm] h2(6,7,10,11,12) tx kf by simp_all
    ultimately show "texts_ok m4 (concat (map tcells [Node w us]))" using wk by (auto simp: texts_ok_def)
    have "map (tval m4) us = map (tval m) ts" using m4(8) src(2) by (simp add: resides_def)
    moreover have "string_at vs m4 = string_at (jvs c) m" "string_at nm m4 = string_at (jnm c) m" using str h2(6,7,10) by simp_all
    ultimately show "map (tval m4) [Node w us] = [tval m t]" using wk c(1) kf by (simp add: t)
    have r: "\<forall>x \<in> set (concat (map tcells us)) \<union> set (strings_of m4 (concat (map tcells us))). asks m2 \<le> x \<and> x < asks m3"
      using m4(8) unfolding resides_def by blast
    have wr: "asks m \<le> w" "w < asks m2" "asks m2 \<le> asks m3" using h2(5) m3(3) by (simp_all add: w_def framed_def)
    have csr: "\<forall>z \<in> set (cell_strs (cells m4 w)). w < z \<and> z < asks m2" using h2(9) unfolding wk cs .
    show "\<forall>x \<in> set (concat (map tcells [Node w us])) \<union> set (strings_of m4 (concat (map tcells [Node w us]))). asks m \<le> x \<and> x < asks m4"
    proof
      fix x assume "x \<in> set (concat (map tcells [Node w us])) \<union> set (strings_of m4 (concat (map tcells [Node w us])))"
      then consider "x = w" | "x \<in> set (cell_strs (cells m4 w))" | "x \<in> set (concat (map tcells us)) \<union> set (strings_of m4 (concat (map tcells us)))" by auto
      then show "asks m \<le> x \<and> x < asks m4"
      proof cases
        case 1
        then show ?thesis using wr m4(4) by simp
      next
        case 2
        then have "w < x \<and> x < asks m2" using csr by blast
        then show ?thesis using wr m4(4) by simp
      next
        case 3
        then have "asks m2 \<le> x \<and> x < asks m3" using r by blast
        then show ?thesis using wr m4(4) by simp
      qed
    qed
  qed
  moreover have "nxt k = None" "prv k = None" using kf by simp_all
  ultimately show ?case
    unfolding copied_def t using m4(3,5) k(1) by (intro exI [of _ m4] exI [of _ "Node w us"]) (simp add: t)
qed simp


section \<open>The copy of a tree of a forest\<close>

lemma forest_resides:
  assumes F: "forest_ok m F vs" "texts_ok m (concat (map tcells F))"
  shows "resides m 0 (asks m) F vs"
proof -
  have o: "owned m F" and f: "fresh m" using F(1) by (simp_all add: forest_ok_def)
  have "a < asks m" if "a \<in> set (concat (map tcells F))" for a
  proof -
    have "cells m a \<noteq> None" using o that linked_alloc by (auto simp: owned_def)
    then show ?thesis using f unfolding fresh_def by (meson not_le)
  qed
  moreover have "a < asks m" if "a \<in> set (strings_of m (concat (map tcells F)))" for a
  proof -
    have "strs m a \<noteq> None" using o that by (simp add: owned_def)
    then show ?thesis using f unfolding fresh_def by (meson not_le)
  qed
  ultimately show ?thesis using F unfolding forest_ok_def resides_def by blast
qed

fun cell_count :: "cJSON \<Rightarrow> nat" where
  "cell_count (Item ty vs vi vd nm es) = Suc (sum_list (map cell_count es))"

lemma tcells_count: "linked m t \<Longrightarrow> length (tcells t) = cell_count (tval m t)"
proof (induction t)
  case (Node a ts)
  then have "\<forall>x \<in> set ts. length (tcells x) = cell_count (tval m x)" by auto
  then have "sum_list (map (\<lambda>x. length (tcells x)) ts) = sum_list (map (\<lambda>x. cell_count (tval m x)) ts)" by (simp cong: map_cong)
  then show ?case using Node.prems by (auto simp: length_concat comp_def)
qed

lemma copied_in_forest:
  assumes "forest_ok m F vs" "granted m" "texts_ok m (concat (map tcells F))" "t \<in> set F" "length (tcells t) < n"
  shows "\<exists>u m'. cJSON_Duplicate n (Some (root t)) True m = Some (Some (root u), m') \<and>
    forest_ok m' (F @ [u]) (vs @ [tval m t]) \<and> texts_ok m' (concat (map tcells (F @ [u])))"
proof -
  have F: "owned m F" "fresh m" "\<forall>t \<in> set F. root_ok m t" using assms(1) by (simp_all add: forest_ok_def)
  have tx: "texts_ok m (tcells t)" by (rule texts_sub [OF assms(3)]) (use assms(4) in auto)
  have l: "linked m t" using F(1) assms(4) by (simp add: owned_def)
  from duplicate_tree [of m t n] l assms(2,5) tx F(2) have "copied n t m" by (simp add: source_def)
  then obtain m' u where d: "cJSON_Duplicate n (Some (root t)) True m = Some (Some (root u), m')" and e: "extends m m'" "fresh m'"
    and r: "resides m' (asks m) (asks m') [u] [tval m t]" and u: "\<exists>c. cells m' (root u) = Some c \<and> nxt c = None \<and> prv c = None"
    unfolding copied_def by blast
  have a: "asks m \<le> asks m'" using e(1) by (simp add: extends_def)
  have all: "resides m' 0 (asks m') (F @ [u]) (vs @ [tval m t])"
    by (rule resides_append [OF resides_extends [OF forest_resides [OF assms(1,3)] e(1)] r]) (use a in simp_all)
  have alloc: "cells m x \<noteq> None" if "x \<in> set (tcells k)" "k \<in> set F" for x k
    using F(1) that linked_alloc by (auto simp: owned_def)
  have tall: "texts_ok m' (concat (map tcells (F @ [u])))" using all by (simp add: resides_def)
  have roots: "\<forall>k \<in> set (F @ [u]). root_ok m' k"
  proof
    fix k assume "k \<in> set (F @ [u])"
    then have "root k \<in> set (concat (map tcells (F @ [u])))" using root_in [of k] by auto
    moreover have "nxt c = None" if c: "cells m' (root k) = Some c" for c
    proof (cases "k = u")
      case False
      then have "k \<in> set F" using \<open>k \<in> set (F @ [u])\<close> by simp
      moreover from this have "cells m' (root k) = cells m (root k)" using alloc [OF root_in] e(1) by (simp add: extends_def)
      ultimately show ?thesis using F(3) c by (simp add: root_ok_def)
    qed (use u c in auto)
    ultimately show "root_ok m' k" using tall unfolding root_ok_def texts_ok_def by blast
  qed
  have forest: "forest_ok m' (F @ [u]) (vs @ [tval m t])" using all roots e(2) texts_readable [OF tall] by (simp add: forest_ok_def resides_def)
  show ?thesis using d forest tall by blast
qed

text \<open>
  C20: when memory suffices, \<open>cJSON_Duplicate\<close> with \<open>recurse\<close> copies a tree \<open>t\<close> of a forest: it returns with fuel for
  one call per cell, the result is a further tree \<open>u\<close> of the forest, with the value of \<open>t\<close> and cells and strings of
  its own, the other trees are as before, and \<open>cJSON_Compare\<close> takes \<open>u\<close> for equal to \<open>t\<close>, if the types are valid, the numbers
  are finite, strings are there where the type asks for them and no object has a name twice.
\<close>

theorem duplicate_compares_equal:
  assumes "forest_ok m F vs" "granted m" "texts_ok m (concat (map tcells F))" "t \<in> set F" "copyable cs (tval m t)" "length (tcells t) < n"
  shows "\<exists>u m'. cJSON_Duplicate n (Some (root t)) True m = Some (Some (root u), m') \<and>
    forest_ok m' (F @ [u]) (vs @ [tval m t]) \<and> cJSON_Compare (2 * n) (Some (root t)) (Some (root u)) cs m' = Some True"
proof -
  obtain u m' where d: "cJSON_Duplicate n (Some (root t)) True m = Some (Some (root u), m')"
    and forest: "forest_ok m' (F @ [u]) (vs @ [tval m t])" and tall: "texts_ok m' (concat (map tcells (F @ [u])))"
    using copied_in_forest [OF assms(1-4,6)] by blast
  have o: "owned m' (F @ [u])" "map (tval m') F = vs" "tval m' u = tval m t" "map (tval m) F = vs"
    using forest assms(1) by (auto simp: forest_ok_def dest: arg_cong [where f = length])
  then have vt: "tval m' t = tval m t" using assms(4) by (metis map_eq_conv)
  have lu: "linked m' u" "linked m' t" using o(1) assms(4) by (auto simp: owned_def)
  have tu: "texts_ok m' (tcells t)" "texts_ok m' (tcells u)"
    by (rule texts_sub [OF tall]; use assms(4) in auto)+
  have dj: "set (tcells t) \<inter> set (tcells u) = {}" using o(1) assms(4) by (auto simp: owned_def distinct_concat_iff)
  have c: "comparable m' t" "comparable m' u" using lu tu copyable_named [OF assms(5)] by (simp_all add: comparable_def o(3) vt)
  have "length (tcells u) = length (tcells t)" using tcells_count lu o(3) vt by metis
  then have "cJSON_Compare (2 * n) (Some (root t)) (Some (root u)) cs m' = Some (compare_items cs (tval m t) (tval m t))"
    using compare_trees [OF _ c dj, of "2 * n" cs] assms(6) unfolding o(3) vt by simp
  then show ?thesis using d forest copyable_equal [OF assms(5)] by auto
qed

lemma demo_pair_forest: "forest_ok demo_pair [demo_left, demo_right] [tval demo_pair demo_left, tval demo_pair demo_right]"
proof -
  have l: "linked demo_pair demo_left" "linked demo_pair demo_right" using demo_comparable by (simp_all add: comparable_def)
  have t: "texts_ok demo_pair (concat (map tcells [demo_left, demo_right]))"
    using demo_comparable by (simp add: comparable_def texts_ok_def)
  have f: "fresh demo_pair" by (auto simp: fresh_def demo_pair_def)
  have s: "strings_of demo_pair [0, 1, 2, 3, 4, 5] = [10, 12, 11, 13, 14, 15]"
    using demo_cells by (simp add: strings_of_def cell_strs_def zero_cell_def has_def cJSON_types)
  have "\<forall>z \<in> {10, 11, 12, 13, 14, 15}. strs demo_pair z \<noteq> None" by (simp add: demo_pair_def)
  then have "owned demo_pair [demo_left, demo_right]" using l s by (simp add: owned_def)
  moreover have "root_ok demo_pair demo_left" "root_ok demo_pair demo_right" using demo_cells by (simp_all add: root_ok_def zero_cell_def)
  ultimately show ?thesis using f texts_readable [OF t] by (simp add: forest_ok_def)
qed

theorem duplicate_compares_equal_witness:
  "\<exists>u m'. cJSON_Duplicate 4 (Some 0) True demo_pair = Some (Some (root u), m') \<and>
    forest_ok m' [demo_left, demo_right, u]
      [tval demo_pair demo_left, tval demo_pair demo_right, tval demo_pair demo_left] \<and>
    cJSON_Compare 8 (Some 0) (Some (root u)) False m' = Some True"
proof -
  have g: "granted demo_pair" by (simp add: granted_def demo_pair_def)
  have t: "texts_ok demo_pair (concat (map tcells [demo_left, demo_right]))"
    using demo_comparable by (simp add: comparable_def texts_ok_def)
  have c: "copyable False (tval demo_pair demo_left)"
    unfolding demo_values by (simp add: cJSON_types key_def tolower_def)
  show ?thesis using duplicate_compares_equal [OF demo_pair_forest g t _ c, of 4] by simp
qed

end
