(* ===== verification/Simulation.thy ===== *)
theory Simulation
  imports Prelude
begin

text \<open>
  Machines that react to activities of their surroundings, and when one carries out another: a run takes the activities
  in their order, whatever the order is, and \<open>forward_simulation\<close> is the interface between a machine of the code (steps
  that may go wrong) and an abstract machine (steps that cannot).
\<close>

primrec run :: "('e \<Rightarrow> 's \<Rightarrow> 's option) \<Rightarrow> 'e list \<Rightarrow> 's \<Rightarrow> 's option" where
  "run step [] s = Some s"
| "run step (e # es) s = do { s \<leftarrow> step e s; run step es s }"

text \<open>Every activity is one that the state allows in which it happens. (A step that goes wrong is nothing to rely on.)\<close>

primrec admitted :: "('e \<Rightarrow> 's \<Rightarrow> 's option) \<Rightarrow> ('e \<Rightarrow> 's \<Rightarrow> bool) \<Rightarrow> 'e list \<Rightarrow> 's \<Rightarrow> bool" where
  "admitted step allowed [] s = True"
| "admitted step allowed (e # es) s =
     (allowed e s \<and> (case step e s of None \<Rightarrow> True | Some s' \<Rightarrow> admitted step allowed es s'))"

lemma run_append: "run step (es @ fs) s = do { s \<leftarrow> run step es s; run step fs s }"
  by (induction es arbitrary: s) (auto split: bind_split)

locale forward_simulation =
  fixes step :: "'e \<Rightarrow> 's \<Rightarrow> 's option"
    and allowed :: "'e \<Rightarrow> 's \<Rightarrow> bool"
    and spec :: "'e \<Rightarrow> 'a \<Rightarrow> 'a"
    and sim :: "'s \<Rightarrow> 'a \<Rightarrow> bool"
  assumes simulate: "sim s a \<Longrightarrow> allowed e s \<Longrightarrow> \<exists>s'. step e s = Some s' \<and> sim s' (spec e a)"
begin

lemma run_simulates:
  assumes "sim s a" "admitted step allowed es s"
  shows "\<exists>s'. run step es s = Some s' \<and> sim s' (fold spec es a)"
  using assms
proof (induction es arbitrary: s a)
  case (Cons e es)
  obtain s1 where s1: "step e s = Some s1" "sim s1 (spec e a)" using simulate [OF Cons.prems(1)] Cons.prems(2) by auto
  show ?case using Cons.IH [OF s1(2)] Cons.prems(2) s1(1) by simp
qed simp

end

end
