(* ===== verification/Dns_Message.thy ===== *)
theory Dns_Message
  imports Prelude
begin

text \<open>
  The message of the DNS resolver: \<open>PraseMessage\<close> of \<open>dns_client.c\<close>, which is one \<open>sscanf\<close> call with a fixed
  format, and \<open>get_pid_name\<close>. Writing past the end of a caller's buffer, and a decimal number that does
  not fit an \<open>int\<close> (which C leaves undefined), are \<open>None\<close>.
\<close>

section \<open>\<open>sscanf\<close>\<close>

text \<open>The directives the format uses: literal text, \<open>%[^c]\<close> and \<open>%d\<close>; and what they store.\<close>

datatype directive = Literal string | Until char | Decimal

datatype field = Chars string | Number int

datatype 'a match = Match 'a string | Mismatch | End_of_input

definition isspace :: "char \<Rightarrow> bool" where
  "isspace c \<longleftrightarrow> ord_c c = 32 \<or> 9 \<le> ord_c c \<and> ord_c c \<le> 13"

fun match_literal :: "string \<Rightarrow> string \<Rightarrow> unit match" where
  "match_literal [] s = Match () s"
| "match_literal (c # t) [] = End_of_input"
| "match_literal (c # t) (d # s) = (if c = d then match_literal t s else Mismatch)"

definition match_until :: "char \<Rightarrow> string \<Rightarrow> string match" where
  "match_until c s =
     (if s = [] then End_of_input
      else let f = takeWhile (\<lambda>d. d \<noteq> c) s in
        if f = [] then Mismatch else Match f (dropWhile (\<lambda>d. d \<noteq> c) s))"

definition signed_digits :: "string \<Rightarrow> bool \<times> string" where
  "signed_digits s =
     (case s of c # r \<Rightarrow> if c = CHR ''-'' then (True, r) else if c = CHR ''+'' then (False, r) else (False, s)
      | [] \<Rightarrow> (False, s))"

definition match_decimal :: "string \<Rightarrow> int match option" where
  "match_decimal s =
     (let s = dropWhile isspace s in
      if s = [] then Some End_of_input
      else let (neg, u) = signed_digits s; ds = takeWhile is_digit u;
               v = (if neg then - int (dec_val ds) else int (dec_val ds)) in
        if ds = [] then Some Mismatch
        else if v < - (2 ^ 31) \<or> 2 ^ 31 \<le> v then None
        else Some (Match v (dropWhile is_digit u)))"

text \<open>The count of stored fields, or \<open>EOF\<close> when the input ends before the first; and the fields.\<close>

definition scan_end :: "bool \<Rightarrow> field list \<Rightarrow> int \<times> field list" where
  "scan_end eof got = (if eof \<and> got = [] then - 1 else int (length got), got)"

fun sscanf :: "string \<Rightarrow> directive list \<Rightarrow> field list \<Rightarrow> (int \<times> field list) option" where
  "sscanf s [] got = Some (scan_end False got)"
| "sscanf s (Literal t # ds) got =
     (case match_literal t s of Match _ r \<Rightarrow> sscanf r ds got | m \<Rightarrow> Some (scan_end (m = End_of_input) got))"
| "sscanf s (Until c # ds) got =
     (case match_until c s of Match f r \<Rightarrow> sscanf r ds (got @ [Chars f]) | m \<Rightarrow> Some (scan_end (m = End_of_input) got))"
| "sscanf s (Decimal # ds) got = do {
     m \<leftarrow> match_decimal s;
     case m of Match v r \<Rightarrow> sscanf r ds (got @ [Number v]) | m \<Rightarrow> Some (scan_end (m = End_of_input) got) }"

section \<open>\<open>PraseMessage\<close>\<close>

record dns_message =
  dnsRet :: string
  domain :: string
  uid :: int
  pid :: int

definition dns_format :: "directive list" where
  "dns_format = [Literal ''DnsRet:'', Until CHR '','', Literal '',domain:'', Until CHR '','', Literal '',UID:'',
     Decimal, Literal '',PID:'', Decimal, Literal '';'']"

text \<open>A text with its terminator in a buffer of \<open>n\<close> characters.\<close>

definition fits :: "nat \<Rightarrow> string \<Rightarrow> string option" where
  "fits n s = (if length s < n then Some s else None)"

fun store_fields :: "nat \<Rightarrow> nat \<Rightarrow> field list \<Rightarrow> dns_message \<Rightarrow> dns_message option" where
  "store_fields n1 n2 [] m = Some m"
| "store_fields n1 n2 [Chars a] m = do { a \<leftarrow> fits n1 a; Some (m\<lparr>dnsRet := a\<rparr>) }"
| "store_fields n1 n2 [Chars a, Chars b] m = do {
     a \<leftarrow> fits n1 a; b \<leftarrow> fits n2 b; Some (m\<lparr>dnsRet := a, domain := b\<rparr>) }"
| "store_fields n1 n2 [Chars a, Chars b, Number u] m = do {
     a \<leftarrow> fits n1 a; b \<leftarrow> fits n2 b; Some (m\<lparr>dnsRet := a, domain := b, uid := u\<rparr>) }"
| "store_fields n1 n2 [Chars a, Chars b, Number u, Number p] m = do {
     a \<leftarrow> fits n1 a; b \<leftarrow> fits n2 b; Some (m\<lparr>dnsRet := a, domain := b, uid := u, pid := p\<rparr>) }"
| "store_fields n1 n2 _ m = None"

text \<open>\<open>n1\<close> and \<open>n2\<close> are the sizes of the buffers the caller passes, \<open>m\<close> what its variables hold before.\<close>

definition PraseMessage :: "nat \<Rightarrow> nat \<Rightarrow> string \<Rightarrow> dns_message \<Rightarrow> (int \<times> dns_message) option" where
  "PraseMessage n1 n2 message m = do {
     (result, fs) \<leftarrow> sscanf message dns_format [];
     m \<leftarrow> store_fields n1 n2 fs m;
     Some (if result \<noteq> 4 then 1 else 0, m) }"

section \<open>\<open>get_pid_name\<close>\<close>

text \<open>
  \<open>proc\<close> gives the contents of a readable file, \<open>alloc\<close> whether the block of 256 bytes is granted. The
  result is the C string in the block: the first argument of the command line, or a part of it.
\<close>

definition get_pid_name :: "(string \<Rightarrow> string option) \<Rightarrow> bool \<Rightarrow> int \<Rightarrow> string option" where
  "get_pid_name proc alloc p =
     (let pid_path = take 63 (''/proc/'' @ show_int p @ ''/cmdline'') in
      case proc pid_path of
        None \<Rightarrow> None
      | Some bytes \<Rightarrow>
          if \<not> alloc then None
          else let pid_name = take 255 bytes in
            if length pid_name < 1 then None else c_string (pid_name @ [NUL]))"


section \<open>Reading what the resolver writes\<close>

lemma match_literal_prefix [simp]: "match_literal t (t @ s) = Match () s"
  by (induction t) auto

lemma match_literal_sound: "match_literal t s = Match u r \<Longrightarrow> s = t @ r"
  by (induction t s rule: match_literal.induct) (auto split: if_splits)

definition comma_free :: "string \<Rightarrow> bool" where
  "comma_free s \<longleftrightarrow> CHR '','' \<notin> set s"

lemma match_until_field:
  assumes "comma_free f" "f \<noteq> []" "s \<noteq> [] \<and> hd s = CHR '',''"
  shows "match_until CHR '','' (f @ s) = Match f s"
proof -
  have "\<forall>d \<in> set f. d \<noteq> CHR '',''" using assms(1) by (auto simp: comma_free_def)
  from takeWhile_append_stop [OF this, of s] dropWhile_append_stop [OF this, of s] assms(3)
  have "takeWhile (\<lambda>d. d \<noteq> CHR '','') (f @ s) = f" "dropWhile (\<lambda>d. d \<noteq> CHR '','') (f @ s) = s" by auto
  then show ?thesis using assms(2) by (simp add: match_until_def)
qed

lemma match_until_sound:
  assumes "match_until c s = Match f r"
  shows "s = f @ r \<and> f \<noteq> [] \<and> c \<notin> set f"
  using assms by (auto simp: match_until_def Let_def split: if_splits dest: set_takeWhileD)

lemma digit_not_space: "is_digit c \<Longrightarrow> \<not> isspace c"
  by (auto simp: is_digit_def isspace_def)

lemma digit_unsigned: "is_digit c \<Longrightarrow> c \<noteq> CHR ''-'' \<and> c \<noteq> CHR ''+''"
  by (auto simp: is_digit_def)

lemma match_decimal_show:
  assumes "- (2 ^ 31) \<le> v" "v < 2 ^ 31" "rest = [] \<or> \<not> is_digit (hd rest)"
  shows "match_decimal (show_int v @ rest) = Some (Match v rest)"
proof -
  define n where "n = nat \<bar>v\<bar>"
  have ds: "\<forall>c \<in> set (show_nat n). is_digit c" using show_nat_digits by blast
  obtain c r where cr: "show_nat n = c # r" by (cases "show_nat n") auto
  have c: "is_digit c" using ds cr by simp
  have tw: "takeWhile is_digit (show_nat n @ rest) = show_nat n" "dropWhile is_digit (show_nat n @ rest) = rest"
    using takeWhile_append_stop [OF ds assms(3)] dropWhile_append_stop [OF ds assms(3)] by auto
  have sp: "\<not> isspace CHR ''-''" by (simp add: isspace_def)
  show ?thesis
  proof (cases "v < 0")
    case True
    then have "show_int v = CHR ''-'' # show_nat n" by (simp add: show_int_def n_def)
    moreover have "- int n = v" using True by (simp add: n_def)
    ultimately show ?thesis using tw sp assms(1,2) by (simp add: match_decimal_def signed_digits_def)
  next
    case False
    then have "show_int v = show_nat n" by (simp add: show_int_def n_def)
    moreover have "int n = v" using False by (simp add: n_def)
    moreover have "dropWhile isspace (show_nat n @ rest) = show_nat n @ rest" "signed_digits (show_nat n @ rest) = (False, show_nat n @ rest)"
      using digit_not_space [OF c] digit_unsigned [OF c] by (simp_all add: cr signed_digits_def)
    ultimately show ?thesis using tw assms(1,2) by (simp add: match_decimal_def)
  qed
qed

text \<open>The message with the fields of \<open>m\<close>, as the comment in \<open>dns_client.c\<close> shows it.\<close>

definition message_text :: "dns_message \<Rightarrow> string" where
  "message_text m = ''DnsRet:'' @ dnsRet m @ '',domain:'' @ domain m @ '',UID:'' @ show_int (uid m) @
     '',PID:'' @ show_int (pid m)"

definition message_ok :: "dns_message \<Rightarrow> bool" where
  "message_ok m \<longleftrightarrow> comma_free (dnsRet m) \<and> comma_free (domain m) \<and> dnsRet m \<noteq> [] \<and> domain m \<noteq> [] \<and>
     - (2 ^ 31) \<le> uid m \<and> uid m < 2 ^ 31 \<and> - (2 ^ 31) \<le> pid m \<and> pid m < 2 ^ 31"

lemma scan_literal: "sscanf (t @ s) (Literal t # ds) got = sscanf s ds got"
  by simp

lemma scan_until:
  "comma_free f \<Longrightarrow> f \<noteq> [] \<Longrightarrow> s \<noteq> [] \<and> hd s = CHR '','' \<Longrightarrow>
     sscanf (f @ s) (Until CHR '','' # ds) got = sscanf s ds (got @ [Chars f])"
  by (simp add: match_until_field)

lemma scan_decimal:
  "- (2 ^ 31) \<le> v \<Longrightarrow> v < 2 ^ 31 \<Longrightarrow> s = [] \<or> \<not> is_digit (hd s) \<Longrightarrow>
     sscanf (show_int v @ s) (Decimal # ds) got = sscanf s ds (got @ [Number v])"
  by (simp add: match_decimal_show)

lemma sscanf_message:
  assumes "message_ok m" "rest = [] \<or> \<not> is_digit (hd rest)"
  shows "sscanf (message_text m @ rest) dns_format [] =
    Some (4, [Chars (dnsRet m), Chars (domain m), Number (uid m), Number (pid m)])"
proof -
  note m = assms(1) [unfolded message_ok_def]
  have u: "sscanf (dnsRet m @ '',domain:'' @ s) (Until CHR '','' # ds) got = sscanf ('',domain:'' @ s) ds (got @ [Chars (dnsRet m)])"
    "sscanf (domain m @ '',UID:'' @ s) (Until CHR '','' # ds) got = sscanf ('',UID:'' @ s) ds (got @ [Chars (domain m)])"
    "sscanf (show_int (uid m) @ '',PID:'' @ s) (Decimal # ds) got = sscanf ('',PID:'' @ s) ds (got @ [Number (uid m)])"
    "sscanf (show_int (pid m) @ rest) (Decimal # ds) got = sscanf rest ds (got @ [Number (pid m)])" for s ds got
    by (rule scan_until scan_decimal; use m assms(2) in \<open>simp add: is_digit_def\<close>)+
  show ?thesis
    unfolding message_text_def dns_format_def append_assoc scan_literal u
    by (simp add: scan_end_def split: match.split)
qed

section \<open>Properties\<close>

text \<open>
  C28: \<open>PraseMessage\<close> reads back what the resolver's message format writes: the result, the domain, the
  user and process identifiers, negative ones included, whatever follows the last number, for fields
  that fit the caller's buffers.
\<close>

theorem PraseMessage_reads_back:
  assumes "message_ok m" "length (dnsRet m) < n1" "length (domain m) < n2" "rest = [] \<or> \<not> is_digit (hd rest)"
  shows "PraseMessage n1 n2 (message_text m @ rest) m0 = Some (0,
    m0\<lparr>dnsRet := dnsRet m, domain := domain m, uid := uid m, pid := pid m\<rparr>)"
  using assms by (simp add: PraseMessage_def sscanf_message fits_def)

theorem PraseMessage_reads_back_witness:
  "PraseMessage 64 128 (message_text \<lparr>dnsRet = ''success'', domain = ''a.cn'', uid = - 1, pid = 2147483647\<rparr> @ '';8.8.8.8;'')
     \<lparr>dnsRet = [], domain = [], uid = 0, pid = 0\<rparr> =
   Some (0, \<lparr>dnsRet = ''success'', domain = ''a.cn'', uid = - 1, pid = 2147483647\<rparr>)"
  by (subst PraseMessage_reads_back) (simp_all add: message_ok_def comma_free_def is_digit_def)


text \<open>
  C40: \<open>PraseMessage\<close> on other messages: what does not start with \<open>DnsRet:\<close> is refused with 1 (not the -1 of
  the comment) and nothing is stored; a result or a domain that is too long for its buffer is written
  past its end, since the format has no field widths.
\<close>

theorem PraseMessage_errors:
  assumes "message_ok m" "rest = [] \<or> \<not> is_digit (hd rest)"
  shows "((\<forall>s. message \<noteq> ''DnsRet:'' @ s) \<longrightarrow> PraseMessage n1 n2 message m0 = Some (1, m0)) \<and>
    (n1 \<le> length (dnsRet m) \<or> n2 \<le> length (domain m) \<longrightarrow> PraseMessage n1 n2 (message_text m @ rest) m0 = None)"
proof (intro conjI impI)
  assume "\<forall>s. message \<noteq> ''DnsRet:'' @ s"
  then have no: "match_literal ''DnsRet:'' message \<noteq> Match u r" for u r
    using match_literal_sound [of "''DnsRet:''" message u r] by blast
  have "\<exists>k. sscanf message dns_format [] = Some (k, []) \<and> k < 1"
    using no by (cases "match_literal ''DnsRet:'' message") (auto simp: dns_format_def scan_end_def)
  then show "PraseMessage n1 n2 message m0 = Some (1, m0)" by (auto simp: PraseMessage_def)
qed (use assms in \<open>auto simp: PraseMessage_def sscanf_message fits_def bind_eq_None_conv\<close>)

theorem PraseMessage_errors_witness:
  "PraseMessage 64 128 ''DnsRsp:failed'' \<lparr>dnsRet = [], domain = [], uid = 0, pid = 0\<rparr> =
     Some (1, \<lparr>dnsRet = [], domain = [], uid = 0, pid = 0\<rparr>) \<and>
   PraseMessage 64 128 (message_text \<lparr>dnsRet = replicate 64 CHR ''x'', domain = ''a.cn'', uid = 0, pid = 1\<rparr> @ [])
     \<lparr>dnsRet = [], domain = [], uid = 0, pid = 0\<rparr> = None"
  using PraseMessage_errors [of "\<lparr>dnsRet = replicate 64 CHR ''x'', domain = ''a.cn'', uid = 0, pid = 1\<rparr>" "[]"
      "''DnsRsp:failed''" 64 128 "\<lparr>dnsRet = [], domain = [], uid = 0, pid = 0\<rparr>"]
  by (simp add: message_ok_def comma_free_def)

end
