(* ===== verification/Firewall.thy ===== *)
theory Firewall
  imports Dns_Message
begin

text \<open>
  The firewall daemon (\<open>binder_client.cpp\<close>) and the service it talks to (\<open>oemListener.cpp\<close>): the command
  line, the connection to the service, the configuration file and its rules, the text handed to
  \<open>iptables-restore\<close>, and the registry of listeners.
\<close>

section \<open>The configuration file\<close>

text \<open>\<open>fgets\<close> into an array of \<open>n\<close> characters: what it stores, and the input after it.\<close>

fun take_line :: "nat \<Rightarrow> string \<Rightarrow> string \<times> string" where
  "take_line 0 s = ([], s)"
| "take_line (Suc k) [] = ([], [])"
| "take_line (Suc k) (c # s) =
     (if c = CHR 0x0A then ([c], s) else let (l, r) = take_line k s in (c # l, r))"

definition fgets :: "nat \<Rightarrow> string \<Rightarrow> (string \<times> string) option" where
  "fgets n s = (if s = [] then None else Some (take_line (n - 1) s))"

text \<open>
  The daemon's surroundings: the state of the rule service, and the messages given to \<open>log_write\<close>.
  \<open>set_rules s v4v6 type rules\<close> is the call of \<open>set_iptables_rules\<close> in service state \<open>s\<close>, with the text it
  returns (empty when the call does not get through).
\<close>

record 's fw_state =
  svc :: 's
  logged :: "string list"

type_synonym 's service = "'s \<Rightarrow> int \<Rightarrow> int \<Rightarrow> string \<Rightarrow> string \<times> 's"

text \<open>The \<open>do\<close>-loop that applies one rule, from its body on, with \<open>retryCount\<close>.\<close>

function rule_loop :: "'s service \<Rightarrow> int \<Rightarrow> string \<Rightarrow> nat \<Rightarrow> 's fw_state \<Rightarrow> 's fw_state" where
  "rule_loop set_rules ty tmp retryCount st =
     (let (res, s) = set_rules (svc st) 0 ty tmp; st = st\<lparr>svc := s\<rparr> in
      if \<not> strstr tmp ''-D'' then
        if strstr res ''ERROR'' then
          let retryCount = retryCount + 1;
              st = (if retryCount = 3
                then st\<lparr>logged := logged st @ [''rules:'' @ tmp @ '' Failed Reason:'' @ res]\<rparr> else st) in
          if retryCount < 3 then rule_loop set_rules ty tmp (retryCount + 1) st else st
        else st
      else st)"
  by pat_completeness auto
termination by (relation "measure (\<lambda>(_, _, _, n, _). 3 - n)") auto

declare rule_loop.simps [simp del]

text \<open>
  What is left of a line as the rule: its last character is overwritten, and all but one of the rest
  copied. An empty string is written before its start; a string of one character makes \<open>memcpy\<close> copy
  the largest \<open>size_t\<close>.
\<close>

definition cut_line :: "string \<Rightarrow> string option" where
  "cut_line line =
     (if line = [] then None
      else let line = butlast line in if line = [] then None else Some (butlast line))"

lemma take_line_shorter: "take_line k s = (l, r) \<Longrightarrow> 0 < k \<Longrightarrow> s \<noteq> [] \<Longrightarrow> length r < length s"
proof (induction k s arbitrary: l r rule: take_line.induct)
  case (3 k c s)
  show ?case
  proof (cases "k = 0 \<or> s = []")
    case True
    then show ?thesis using 3 by (cases k; cases s) (auto split: if_splits)
  next
    case False
    then show ?thesis using 3 by (fastforce split: if_splits prod.splits)
  qed
qed simp_all

function fw_lines :: "'s service \<Rightarrow> string \<Rightarrow> int \<Rightarrow> 's fw_state \<Rightarrow> 's fw_state option" where
  "fw_lines set_rules input ty st =
     (case fgets 1024 input of
        None \<Rightarrow> Some st
      | Some (buf, input) \<Rightarrow>
          (let line = takeWhile (\<lambda>c. c \<noteq> NUL) buf in
           if strstr line ''mangle'' then fw_lines set_rules input 2 st
           else if strstr line ''filter'' then fw_lines set_rules input 0 st
           else if strstr line ''nat'' then fw_lines set_rules input 1 st
           else do {
             tmp \<leftarrow> cut_line line;
             fw_lines set_rules input ty (rule_loop set_rules ty tmp 0 st) }))"
  by pat_completeness auto
termination
  by (relation "measure (\<lambda>(_, s, _, _). length s)")
    (auto simp: fgets_def split: if_splits dest: take_line_shorter)

declare fw_lines.simps [simp del]

text \<open>\<open>fs\<close> gives the contents of a readable file; \<open>err\<close> is the text of \<open>errno\<close> when there is none.\<close>

definition read_file_line ::
  "(string \<Rightarrow> string option) \<Rightarrow> string \<Rightarrow> 's service \<Rightarrow> string \<Rightarrow> 's fw_state \<Rightarrow> 's fw_state option" where
  "read_file_line fs err set_rules path st =
     (case fs path of
        None \<Rightarrow> Some (st\<lparr>logged := logged st @ [''Failed to open file: '' @ path @ '', error: '' @ err @ '' '']\<rparr>)
      | Some input \<Rightarrow> fw_lines set_rules input 0 st)"

definition firewall_thread ::
  "(string \<Rightarrow> string option) \<Rightarrow> string \<Rightarrow> 's service \<Rightarrow> string option \<Rightarrow> 's fw_state \<Rightarrow> 's fw_state option" where
  "firewall_thread fs err set_rules config_path st =
     (case config_path of None \<Rightarrow> Some st | Some path \<Rightarrow> read_file_line fs err set_rules path st)"


section \<open>The command line\<close>

text \<open>\<open>exit\<close> with a code is \<open>Inl\<close>. \<open>region\<close> is a \<open>char\<close>; \<open>atoi\<close> of a number beyond \<open>int\<close> is undefined.\<close>

record settings =
  config_path :: "string option"
  db_path :: "string option"
  log_path :: "string option"
  region :: byte

definition no_settings :: settings where
  "no_settings = \<lparr>config_path = None, db_path = None, log_path = None, region = 0\<rparr>"

definition atoi :: "string \<Rightarrow> int option" where
  "atoi s = do { m \<leftarrow> match_decimal s; Some (case m of Match v _ \<Rightarrow> v | _ \<Rightarrow> 0) }"

fun prase_args :: "string list \<Rightarrow> settings \<Rightarrow> (int + settings) option" where
  "prase_args [] c = Some (Inr c)"
| "prase_args [a] c = Some (Inl (if a = ''-h'' then 0 else 1))"
| "prase_args (a # v # rest) c =
     (if a = ''-c'' then prase_args rest (c\<lparr>config_path := Some v\<rparr>)
      else if a = ''-d'' then prase_args rest (c\<lparr>db_path := Some v\<rparr>)
      else if a = ''-l'' then prase_args rest (c\<lparr>log_path := Some v\<rparr>)
      else if a = ''-r'' then do { i \<leftarrow> atoi v; prase_args rest (c\<lparr>region := of_int i\<rparr>) }
      else Some (Inl (if a = ''-h'' then 0 else 1)))"

definition PraseCommandLine :: "string list \<Rightarrow> settings \<Rightarrow> (int + settings) option" where
  "PraseCommandLine argv c =
     (if length argv < 4 then Some (Inl 1)
      else do {
        r \<leftarrow> prase_args (tl argv) c;
        Some (case r of
          Inl code \<Rightarrow> Inl code
        | Inr c \<Rightarrow> if config_path c = None \<or> db_path c = None \<or> log_path c = None then Inl 1 else Inr c) })"

section \<open>The connection to the service\<close>

text \<open>
  One attempt to connect: what \<open>getService\<close> finds, what the casts and \<open>getOemNetd\<close> give. The two
  interfaces are globals, which an earlier attempt may have set.
\<close>

record ('n, 'o) interfaces =
  mNetd :: "'n option"
  oemNetd :: "'o option"

record ('b, 'n, 'o) netd_env =
  getService :: "'b option"
  cast_netd :: "'b \<Rightarrow> 'n option"
  getOemNetd :: "'n \<Rightarrow> 'b option option"  \<comment> \<open>\<open>None\<close>: a status that is not ok\<close>
  cast_oem :: "'b option \<Rightarrow> 'o option"

definition NetdBinderInit :: "('b, 'n, 'o) netd_env \<Rightarrow> ('n, 'o) interfaces \<Rightarrow> int \<times> ('n, 'o) interfaces" where
  "NetdBinderInit env g =
     (let g = (case getService env of None \<Rightarrow> g | Some b \<Rightarrow> g\<lparr>mNetd := cast_netd env b\<rparr>) in
      case mNetd g of
        None \<Rightarrow> (- 1, g)
      | Some n \<Rightarrow>
          (case getOemNetd env n of
             None \<Rightarrow> (- 1, g)
           | Some b \<Rightarrow>
               let g = g\<lparr>oemNetd := cast_oem env b\<rparr> in
               if oemNetd g = None then (- 1, g) else (0, g)))"

text \<open>The loop of \<open>main\<close>: attempt \<open>i\<close> meets \<open>env i\<close>. The result counts the failed attempts before.\<close>

partial_function (option) connect ::
  "(nat \<Rightarrow> ('b, 'n, 'o) netd_env) \<Rightarrow> nat \<Rightarrow> ('n, 'o) interfaces \<Rightarrow> (nat \<times> ('n, 'o) interfaces) option" where
  "connect env i g =
     (case NetdBinderInit (env i) g of (ret, g) \<Rightarrow> if ret \<noteq> 0 then connect env (i + 1) g else Some (i, g))"

section \<open>The service\<close>

text \<open>
  \<open>exec target command s\<close> is \<open>execIptablesRestore\<close>: its return code and the state after it.

  \<open>fmt header rules\<close> is what \<open>stringPrintf\<close> makes of the format, the header and the rules. The header is passed as a
  \<open>std::string\<close> object where \<open>%s\<close> reads a \<open>char *\<close>: C++ does not define what happens, so that nothing is supposed of \<open>fmt\<close>. It
  is a parameter, with \<open>None\<close> when the call does not return (the process of the service dies). The conversions of the rules to
  \<open>String16\<close> and back belong to it too. \<open>intended_format\<close> is what the format is meant to give.
\<close>

type_synonym 's restore = "string \<Rightarrow> string \<Rightarrow> 's \<Rightarrow> int \<times> 's"

type_synonym restore_format = "string \<Rightarrow> string \<Rightarrow> string option"

definition set_iptables_rule :: "restore_format \<Rightarrow> 's restore \<Rightarrow> int \<Rightarrow> int \<Rightarrow> string \<Rightarrow> 's \<Rightarrow> (string \<times> 's) option" where
  "set_iptables_rule fmt exec v4v6 ty rules s =
     (let target = (if v4v6 = 0 then ''v4'' else if v4v6 = 1 then ''v6'' else ''v4v6'');
          table = (if ty = 0 then ''filter'' else if ty = 1 then ''nat'' else ''mangle'') in
      do {
        command \<leftarrow> fmt (''table '' @ table) rules;
        let (ret, s) = exec target command s in
        Some (if ret \<noteq> 0 then (''error_setting_iptables_rules'', s) else (''iptables_rules_set_successfully'', s)) })"

text \<open>
  The call as the daemon sees it. A service that has died (\<open>None\<close>) gives no answer: the status of the call is not looked at,
  and the answer's variable keeps its empty text.
\<close>

definition set_iptables_rules :: "restore_format \<Rightarrow> 's restore \<Rightarrow> 's option service" where
  "set_iptables_rules fmt exec s v4v6 ty rules =
     (case s of
        None \<Rightarrow> ([], None)
      | Some s \<Rightarrow>
          (case set_iptables_rule fmt exec v4v6 ty rules s of
             None \<Rightarrow> ([], None)
           | Some (result, s) \<Rightarrow> (result, Some s)))"

definition intended_format :: restore_format where
  "intended_format header rules = Some (header @ [CHR 0x0A] @ rules @ [CHR 0x0A] @ ''COMMIT'' @ [CHR 0x0A])"


definition isAlive :: bool where
  "isAlive = True"







section \<open>What a configuration file means\<close>

abbreviation NL :: char where
  "NL \<equiv> CHR 0x0A"

definition config_text :: "string list \<Rightarrow> string" where
  "config_text ls = concat (map (\<lambda>l. l @ [NL]) ls)"

definition line_ok :: "string \<Rightarrow> bool" where
  "line_ok l \<longleftrightarrow> l \<noteq> [] \<and> length l \<le> 1022 \<and> NUL \<notin> set l \<and> NL \<notin> set l"

text \<open>The rules of a file with their tables. The last character of a line (a carriage return) is not part of the rule.\<close>

fun config_rules :: "int \<Rightarrow> string list \<Rightarrow> (int \<times> string) list" where
  "config_rules ty [] = []"
| "config_rules ty (l # ls) =
     (if strstr l ''mangle'' then config_rules 2 ls
      else if strstr l ''filter'' then config_rules 0 ls
      else if strstr l ''nat'' then config_rules 1 ls
      else (ty, butlast l) # config_rules ty ls)"

definition apply_rules :: "'s service \<Rightarrow> (int \<times> string) list \<Rightarrow> 's fw_state \<Rightarrow> 's fw_state" where
  "apply_rules set_rules rs st = fold (\<lambda>(ty, r). rule_loop set_rules ty r 0) rs st"

lemma take_line_nl: "NL \<notin> set l \<Longrightarrow> length l < k \<Longrightarrow> take_line k (l @ NL # r) = (l @ [NL], r)"
proof (induction l arbitrary: k)
  case Nil
  then show ?case by (cases k) auto
next
  case (Cons c l)
  then show ?case by (cases k) auto
qed

lemma strstr_snoc:
  assumes "c \<notin> set t" "t \<noteq> []"
  shows "strstr (s @ [c]) t \<longleftrightarrow> strstr s t"
proof
  assume "strstr (s @ [c]) t"
  then obtain a b where ab: "s @ [c] = a @ t @ b" unfolding strstr_iff by blast
  have "b \<noteq> []"
  proof
    assume "b = []"
    then have "last (s @ [c]) = last t" using ab assms(2) by simp
    then show False using assms last_in_set [of t] by simp
  qed
  then obtain b' x where "b = b' @ [x]" using rev_exhaust by blast
  then have "s = a @ t @ b'" using ab by simp
  then show "strstr s t" unfolding strstr_iff by blast
next
  assume "strstr s t"
  then show "strstr (s @ [c]) t" using strstr_add [of s t "[]" "[c]"] by simp
qed

lemma fw_lines_line:
  assumes "line_ok l"
  shows "fw_lines set_rules (l @ NL # rest) ty st =
    (if strstr l ''mangle'' then fw_lines set_rules rest 2 st
     else if strstr l ''filter'' then fw_lines set_rules rest 0 st
     else if strstr l ''nat'' then fw_lines set_rules rest 1 st
     else fw_lines set_rules rest ty (rule_loop set_rules ty (butlast l) 0 st))"
proof -
  note l = assms [unfolded line_ok_def]
  have "fgets 1024 (l @ NL # rest) = Some (l @ [NL], rest)"
    using l take_line_nl [of l 1023 rest] by (simp add: fgets_def)
  moreover have "takeWhile (\<lambda>c. c \<noteq> NUL) (l @ [NL]) = l @ [NL]" using l by (auto simp: takeWhile_eq_all_conv)
  moreover have "strstr (l @ [NL]) ''mangle'' = strstr l ''mangle''" "strstr (l @ [NL]) ''filter'' = strstr l ''filter''"
    "strstr (l @ [NL]) ''nat'' = strstr l ''nat''" by (rule strstr_snoc; simp)+
  moreover have "cut_line (l @ [NL]) = Some (butlast l)" using l by (simp add: cut_line_def)
  ultimately show ?thesis by (subst fw_lines.simps) (simp del: strstr.simps)
qed

lemma fw_lines_text:
  assumes "\<forall>l \<in> set ls. line_ok l"
  shows "\<exists>ty'. fw_lines set_rules (config_text ls @ rest) ty st =
    fw_lines set_rules rest ty' (apply_rules set_rules (config_rules ty ls) st)"
  using assms
proof (induction ls arbitrary: ty st)
  case Nil
  then show ?case by (auto simp: config_text_def apply_rules_def)
next
  case (Cons l ls)
  have e: "config_text (l # ls) @ rest = l @ NL # (config_text ls @ rest)" by (simp add: config_text_def)
  show ?case
    unfolding e using Cons by (simp add: fw_lines_line apply_rules_def del: strstr.simps)
qed

lemma fw_lines_end [simp]: "fw_lines set_rules [] ty st = Some st"
  by (subst fw_lines.simps) (simp add: fgets_def)

section \<open>Properties\<close>

text \<open>
  C16: \<open>read_file_line\<close> applies exactly the rules of the file, in order, each to the table that the last line
  before it naming a table selects (\<open>filter\<close> at first). The \<open>fgets\<close> loop over characters refines the reading
  line by line; the rule is the line without its last character, so lines must end with CR LF. The lines
  (without the line feed) have no NUL and are neither empty nor longer than 1022 characters (\<open>line_ok\<close>), so that each fits
  into the array.
\<close>

theorem read_file_line_applies:
  assumes "fs path = Some (config_text ls)" "\<forall>l \<in> set ls. line_ok l"
  shows "read_file_line fs err set_rules path st = Some (apply_rules set_rules (config_rules 0 ls) st)"
  using fw_lines_text [OF assms(2), of set_rules "[]" 0 st] assms(1) by (auto simp: read_file_line_def)

text \<open>
  C39: a blank line in the file, after any good lines, stops the daemon with a memory fault: the length that
  \<open>memcpy\<close> gets wraps around.
\<close>

theorem read_file_line_blank_line:
  assumes "fs path = Some (config_text ls @ NL # tail_text)" "\<forall>l \<in> set ls. line_ok l"
  shows "read_file_line fs err set_rules path st = None"
proof -
  have "fw_lines set_rules (NL # tail_text) ty s = None" for ty s
    by (subst fw_lines.simps) (simp add: fgets_def cut_line_def numeral_eq_Suc)
  then show ?thesis
    using fw_lines_text [OF assms(2), of set_rules "NL # tail_text" 0 st] assms(1) by (auto simp: read_file_line_def)
qed

text \<open>
  Rules that match on a \<open>--destination\<close> are never applied: that word contains \<open>nat\<close>, so the line is taken
  for the header of the \<open>nat\<close> table. A file of such rules makes no call and logs nothing.
\<close>

theorem destination_rules_are_lost:
  assumes "fs path = Some (config_text ls)" "\<forall>l \<in> set ls. line_ok l \<and> strstr l ''destination''"
  shows "read_file_line fs err set_rules path st = Some st"
proof -
  have "strstr l ''nat''" if "strstr l ''destination''" for l
  proof -
    obtain a b where "l = a @ ''destination'' @ b" using \<open>strstr l ''destination''\<close> unfolding strstr_iff by blast
    then have "l = (a @ ''desti'') @ ''nat'' @ (''ion'' @ b)" by simp
    then show ?thesis unfolding strstr_iff by blast
  qed
  then have "config_rules ty ls = []" for ty
    using assms(2) by (induction ls arbitrary: ty) auto
  then show ?thesis
    using fw_lines_text [of ls set_rules "[]" 0 st] assms by (auto simp: read_file_line_def apply_rules_def)
qed

text \<open>
  A rule is tried at most twice: once, when the service's answer has no \<open>ERROR\<close> or the rule deletes
  (\<open>-D\<close>); a second time otherwise; and only two bad answers are logged. (The comment promises three
  retries, but the counter goes up twice a round.)
\<close>

theorem rule_loop_attempts:
  "rule_loop set_rules ty tmp 0 st =
    (let (r1, s1) = set_rules (svc st) 0 ty tmp; (r2, s2) = set_rules s1 0 ty tmp in
     if \<not> strstr tmp ''-D'' \<and> strstr r1 ''ERROR'' then
       if strstr r2 ''ERROR'' then st\<lparr>svc := s2, logged := logged st @ [''rules:'' @ tmp @ '' Failed Reason:'' @ r2]\<rparr>
       else st\<lparr>svc := s2\<rparr>
     else st\<lparr>svc := s1\<rparr>)"
  by (simp add: rule_loop.simps [of _ _ _ 0] rule_loop.simps [of _ _ _ "Suc _"] rule_loop.simps [of _ _ _ 2] Let_def del: strstr.simps split: prod.split)

text \<open>One rule at the service: the command that the format gives goes to \<open>iptables-restore\<close>, for IPv4.\<close>

definition restore_rule :: "restore_format \<Rightarrow> 's restore \<Rightarrow> int \<times> string \<Rightarrow> 's option \<Rightarrow> 's option" where
  "restore_rule fmt exec = (\<lambda>(ty, r) s. do {
     s \<leftarrow> s;
     command \<leftarrow> fmt (''table '' @ (if ty = 0 then ''filter'' else if ty = 1 then ''nat'' else ''mangle'')) r;
     Some (snd (exec ''v4'' command s)) })"

text \<open>
  With the service of this repository no failure is ever noticed. Its answer to a failed
  \<open>iptables-restore\<close> is \<open>error_setting_iptables_rules\<close>, the daemon looks for \<open>ERROR\<close>; nor is an answer that does not come
  noticed. The rule is handed over once and nothing is logged.
\<close>

theorem restore_failure_unnoticed:
  "rule_loop (set_iptables_rules fmt exec) ty tmp 0 st = st\<lparr>svc := restore_rule fmt exec (ty, tmp) (svc st)\<rparr>"
  by (subst rule_loop.simps)
     (simp add: set_iptables_rules_def set_iptables_rule_def restore_rule_def Let_def split: prod.split option.split bind_split)

text \<open>
  C17: the daemon and the service together. With the file of the command line, \<open>firewall_thread\<close> makes the service hand
  each of its rules to \<open>iptables-restore\<close> exactly once, for IPv4, in the order of the file, as the command that
  \<open>stringPrintf\<close> gives for the header of the rule's table and the rule, whatever \<open>iptables-restore\<close> returns for the rules
  before. If \<open>stringPrintf\<close>, whose call C++ leaves undefined, does not return for some rule, the service is gone and this
  rule and all later ones are lost. The daemon logs nothing in either case, since the service answers
  \<open>error_setting_iptables_rules\<close> where the daemon looks for \<open>ERROR\<close>, and a call that fails leaves an empty answer.
\<close>

theorem firewall_thread_restores:
  assumes "fs path = Some (config_text ls)" "\<forall>l \<in> set ls. line_ok l"
  shows "firewall_thread fs err (set_iptables_rules fmt exec) (Some path) st =
    Some (st\<lparr>svc := fold (\<lambda>(ty, r) s. do {
      s \<leftarrow> s;
      command \<leftarrow> fmt (''table '' @ (if ty = 0 then ''filter'' else if ty = 1 then ''nat'' else ''mangle'')) r;
      Some (snd (exec ''v4'' command s)) }) (config_rules 0 ls) (svc st)\<rparr>)"
proof -
  have "apply_rules (set_iptables_rules fmt exec) rs st = st\<lparr>svc := fold (restore_rule fmt exec) rs (svc st)\<rparr>" for rs
    by (induction rs arbitrary: st) (auto simp: apply_rules_def restore_failure_unnoticed)
  then show ?thesis
    using fw_lines_text [OF assms(2), of "set_iptables_rules fmt exec" "[]" 0 st] assms(1)
    by (auto simp: firewall_thread_def read_file_line_def restore_rule_def)
qed

text \<open>A file with two tables, lines ending with CR LF; a service that refuses and records the calls.\<close>

definition CR :: char where
  "CR = CHR 0x0D"

definition demo_config :: "string list" where
  "demo_config = [''*filter'' @ [CR], ''-A INPUT -j DROP'' @ [CR], ''*nat'' @ [CR], ''-F'' @ [CR]]"

definition demo_service :: "(int \<times> string) list service" where
  "demo_service s v ty r = (''ERROR'', s @ [(ty, r)])"

lemma demo_config_ok: "\<forall>l \<in> set demo_config. line_ok l"
  by (simp add: demo_config_def line_ok_def CR_def)

theorem read_file_line_applies_witness:
  "\<exists>st. read_file_line (\<lambda>_. Some (config_text demo_config)) [] demo_service ''fw.conf'' \<lparr>svc = [], logged = []\<rparr> = Some st \<and>
     svc st = [(0, ''-A INPUT -j DROP''), (0, ''-A INPUT -j DROP''), (1, ''-F''), (1, ''-F'')] \<and> length (logged st) = 2"
proof -
  have r: "config_rules 0 demo_config = [(0, ''-A INPUT -j DROP''), (1, ''-F'')]"
    by (simp add: demo_config_def CR_def)
  have two: "rule_loop demo_service ty tmp 0 st = st\<lparr>svc := svc st @ [(ty, tmp), (ty, tmp)],
      logged := logged st @ [''rules:'' @ tmp @ '' Failed Reason:ERROR'']\<rparr>" if "\<not> strstr tmp ''-D''" for ty tmp st
    using that by (simp add: rule_loop.simps [of _ _ _ 0] rule_loop.simps [of _ _ _ "Suc _"] rule_loop.simps [of _ _ _ 2] demo_service_def)
  show ?thesis
    using read_file_line_applies [of "\<lambda>_. Some (config_text demo_config)" "''fw.conf''" demo_config "[]" demo_service
        "\<lparr>svc = [], logged = []\<rparr>"] demo_config_ok
    by (simp add: r apply_rules_def two)
qed

text \<open>An \<open>iptables-restore\<close> that refuses and records its commands; a format that does not survive the table \<open>nat\<close>.\<close>

definition demo_exec :: "(string \<times> string) list restore" where
  "demo_exec target command s = (1, s @ [(target, command)])"

definition fragile_format :: restore_format where
  "fragile_format header rules = (if header = ''table nat'' then None else intended_format header rules)"

theorem firewall_thread_restores_witness:
  "firewall_thread (\<lambda>_. Some (config_text demo_config)) [] (set_iptables_rules intended_format demo_exec) (Some ''fw.conf'')
     \<lparr>svc = Some [], logged = []\<rparr> =
   Some \<lparr>svc = Some [(''v4'', ''table filter'' @ [NL] @ ''-A INPUT -j DROP'' @ [NL] @ ''COMMIT'' @ [NL]),
     (''v4'', ''table nat'' @ [NL] @ ''-F'' @ [NL] @ ''COMMIT'' @ [NL])], logged = []\<rparr> \<and>
   firewall_thread (\<lambda>_. Some (config_text demo_config)) [] (set_iptables_rules fragile_format demo_exec) (Some ''fw.conf'')
     \<lparr>svc = Some [], logged = []\<rparr> = Some \<lparr>svc = None, logged = []\<rparr>"
proof -
  have r: "config_rules 0 demo_config = [(0, ''-A INPUT -j DROP''), (1, ''-F'')]"
    by (simp add: demo_config_def CR_def)
  note f = firewall_thread_restores [of "\<lambda>_. Some (config_text demo_config)" "''fw.conf''" demo_config "[]" _ demo_exec
    "\<lparr>svc = Some [], logged = []\<rparr>", OF _ demo_config_ok]
  show ?thesis
    using f [of intended_format] f [of fragile_format]
    by (simp add: r demo_exec_def intended_format_def fragile_format_def)
qed

theorem read_file_line_blank_line_witness:
  "read_file_line (\<lambda>_. Some (config_text demo_config @ NL # ''-P''))  [] demo_service ''fw.conf'' \<lparr>svc = [], logged = []\<rparr> = None"
  by (rule read_file_line_blank_line [where ls = demo_config]) (simp_all add: demo_config_ok)

theorem destination_rules_are_lost_witness:
  "read_file_line (\<lambda>_. Some (config_text [''-A INPUT --destination 10.0.0.1 -j DROP'' @ [CR]])) [] demo_service ''fw.conf''
     \<lparr>svc = [], logged = []\<rparr> = Some \<lparr>svc = [], logged = []\<rparr>"
  by (rule destination_rules_are_lost [where ls = "[''-A INPUT --destination 10.0.0.1 -j DROP'' @ [CR]]"])
    (simp_all add: line_ok_def CR_def)

section \<open>The command line, the connection and the registry\<close>

text \<open>The last value given for an option.\<close>

definition option_value :: "string \<Rightarrow> (string \<times> string) list \<Rightarrow> string option" where
  "option_value f opts = map_of (rev opts) f"

definition arguments :: "(string \<times> string) list \<Rightarrow> string list" where
  "arguments opts = concat (map (\<lambda>(f, v). [f, v]) opts)"

definition options_ok :: "(string \<times> string) list \<Rightarrow> bool" where
  "options_ok opts \<longleftrightarrow> (\<forall>(f, v) \<in> set opts. f \<in> {''-c'', ''-d'', ''-l'', ''-r''} \<and> (f = ''-r'' \<longrightarrow> atoi v \<noteq> None))"

definition over :: "'a option \<Rightarrow> 'a option \<Rightarrow> 'a option" where
  "over x y = (case x of None \<Rightarrow> y | Some v \<Rightarrow> Some v)"

definition chosen_region :: "(string \<times> string) list \<Rightarrow> byte \<Rightarrow> byte" where
  "chosen_region opts r = (case option_value ''-r'' opts of None \<Rightarrow> r | Some v \<Rightarrow> of_int (the (atoi v)))"

lemma option_value_simps [simp]:
  "option_value f [] = None"
  "option_value f (opts @ [(g, v)]) = (if f = g then Some v else option_value f opts)"
  by (auto simp: option_value_def)

lemma prase_args_append:
  "options_ok opts \<Longrightarrow> prase_args (arguments opts @ rest) c =
    prase_args rest \<lparr>config_path = over (option_value ''-c'' opts) (config_path c), db_path = over (option_value ''-d'' opts) (db_path c),
      log_path = over (option_value ''-l'' opts) (log_path c), region = chosen_region opts (region c)\<rparr>"
proof (induction opts arbitrary: rest rule: rev_induct)
  case Nil
  then show ?case by (cases c) (simp add: arguments_def over_def chosen_region_def)
next
  case (snoc fv opts)
  obtain f v where fv: "fv = (f, v)" by (cases fv)
  have ok: "options_ok opts" and f: "f = ''-c'' \<or> f = ''-d'' \<or> f = ''-l'' \<or> f = ''-r'' \<and> atoi v \<noteq> None"
    using snoc.prems by (auto simp: options_ok_def fv)
  have e: "arguments (opts @ [fv]) @ rest = arguments opts @ f # v # rest" by (simp add: arguments_def fv)
  show ?case
    unfolding e snoc.IH [OF ok] using f by (auto simp: over_def chosen_region_def fv)
qed

lemma PraseCommandLine_opts:
  assumes "options_ok opts"
  shows "PraseCommandLine (prog # arguments opts) no_settings =
      (if option_value ''-c'' opts = None \<or> option_value ''-d'' opts = None \<or> option_value ''-l'' opts = None then Some (Inl 1)
       else Some (Inr \<lparr>config_path = option_value ''-c'' opts, db_path = option_value ''-d'' opts,
         log_path = option_value ''-l'' opts, region = chosen_region opts 0\<rparr>))"
proof -
  have r: "prase_args (arguments opts) no_settings = Some (Inr \<lparr>config_path = option_value ''-c'' opts,
      db_path = option_value ''-d'' opts, log_path = option_value ''-l'' opts, region = chosen_region opts 0\<rparr>)"
    using prase_args_append [OF assms, of "[]" no_settings] by (simp add: no_settings_def over_def split: option.split)
  have short: "option_value ''-c'' opts = None \<or> option_value ''-d'' opts = None" if "length (arguments opts) < 3"
  proof -
    have "length (arguments opts) = 2 * length opts" by (induction opts) (auto simp: arguments_def)
    then have "length opts \<le> 1" using that by simp
    then show ?thesis by (cases opts) (auto simp: option_value_def)
  qed
  show ?thesis using r short by (auto simp: PraseCommandLine_def)
qed

text \<open>
  C34: \<open>PraseCommandLine\<close> on a list of options with values, in any order: the last value of each counts; without
  a configuration file, a database and a log path the program exits with failure. (\<open>-h\<close> alone also exits with
  failure, since the count of arguments is tested first.)
\<close>

theorem PraseCommandLine_options:
  assumes "options_ok opts"
  shows "PraseCommandLine (prog # arguments opts) no_settings =
      (if option_value ''-c'' opts = None \<or> option_value ''-d'' opts = None \<or> option_value ''-l'' opts = None then Some (Inl 1)
       else Some (Inr \<lparr>config_path = option_value ''-c'' opts, db_path = option_value ''-d'' opts,
         log_path = option_value ''-l'' opts, region = chosen_region opts 0\<rparr>)) \<and>
    PraseCommandLine [prog, ''-h''] no_settings = Some (Inl 1)"
  using PraseCommandLine_opts [OF assms, of prog] by (simp add: PraseCommandLine_def)

theorem PraseCommandLine_options_witness:
  "PraseCommandLine [''fw'', ''-r'', ''1'', ''-c'', ''a'', ''-d'', ''b'', ''-l'', ''c'', ''-c'', ''z''] no_settings =
    Some (Inr \<lparr>config_path = Some ''z'', db_path = Some ''b'', log_path = Some ''c'', region = 1\<rparr>)"
proof -
  have a: "atoi ''1'' = Some 1" by (simp add: atoi_def match_decimal_def isspace_def signed_digits_def is_digit_def digit_val_def)
  then show ?thesis
    using PraseCommandLine_options [of "[(''-r'', ''1''), (''-c'', ''a''), (''-d'', ''b''), (''-l'', ''c''), (''-c'', ''z'')]" "''fw''"]
    by (simp add: options_ok_def arguments_def option_value_def chosen_region_def)
qed


lemma NetdBinderInit_ok: "NetdBinderInit e g = (0, g') \<Longrightarrow> mNetd g' \<noteq> None \<and> oemNetd g' \<noteq> None"
  by (auto simp: NetdBinderInit_def Let_def split: option.splits if_splits)

lemma connect_ok:
  assumes "\<And>g. fst (NetdBinderInit (env k) g) = 0"
  shows "\<exists>i g'. i \<le> k \<and> connect env 0 g = Some (i, g') \<and> mNetd g' \<noteq> None \<and> oemNetd g' \<noteq> None"
proof -
  have "\<exists>i g'. i \<le> k \<and> connect env j g = Some (i, g') \<and> mNetd g' \<noteq> None \<and> oemNetd g' \<noteq> None" if "j \<le> k" for j g
    using that
  proof (induction "k - j" arbitrary: j g)
    case 0
    then have "j = k" by simp
    obtain g' where g': "NetdBinderInit (env k) g = (0, g')" using assms [of g] by (cases "NetdBinderInit (env k) g") auto
    then show ?case using \<open>j = k\<close> NetdBinderInit_ok [OF g'] by (subst connect.simps) auto
  next
    case (Suc n)
    obtain ret g' where g': "NetdBinderInit (env j) g = (ret, g')" by fastforce
    show ?case
    proof (cases "ret = 0")
      case True
      then show ?thesis using g' NetdBinderInit_ok [of "env j" g g'] Suc.prems by (subst connect.simps) auto
    next
      case False
      have "n = k - (j + 1)" "j + 1 \<le> k" using Suc.hyps(2) by simp_all
      then show ?thesis using Suc.hyps(1) [of "j + 1" g'] g' False by (subst connect.simps) simp
    qed
  qed
  then show ?thesis by blast
qed

text \<open>
  C32: the daemon waits for the service for as long as it takes and no longer: when attempt \<open>k\<close> is bound to
  succeed, \<open>main\<close> leaves its loop after at most \<open>k\<close> failures, with both interfaces set.
\<close>

theorem connect_returns:
  assumes "\<And>g. fst (NetdBinderInit (env k) g) = 0"
  shows "\<exists>i g'. i \<le> k \<and> connect env 0 g = Some (i, g') \<and> mNetd g' \<noteq> None \<and> oemNetd g' \<noteq> None"
  using connect_ok [of env k g] assms by blast

theorem connect_returns_witness:
  "\<exists>i g'. i \<le> 2 \<and> connect (\<lambda>i. \<lparr>getService = (if i = 2 then Some i else None), cast_netd = Some, getOemNetd = (\<lambda>n. Some (Some n)),
      cast_oem = id\<rparr>) 0 \<lparr>mNetd = None, oemNetd = None\<rparr> = Some (i, g') \<and> mNetd g' \<noteq> None \<and> oemNetd g' \<noteq> None"
  by (rule connect_returns) (simp add: NetdBinderInit_def)





end
