(* ===== verification/Log_Client.thy ===== *)
theory Log_Client
  imports Prelude
begin

text \<open>
  The calls of the log library in \<open>dns_client.c\<close>: \<open>log_init\<close>, \<open>log_deinit\<close> and \<open>log_write\<close>. The library is a
  binary; its functions are the fields of a record, over a handle type and a state of their own.
\<close>

section \<open>The library's types\<close>

datatype Selog_RetCodeType =
    SELOG_SUCESS | SELOG_FAIL | SELOG_MODE_ERROR | SELOG_HANDLE_ERROR | SELOG_HANDLE_POOL_FULL | SELOG_PARAM_ERROR
  | SELOG_HANDLE_UNINIT | SELOG_MALLOC_ERROR | SELOG_CFG_ERROR | SELOG_CFG_FILTER_FULL | SELOG_CFG_AUDIT_FULL
  | SELOG_CFG_TYPE_ERROR | SELOG_SIZE_OVER | SELOG_ADDINFO_ERROR | SELOG_READ_NOT_SUPPORT | SELOG_READ_ADUITLOG_CONF_NULL

fun ret_code :: "Selog_RetCodeType \<Rightarrow> u32" where
  "ret_code SELOG_SUCESS = 0"
| "ret_code SELOG_FAIL = 0xF0000000"
| "ret_code SELOG_MODE_ERROR = 0xF0000001"
| "ret_code SELOG_HANDLE_ERROR = 0xF0000002"
| "ret_code SELOG_HANDLE_POOL_FULL = 0xF0000003"
| "ret_code SELOG_PARAM_ERROR = 0xF0000004"
| "ret_code SELOG_HANDLE_UNINIT = 0xF0000005"
| "ret_code SELOG_MALLOC_ERROR = 0xF0000006"
| "ret_code SELOG_CFG_ERROR = 0xF1000000"
| "ret_code SELOG_CFG_FILTER_FULL = 0xF1000001"
| "ret_code SELOG_CFG_AUDIT_FULL = 0xF1000002"
| "ret_code SELOG_CFG_TYPE_ERROR = 0xF1000003"
| "ret_code SELOG_SIZE_OVER = 0xF2000000"
| "ret_code SELOG_ADDINFO_ERROR = 0xF2000001"
| "ret_code SELOG_READ_NOT_SUPPORT = 0xF3000000"
| "ret_code SELOG_READ_ADUITLOG_CONF_NULL = 0xF3000001"

text \<open>The values of the other enumerations that the program passes.\<close>

definition SELOG_MODEL_CLIENT :: nat where "SELOG_MODEL_CLIENT = 3"
definition SELOG_LOG_TYPE_SYSTEM :: nat where "SELOG_LOG_TYPE_SYSTEM = 0"
definition SELOG_LOG_LEVEL_HIGH :: nat where "SELOG_LOG_LEVEL_HIGH = 10"
definition SELOG_LOG_LEVEL_MIDDLE :: nat where "SELOG_LOG_LEVEL_MIDDLE = 11"
definition SELOG_APP_TAGS_SIZE :: nat where "SELOG_APP_TAGS_SIZE = 8"
definition SELOG_SINGLE_LOG_SIZE :: nat where "SELOG_SINGLE_LOG_SIZE = 5000"

record Selog_WriteStructType =
  timestamp :: "64 word"
  eventid :: u16
  user_eventid :: u16
  log_type :: nat
  level :: nat
  urgent_flag :: byte
  aggregation_count :: u32
  app_tags :: string

record ('h, 's) selog =
  Selog_CreateHandle :: "'h option \<Rightarrow> nat \<Rightarrow> string \<Rightarrow> 's \<Rightarrow> 'h option \<times> 's"
  Selog_SetCapacity :: "'h option \<Rightarrow> int \<Rightarrow> 's \<Rightarrow> 's"
  Selog_SetPath :: "'h option \<Rightarrow> string \<Rightarrow> 's \<Rightarrow> 's"
  Selog_Init :: "'h option \<Rightarrow> 's \<Rightarrow> 's"
  Selog_Deinit :: "'h option \<Rightarrow> 's \<Rightarrow> 's"
  Selog_Write :: "'h option \<Rightarrow> Selog_WriteStructType \<Rightarrow> string \<Rightarrow> u32 \<Rightarrow> 's \<Rightarrow> u32 \<times> 's"

section \<open>The client's functions\<close>

definition log_init :: "('h, 's) selog \<Rightarrow> string option \<Rightarrow> 'h option \<Rightarrow> 's \<Rightarrow> int \<times> 'h option \<times> 's" where
  "log_init lib log_path hselog s =
     (case log_path of
        None \<Rightarrow> (- 1, hselog, s)
      | Some path \<Rightarrow>
          let (hselog, s) = Selog_CreateHandle lib hselog SELOG_MODEL_CLIENT ''ioemnetd'' s;
              s = Selog_SetCapacity lib hselog (1024 * 1024) s;
              s = Selog_SetPath lib hselog path s;
              s = Selog_Init lib hselog s in
          (if hselog \<noteq> None then 0 else - 1, hselog, s))"

definition log_deinit :: "('h, 's) selog \<Rightarrow> 'h option \<Rightarrow> 's \<Rightarrow> 'h option \<times> 's" where
  "log_deinit lib hselog s = (if hselog \<noteq> None then (None, Selog_Deinit lib hselog s) else (hselog, s))"

text \<open>
  \<open>msg\<close> is the text that the format and its arguments give, of which \<open>vsnprintf\<close> stores what fits. The
  result is the code cut to 8 bits, what the function prints, and the library's state.
\<close>

definition log_write ::
  "('h, 's) selog \<Rightarrow> 'h option \<Rightarrow> nat \<Rightarrow> u16 \<Rightarrow> u16 \<Rightarrow> nat \<Rightarrow> byte \<Rightarrow> string \<Rightarrow> 's \<Rightarrow> byte \<times> string \<times> 's" where
  "log_write lib hselog ty ev user_ev lev urgent msg s =
     (let logbuf = take (SELOG_SINGLE_LOG_SIZE - 1) msg;
          log_len = of_nat (length logbuf);
          w_st = \<lparr>timestamp = 0, eventid = ev, user_eventid = user_ev, log_type = ty, level = lev, urgent_flag = urgent,
            aggregation_count = 0, app_tags = take SELOG_APP_TAGS_SIZE ''dns_client''\<rparr>;
          (code, s) = Selog_Write lib hselog w_st logbuf log_len s;
          ret = ucast code in
      (ret,
       if ret \<noteq> 0 then ''Failed to write log: '' @ logbuf @ '', error code: '' @ show_int (uint ret)
       else ''Log written successfully: '' @ logbuf, s))"

section \<open>Properties\<close>

text \<open>
  C38: \<open>log_write\<close> keeps 8 bits of the library's code, so that a failed write can pass for a good one: 0 is
  returned, and success printed, not only for \<open>SELOG_SUCESS\<close> but for \<open>SELOG_FAIL\<close>, \<open>SELOG_CFG_ERROR\<close>,
  \<open>SELOG_SIZE_OVER\<close> and \<open>SELOG_READ_NOT_SUPPORT\<close> as well. What is returned is in every case the low
  byte of the library's code, and exactly the codes with another low byte are reported as failures.
\<close>

theorem log_write_masks_errors:
  assumes "\<And>w b n. fst (Selog_Write lib h w b n s) = ret_code c"
  shows "uint (fst (log_write lib h ty ev uev lev urgent msg s)) = uint (ret_code c) mod 256 \<and>
    (fst (log_write lib h ty ev uev lev urgent msg s) = 0 \<longleftrightarrow>
      c \<in> {SELOG_SUCESS, SELOG_FAIL, SELOG_CFG_ERROR, SELOG_SIZE_OVER, SELOG_READ_NOT_SUPPORT}) \<and>
    (take 7 (fst (snd (log_write lib h ty ev uev lev urgent msg s))) = ''Failed '' \<longleftrightarrow>
      c \<notin> {SELOG_SUCESS, SELOG_FAIL, SELOG_CFG_ERROR, SELOG_SIZE_OVER, SELOG_READ_NOT_SUPPORT}) \<and>
    (take 26 (fst (snd (log_write lib h ty ev uev lev urgent msg s))) = ''Log written successfully: '' \<longleftrightarrow>
      c \<in> {SELOG_SUCESS, SELOG_FAIL, SELOG_CFG_ERROR, SELOG_SIZE_OVER, SELOG_READ_NOT_SUPPORT})"
proof -
  have r: "fst (log_write lib h ty ev uev lev urgent msg s) = ucast (ret_code c)"
    using assms by (auto simp: log_write_def Let_def split: prod.split) (metis fst_conv)
  have p: "take 7 (fst (snd (log_write lib h ty ev uev lev urgent msg s))) = ''Failed '' \<longleftrightarrow>
      fst (log_write lib h ty ev uev lev urgent msg s) \<noteq> 0"
    by (auto simp: log_write_def Let_def split: prod.split)
  have q: "take 26 (fst (snd (log_write lib h ty ev uev lev urgent msg s))) = ''Log written successfully: '' \<longleftrightarrow>
      fst (log_write lib h ty ev uev lev urgent msg s) = 0"
    by (auto simp: log_write_def Let_def split: prod.split)
  have "(ucast (ret_code c) :: byte) = 0 \<longleftrightarrow>
      c \<in> {SELOG_SUCESS, SELOG_FAIL, SELOG_CFG_ERROR, SELOG_SIZE_OVER, SELOG_READ_NOT_SUPPORT}"
    by (cases c) simp_all
  moreover have "uint (ucast (ret_code c) :: byte) = uint (ret_code c) mod 256"
    by (simp add: unsigned_ucast_eq take_bit_eq_mod)
  ultimately show ?thesis using p q r by auto
qed

text \<open>A library that fails, and one that records what it is given.\<close>

definition full_log :: "(nat, unit) selog" where
  "full_log = \<lparr>Selog_CreateHandle = (\<lambda>_ _ _ s. (Some 1, s)), Selog_SetCapacity = (\<lambda>_ _ s. s), Selog_SetPath = (\<lambda>_ _ s. s),
     Selog_Init = (\<lambda>_ s. s), Selog_Deinit = (\<lambda>_ s. s), Selog_Write = (\<lambda>_ _ _ _ s. (ret_code SELOG_SIZE_OVER, s))\<rparr>"

theorem log_write_masks_errors_witness:
  "fst (log_write full_log (Some 1) 0 1 1 10 0 ''rules'' ()) = 0 \<and>
    uint (ret_code SELOG_SIZE_OVER) \<noteq> 0"
  using log_write_masks_errors [of full_log "Some 1" "()" SELOG_SIZE_OVER 0 1 1 10 0 "''rules''"]
  by (simp add: full_log_def)

end
