(* ===== verification/Dns_Event.thy ===== *)
theory Dns_Event
  imports Cjson_Build Cjson_Roundtrip Log_Client
begin

text \<open>
  The record that \<open>main_loop\<close> writes for a message: the JSON object it builds in memory, the text of it and
  the call of the log. With memory available, the text parses back to the fields; the object is never freed.
\<close>

section \<open>Building the event\<close>

text \<open>
  A C string that the caller holds (a literal, an array on the stack, a result), as an address that the
  item functions can read.
\<close>

fun place_all :: "string list \<Rightarrow> jmem \<Rightarrow> ptr list \<times> jmem" where
  "place_all [] m = ([], m)"
| "place_all (s # ss) m =
     (let (ps, m') = place_all ss (m\<lparr>strs := (strs m)(asks m \<mapsto> s @ [NUL]), asks := asks m + 1\<rparr>) in (Some (asks m) # ps, m'))"

definition event_names :: "string list" where
  "event_names = [''DnsRet'', ''Domain'', ''UID'', ''PID'', ''ProcessName'', ''IPAddresses'']"

fun add_addresses :: "ptr \<Rightarrow> ptr list \<Rightarrow> jmem \<Rightarrow> jmem option" where
  "add_addresses ip_array [] m = Some m"
| "add_addresses ip_array (p # ps) m = do {
     (s, m) \<leftarrow> cJSON_CreateString p m;
     (_, m) \<leftarrow> cJSON_AddItemToArray ip_array s m;
     add_addresses ip_array ps m }"

text \<open>\<open>n\<close> are the six member names; the numbers are an \<open>int\<close> each, which a \<open>double\<close> holds exactly.\<close>

definition make_event :: "(nat \<Rightarrow> ptr) \<Rightarrow> ptr \<Rightarrow> ptr \<Rightarrow> int \<Rightarrow> int \<Rightarrow> ptr \<Rightarrow> ptr list \<Rightarrow> jmem \<Rightarrow> (ptr \<times> jmem) option" where
  "make_event n dnsRet domain uid pid pname ips m = do {
     (event, m) \<leftarrow> cJSON_CreateObject m;
     (_, m) \<leftarrow> cJSON_AddStringToObject event (n 0) dnsRet m;
     (_, m) \<leftarrow> cJSON_AddStringToObject event (n 1) domain m;
     (_, m) \<leftarrow> cJSON_AddNumberToObject event (n 2) (dbl_of_int uid) m;
     (_, m) \<leftarrow> cJSON_AddNumberToObject event (n 3) (dbl_of_int pid) m;
     (_, m) \<leftarrow> cJSON_AddStringToObject event (n 4) pname m;
     (ip_array, m) \<leftarrow> cJSON_CreateArray m;
     m \<leftarrow> add_addresses ip_array ips m;
     (_, m) \<leftarrow> cJSON_AddItemToObject event (n 5) ip_array m;
     Some (event, m) }"

text \<open>The item that a pointer stands for; every address in use is below \<open>asks\<close>, which bounds the walk.\<close>

definition item_of :: "ptr \<Rightarrow> jmem \<Rightarrow> cJSON option option" where
  "item_of p m =
     (case p of
        None \<Rightarrow> Some None
      | Some a \<Rightarrow> do {
          c \<leftarrow> cells m a;
          cs \<leftarrow> read_chain (asks m + 1) (chld c) m;
          Some (Some (Item (jty c) (string_at (jvs c) m) (jvi c) (jvd c) (string_at (jnm c) m) cs)) })"

text \<open>
  The whole record: what stands in the memory afterwards, and the library's state after \<open>log_write\<close> (with
  \<open>FALSE\<close> of \<open>queue.h\<close>, which is 3, as the urgent flag). The text of the event is freed, the event is not.
\<close>

definition record_event ::
  "('h, 's) selog \<Rightarrow> 'h option \<Rightarrow> internal_hooks \<Rightarrow> string \<Rightarrow> string \<Rightarrow> int \<Rightarrow> int \<Rightarrow> string option \<Rightarrow> string list \<Rightarrow>
     jmem \<Rightarrow> 's \<Rightarrow> (jmem \<times> 's) option" where
  "record_event lib hselog hk dnsRet domain uid pid pid_name ips m s =
     (let pname = (case pid_name of None \<Rightarrow> ''Unknown'' | Some x \<Rightarrow> x);
          (ps, m) = place_all (event_names @ [dnsRet, domain, pname] @ ips) m in
      do {
        (event, m) \<leftarrow> make_event (\<lambda>i. ps ! i) (ps ! 6) (ps ! 7) uid pid (ps ! 8) (drop 9 ps) m;
        it \<leftarrow> item_of event m;
        event_str \<leftarrow> cJSON_Print it hk;
        case event_str of
          None \<Rightarrow> Some (m, s)
        | Some block \<Rightarrow> do {
            txt \<leftarrow> c_string block;
            Some (m, snd (snd (log_write lib hselog SELOG_LOG_TYPE_SYSTEM 1 1 SELOG_LOG_LEVEL_MIDDLE 3
              (''Event logged: '' @ txt) s))) } })"

section \<open>The event as a value\<close>

definition text_item :: "string \<Rightarrow> cJSON" where
  "text_item s = Item cJSON_String (Some s) 0 (Fin 0) None []"

definition number_item :: "int \<Rightarrow> cJSON" where
  "number_item i = Item cJSON_Number None i (Fin (of_int i)) None []"

definition event_item :: "string \<Rightarrow> string \<Rightarrow> int \<Rightarrow> int \<Rightarrow> string \<Rightarrow> string list \<Rightarrow> cJSON" where
  "event_item r d u p n ips = Item cJSON_Object None 0 (Fin 0) None
     [named (text_item r) ''DnsRet'', named (text_item d) ''Domain'', named (number_item u) ''UID'', named (number_item p) ''PID'',
      named (text_item n) ''ProcessName'', named (Item cJSON_Array None 0 (Fin 0) None (map text_item ips)) ''IPAddresses'']"

lemma place_all_ok:
  assumes "forest_ok m F vs" "\<forall>s \<in> set ss. no_nul s"
  shows "\<exists>ps m'. place_all ss m = (ps, m') \<and> forest_ok m' F vs \<and> grows m m' \<and> length ps = length ss \<and>
    (\<forall>i < length ss. string_at (ps ! i) m' = Some (ss ! i))"
  using assms
proof (induction ss arbitrary: m)
  case Nil
  then show ?case by (simp add: grows_def)
next
  case (Cons s ss)
  let ?m = "m\<lparr>strs := (strs m)(asks m \<mapsto> s @ [NUL]), asks := asks m + 1\<rparr>"
  have f: "fresh m" and o: "owned m F" and rd: "readable m (concat (map tcells F))" using Cons.prems by (auto simp: forest_ok_def)
  have keep: "\<forall>z. strs m z \<noteq> None \<longrightarrow> strs ?m z = strs m z" using f by (auto simp: fresh_def)
  have g: "grows m ?m" using keep by (simp add: grows_def)
  have "map (tval ?m) F = map (tval m) F" by (rule forest_tval [OF rd keep]) simp
  moreover have "owned ?m F" by (rule owned_cong [OF _ _ o]) simp_all
  moreover have "root_ok ?m t" if "t \<in> set F" for t
    using Cons.prems that by (intro root_ok_keep [OF keep]) (auto simp: forest_ok_def)
  ultimately have F: "forest_ok ?m F vs"
    using Cons.prems f rd keep unfolding forest_ok_def by (auto simp: fresh_def readable_def)
  obtain ps m' where p: "place_all ss ?m = (ps, m')" "forest_ok m' F vs" "grows ?m m'" "length ps = length ss"
    "\<forall>i < length ss. string_at (ps ! i) m' = Some (ss ! i)"
    using Cons.IH [OF F] Cons.prems(2) by auto
  have "string_at (Some (asks m)) ?m = Some s" using Cons.prems(2) by (simp add: string_at_def)
  then have "string_at (Some (asks m)) m' = Some s" by (rule grows_string [OF p(3)])
  then have "\<forall>i < length (s # ss). string_at ((Some (asks m) # ps) ! i) m' = Some ((s # ss) ! i)"
    using p(5) by (simp add: nth_Cons split: nat.split)
  then show ?case using p grows_trans [OF g p(3)] by simp
qed


lemma add_addresses_ok:
  assumes "forest_ok m (Node a ts # F) (v # vs)" "granted m" "list_all2 (\<lambda>p s. string_at p m = Some s) ps ips"
  shows "\<exists>ts' m'. add_addresses (Some a) ps m = Some m' \<and>
    forest_ok m' (Node a ts' # F) (with_kids v (child v @ map text_item ips) # vs) \<and> grows m m'"
  using assms
proof (induction ps arbitrary: m ts v ips)
  case Nil
  then have "ips = []" by simp
  moreover have "with_kids v (child v) = v" by (cases v) (simp add: with_kids_def)
  ultimately show ?case using Nil by (auto simp: grows_def)
next
  case (Cons p ps)
  then obtain s ss where ips: "ips = s # ss" "string_at p m = Some s" "list_all2 (\<lambda>p s. string_at p m = Some s) ps ss"
    by (cases ips) auto
  obtain m1 where m1: "cJSON_CreateString p m = Some (Some (asks m), m1)"
    "forest_ok m1 (Node (asks m) [] # Node a ts # F) (text_item s # v # vs)" "grows m m1"
    using create_string_forest [OF Cons.prems(1,2) ips(2)] by (auto simp: text_item_def)
  obtain m2 where m2: "add_item_to_array (Some a) (Some (asks m)) m1 = Some (True, m2)"
    "forest_ok m2 (Node a (ts @ [Node (asks m) []]) # F) (with_kids v (child v @ [text_item s]) # vs)" "grows m1 m2"
    using forest_add [OF forest_swap [OF m1(2)]] by auto
  have g: "grows m m2" by (rule grows_trans [OF m1(3) m2(3)])
  have "list_all2 (\<lambda>p s. string_at p m2 = Some s) ps ss"
    by (rule list_all2_mono [OF ips(3)]) (rule grows_string [OF g])
  from Cons.IH [OF m2(2) grows_granted [OF g Cons.prems(2)] this] obtain ts' m' where m':
    "add_addresses (Some a) ps m2 = Some m'"
    "forest_ok m' (Node a ts' # F) (with_kids v (child v @ map text_item ips) # vs)" "grows m2 m'"
    by (auto simp: with_kids_def ips)
  show ?case using m1(1) m2(1) m' grows_trans [OF g m'(3)] by (auto simp: cJSON_AddItemToArray_def)
qed

abbreviation obj :: "cJSON list \<Rightarrow> cJSON" where
  "obj cs \<equiv> Item cJSON_Object None 0 (Fin 0) None cs"

lemma add_text_member:
  assumes "forest_ok m (Node e ts # F) (obj cs # vs)" "granted m" "string_at name m = Some nm" "string_at s m = Some x"
  shows "\<exists>r ts' m'. cJSON_AddStringToObject (Some e) name s m = Some (r, m') \<and>
    forest_ok m' (Node e ts' # F) (obj (cs @ [named (text_item x) nm]) # vs) \<and> grows m m'"
  using add_string_forest [OF assms] by (simp add: with_kids_def text_item_def)

lemma add_number_member:
  assumes "forest_ok m (Node e ts # F) (obj cs # vs)" "granted m" "string_at name m = Some nm" "INT_MIN \<le> i" "i \<le> INT_MAX"
  shows "\<exists>r ts' m'. cJSON_AddNumberToObject (Some e) name (dbl_of_int i) m = Some (r, m') \<and>
    forest_ok m' (Node e ts' # F) (obj (cs @ [named (number_item i) nm]) # vs) \<and> grows m m'"
proof -
  have "\<bar>i\<bar> < 2 ^ 53" using assms(4,5) by (simp add: INT_MIN_def INT_MAX_def)
  then have "dbl_of_int i = Fin (of_int i)" by (rule dbl_of_int_eq)
  then show ?thesis
    using add_number_forest [OF assms(1-3) int_of_dbl_int [OF assms(4,5)]] by (simp add: with_kids_def number_item_def)
qed

lemma make_event_ok:
  assumes F: "forest_ok m F vs" and g: "granted m" and n: "\<forall>i < 6. string_at (n i) m = Some (event_names ! i)"
    and r: "string_at dnsRet m = Some r" and d: "string_at domain m = Some d" and pn: "string_at pname m = Some nm"
    and ips: "list_all2 (\<lambda>p s. string_at p m = Some s) ps ips" and u: "INT_MIN \<le> uid" "uid \<le> INT_MAX" "INT_MIN \<le> pid" "pid \<le> INT_MAX"
  shows "\<exists>e ts m'. make_event n dnsRet domain uid pid pname ps m = Some (Some e, m') \<and>
    forest_ok m' (Node e ts # F) (event_item r d uid pid nm ips # vs) \<and> grows m m'"
proof -
  have nn: "string_at (n 0) m = Some ''DnsRet''" "string_at (n 1) m = Some ''Domain''" "string_at (n 2) m = Some ''UID''"
    "string_at (n 3) m = Some ''PID''" "string_at (n 4) m = Some ''ProcessName''" "string_at (n 5) m = Some ''IPAddresses''"
    using n [rule_format, of 0] n [rule_format, of 1] n [rule_format, of 2] n [rule_format, of 3] n [rule_format, of 4]
      n [rule_format, of 5] by (simp_all add: event_names_def numeral_eq_Suc)
  have ty: "\<not> has cJSON_Object cJSON_IsReference" "\<not> has cJSON_Array cJSON_IsReference" "\<not> has cJSON_Array cJSON_StringIsConst"
    by (simp_all add: has_def cJSON_types)
  let ?o = "Item cJSON_Object None 0 (Fin 0) None []" and ?a = "Item cJSON_Array None 0 (Fin 0) None []"
  obtain m1 where m1: "cJSON_CreateObject m = Some (Some (asks m), m1)" "forest_ok m1 (Node (asks m) [] # F) (?o # vs)" "grows m m1"
    using create_forest [OF F g, of "\<lambda>c. c\<lparr>jty := cJSON_Object\<rparr>" ?o] ty by (auto simp: cJSON_CreateObject_def plain_cell_def zero_cell_def)
  let ?e = "asks m"
  note s1 = grows_string [OF m1(3)] and g1 = grows_granted [OF m1(3) g]
  let ?v2 = "[named (text_item r) ''DnsRet'']"
  obtain r2 t2 m2 where m2: "cJSON_AddStringToObject (Some ?e) (n 0) dnsRet m1 = Some (r2, m2)"
    "forest_ok m2 (Node ?e t2 # F) (obj ?v2 # vs)" "grows m1 m2"
    using add_text_member [OF m1(2) g1 s1 [OF nn(1)] s1 [OF r]] by auto
  note x2 = grows_trans [OF m1(3) m2(3)] note s2 = grows_string [OF x2] and g2 = grows_granted [OF x2 g]
  let ?v3 = "[named (text_item r) ''DnsRet'', named (text_item d) ''Domain'']"
  obtain r3 t3 m3 where m3: "cJSON_AddStringToObject (Some ?e) (n 1) domain m2 = Some (r3, m3)"
    "forest_ok m3 (Node ?e t3 # F) (obj ?v3 # vs)" "grows m2 m3"
    using add_text_member [OF m2(2) g2 s2 [OF nn(2)] s2 [OF d]] by auto
  note x3 = grows_trans [OF x2 m3(3)] note s3 = grows_string [OF x3] and g3 = grows_granted [OF x3 g]
  let ?v4 = "[named (text_item r) ''DnsRet'', named (text_item d) ''Domain'', named (number_item uid) ''UID'']"
  obtain r4 t4 m4 where m4: "cJSON_AddNumberToObject (Some ?e) (n 2) (dbl_of_int uid) m3 = Some (r4, m4)"
    "forest_ok m4 (Node ?e t4 # F) (obj ?v4 # vs)" "grows m3 m4"
    using add_number_member [OF m3(2) g3 s3 [OF nn(3)] u(1,2)] by auto
  note x4 = grows_trans [OF x3 m4(3)] note s4 = grows_string [OF x4] and g4 = grows_granted [OF x4 g]
  let ?v5 = "[named (text_item r) ''DnsRet'', named (text_item d) ''Domain'', named (number_item uid) ''UID'', named (number_item pid) ''PID'']"
  obtain r5 t5 m5 where m5: "cJSON_AddNumberToObject (Some ?e) (n 3) (dbl_of_int pid) m4 = Some (r5, m5)"
    "forest_ok m5 (Node ?e t5 # F) (obj ?v5 # vs)" "grows m4 m5"
    using add_number_member [OF m4(2) g4 s4 [OF nn(4)] u(3,4)] by auto
  note x5 = grows_trans [OF x4 m5(3)] note s5 = grows_string [OF x5] and g5 = grows_granted [OF x5 g]
  let ?v6 = "[named (text_item r) ''DnsRet'', named (text_item d) ''Domain'', named (number_item uid) ''UID'', named (number_item pid) ''PID'', named (text_item nm) ''ProcessName'']"
  obtain r6 t6 m6 where m6: "cJSON_AddStringToObject (Some ?e) (n 4) pname m5 = Some (r6, m6)"
    "forest_ok m6 (Node ?e t6 # F) (obj ?v6 # vs)" "grows m5 m6"
    using add_text_member [OF m5(2) g5 s5 [OF nn(5)] s5 [OF pn]] by auto
  note x6 = grows_trans [OF x5 m6(3)] note s6 = grows_string [OF x6] and g6 = grows_granted [OF x6 g]
  obtain m7 where m7: "cJSON_CreateArray m6 = Some (Some (asks m6), m7)"
    "forest_ok m7 (Node (asks m6) [] # Node ?e t6 # F) (?a # obj ?v6 # vs)" "grows m6 m7"
    using create_forest [OF m6(2) g6, of "\<lambda>c. c\<lparr>jty := cJSON_Array\<rparr>" ?a] ty by (auto simp: cJSON_CreateArray_def plain_cell_def zero_cell_def)
  note x7 = grows_trans [OF x6 m7(3)] note s7 = grows_string [OF x7] and g7 = grows_granted [OF x7 g]
  have i7: "list_all2 (\<lambda>p s. string_at p m7 = Some s) ps ips" by (rule list_all2_mono [OF ips]) (rule s7)
  let ?b = "Item cJSON_Array None 0 (Fin 0) None (map text_item ips)"
  obtain t8 m8 where m8: "add_addresses (Some (asks m6)) ps m7 = Some m8"
    "forest_ok m8 (Node (asks m6) t8 # Node ?e t6 # F) (?b # obj ?v6 # vs)" "grows m7 m8"
    using add_addresses_ok [OF m7(2) g7 i7] by (auto simp: with_kids_def)
  note x8 = grows_trans [OF x7 m8(3)] note s8 = grows_string [OF x8] and g8 = grows_granted [OF x8 g]
  obtain m9 where m9: "add_item_to_object (Some ?e) (n 5) (Some (asks m6)) False m8 = Some (True, m9)"
    "forest_ok m9 (Node ?e (t6 @ [Node (asks m6) t8]) # F) (obj (?v6 @ [named ?b ''IPAddresses'']) # vs)" "grows m8 m9"
    using forest_add_named [OF forest_swap [OF m8(2)] g8 s8 [OF nn(6)]] ty by (auto simp: with_kids_def)
  have "make_event n dnsRet domain uid pid pname ps m = Some (Some ?e, m9)"
    unfolding make_event_def by (simp add: m1(1) m2(1) m3(1) m4(1) m5(1) m6(1) m7(1) m8(1) m9(1) cJSON_AddItemToObject_def del: One_nat_def)
  moreover have "event_item r d uid pid nm ips = obj (?v6 @ [named ?b ''IPAddresses''])" by (simp add: event_item_def)
  ultimately show ?thesis using m9(2) grows_trans [OF x8 m9(3)] by auto
qed


section \<open>The text of the event\<close>

lemma item_of_ok:
  assumes "forest_ok m (Node e ts # F) (v # vs)"
  shows "item_of (Some e) m = Some (Some v)"
proof -
  have f: "fresh m" and o: "owned m (Node e ts # F)" and v: "tval m (Node e ts) = v" using assms by (auto simp: forest_ok_def)
  obtain c where c: "cells m e = Some c" and k: "kids m e (map root ts)" and own: "owned m ts" using o by (auto simp: owned_Cons)
  have d: "distinct (concat (map tcells ts))" and l: "\<forall>t \<in> set ts. linked m t" using own by (auto simp: owned_def)
  have "set (concat (map tcells ts)) \<subseteq> {..<asks m}"
  proof
    fix a assume "a \<in> set (concat (map tcells ts))"
    then have "cells m a \<noteq> None" using l linked_alloc by fastforce
    then show "a \<in> {..<asks m}" using f by (auto simp: fresh_def not_le [symmetric])
  qed
  then have "card (set (concat (map tcells ts))) \<le> card {..<asks m}" by (intro card_mono) auto
  then have n: "length (concat (map tcells ts)) < asks m + 1" using distinct_card [OF d] by simp
  have ch: "chld c = first (map root ts) None" "jseg (cells m) (final None (map root ts)) (map root ts) None"
    using k c by (auto simp: kids_def)
  have "read_chain (asks m + 1) (chld c) m = Some (map (tval m) ts)"
    unfolding ch(1) by (rule read_chain_forest [OF n l ch(2)])
  then show ?thesis using c v by (auto simp: item_of_def)
qed

definition fields_ok :: "string \<Rightarrow> string \<Rightarrow> int \<Rightarrow> int \<Rightarrow> string \<Rightarrow> string list \<Rightarrow> bool" where
  "fields_ok r d u p n ips \<longleftrightarrow> no_nul r \<and> length r < 64 \<and> no_nul d \<and> length d < 128 \<and> no_nul n \<and> length n \<le> 255 \<and>
     INT_MIN \<le> u \<and> u \<le> INT_MAX \<and> INT_MIN \<le> p \<and> p \<le> INT_MAX \<and>
     length ips \<le> 32 \<and> (\<forall>s \<in> set ips. length s \<le> 15 \<and> (\<forall>c \<in> set s. is_digit c \<or> c = CHR ''.''))"

lemma quoted_length: "length (quoted (Some s)) \<le> 6 * length s + 2"
proof -
  have "sum_list (map escape_extra s) \<le> 5 * length s" by (induction s) (auto simp: escape_extra_def)
  then show ?thesis by (simp add: quoted_def escape_text_length)
qed

lemma quoted_address: "\<forall>c \<in> set s. is_digit c \<or> c = CHR ''.'' \<Longrightarrow> quoted (Some s) = CHR 0x22 # s @ [CHR 0x22]"
proof -
  assume a: "\<forall>c \<in> set s. is_digit c \<or> c = CHR ''.''"
  have "escape_char c = [c]" if "is_digit c \<or> c = CHR ''.''" for c
    using that by (auto simp: escape_char_def is_digit_def)
  then have "escape_text s = s" using a by (induction s) (auto simp: escape_text_def)
  then show ?thesis by (simp add: quoted_def)
qed

lemma parts_text:
  "json_text f k (text_item s) = Some (quoted (Some s))"
  "json_text f k (named (text_item s) nm) = Some (quoted (Some s))"
  "json_text f k (named (Item cJSON_Array None 0 (Fin 0) None cs) nm) =
     map_option (\<lambda>es. ''['' @ es @ '']'') (elems_text f (Suc k) cs)"
  "json_text True k (obj cs) = map_option (\<lambda>ms. [CHR ''{'', CHR 0x0A] @ ms @ replicate k (CHR 0x09) @ ''}'') (members_text True (Suc k) cs)"
  "cname (named w nm) = Some nm"
  by (simp_all add: text_item_def named_def cJSON_types)

lemma number_member_text:
  assumes "INT_MIN \<le> i" "i \<le> INT_MAX"
  shows "json_text f k (named (number_item i) nm) = Some (show_int i)"
proof -
  have "number_text (Fin (of_int i)) i = show_int i"
    using assms by (intro number_text_int) (simp add: INT_MIN_def INT_MAX_def)
  then show ?thesis using show_int_length [OF assms] by (simp add: number_item_def named_def cJSON_types)
qed

lemma addresses_text:
  "\<forall>s \<in> set ips. length s \<le> 15 \<and> (\<forall>c \<in> set s. is_digit c \<or> c = CHR ''.'') \<Longrightarrow>
     \<exists>t. elems_text True k (map text_item ips) = Some t \<and> length t \<le> 19 * length ips"
proof (induction ips)
  case (Cons s ips)
  then obtain t where "elems_text True k (map text_item ips) = Some t" "length t \<le> 19 * length ips" by auto
  then show ?case using Cons.prems by (auto simp: parts_text quoted_address)
qed simp

lemma event_text:
  assumes "fields_ok r d u p n ips"
  shows "\<exists>t. json_text True 0 (event_item r d u p n ips) = Some t \<and> length t \<le> 4000"
proof -
  note f = assms [unfolded fields_ok_def]
  obtain a where a: "elems_text True 2 (map text_item ips) = Some a" "length a \<le> 608"
    using addresses_text [of ips 2] f by auto
  have num: "length (show_int u) \<le> 11" "length (show_int p) \<le> 11"
    using f show_int_length by auto
  have q: "length (quoted (Some r)) \<le> 380" "length (quoted (Some d)) \<le> 764" "length (quoted (Some n)) \<le> 1532"
    using f quoted_length [of r] quoted_length [of d] quoted_length [of n] by auto
  have k: "length (quoted (Some ''DnsRet'')) \<le> 38" "length (quoted (Some ''Domain'')) \<le> 38" "length (quoted (Some ''UID'')) \<le> 38"
    "length (quoted (Some ''PID'')) \<le> 38" "length (quoted (Some ''ProcessName'')) \<le> 68" "length (quoted (Some ''IPAddresses'')) \<le> 68"
    by (rule order_trans [OF quoted_length]; simp)+
  show ?thesis
    unfolding event_item_def
    using a num f q k by (simp add: parts_text number_member_text numeral_2_eq_2 del: json_text.simps)
qed

lemma event_canon:
  assumes "fields_ok r d u p n ips"
  shows "canon CJSON_NESTING_LIMIT (event_item r d u p n ips)"
proof -
  have "no_nul s" if "s \<in> set ips" for s
    using assms that by (fastforce simp: fields_ok_def no_nul_def)
  then show ?thesis
    using assms
    by (simp add: event_item_def named_def text_item_def number_item_def canon.simps cJSON_types text_ok_def fields_ok_def
        CJSON_NESTING_LIMIT_def list_all_iff no_nul_def)
qed


section \<open>The record\<close>

lemma record_event_ok:
  assumes F: "forest_ok m F vs" and g: "granted m" and h: "\<forall>n. can_alloc hk n"
    and f: "fields_ok r d u p (case pid_name of None \<Rightarrow> ''Unknown'' | Some x \<Rightarrow> x) ips"
  shows "\<exists>t m' e ts. record_event lib hl hk r d u p pid_name ips m s =
      Some (m', snd (snd (log_write lib hl SELOG_LOG_TYPE_SYSTEM 1 1 SELOG_LOG_LEVEL_MIDDLE 3 (''Event logged: '' @ t) s))) \<and>
    cJSON_Parse hk (Some t) =
      Some (Some (event_item r d u p (case pid_name of None \<Rightarrow> ''Unknown'' | Some x \<Rightarrow> x) ips), length t) \<and>
    length t < SELOG_SINGLE_LOG_SIZE - 15 \<and> granted m' \<and>
    forest_ok m' (Node e ts # F) (event_item r d u p (case pid_name of None \<Rightarrow> ''Unknown'' | Some x \<Rightarrow> x) ips # vs)"
proof -
  define nm where "nm = (case pid_name of None \<Rightarrow> ''Unknown'' | Some x \<Rightarrow> x)"
  note f' = f [folded nm_def]
  let ?ss = "event_names @ [r, d, nm] @ ips"
  have nn: "\<forall>s \<in> set ?ss. no_nul s"
  proof
    fix s assume "s \<in> set ?ss"
    then consider "s \<in> set event_names" | "s \<in> {r, d, nm}" | "s \<in> set ips" by auto
    then show "no_nul s"
    proof cases
      case 1
      then show ?thesis by (auto simp: event_names_def no_nul_def)
    next
      case 2
      then show ?thesis using f' by (auto simp: fields_ok_def)
    next
      case 3
      then show ?thesis using f' by (fastforce simp: fields_ok_def no_nul_def)
    qed
  qed
  obtain ps m1 where m1: "place_all ?ss m = (ps, m1)" "forest_ok m1 F vs" "grows m m1" "length ps = length ?ss"
    "\<forall>i < length ?ss. string_at (ps ! i) m1 = Some (?ss ! i)"
    using place_all_ok [OF F nn] by blast
  have six: "length event_names = 6" by (simp add: event_names_def)
  have held: "string_at (ps ! i) m1 = Some (?ss ! i)" if "i < 9 + length ips" for i
    using m1(5) that six by simp
  have names: "\<forall>i < 6. string_at (ps ! i) m1 = Some (event_names ! i)"
    using held six by (simp add: nth_append)
  have three: "string_at (ps ! 6) m1 = Some r" "string_at (ps ! 7) m1 = Some d" "string_at (ps ! 8) m1 = Some nm"
    using held [of 6] held [of 7] held [of 8] six by (simp_all add: nth_append)
  have rest: "list_all2 (\<lambda>p s. string_at p m1 = Some s) (drop 9 ps) ips"
    using held m1(4) six by (auto simp: list_all2_conv_all_nth nth_append)
  have ints: "INT_MIN \<le> u" "u \<le> INT_MAX" "INT_MIN \<le> p" "p \<le> INT_MAX" using f' by (simp_all add: fields_ok_def)
  obtain e ts m2 where m2: "make_event (\<lambda>i. ps ! i) (ps ! 6) (ps ! 7) u p (ps ! 8) (drop 9 ps) m1 = Some (Some e, m2)"
    "forest_ok m2 (Node e ts # F) (event_item r d u p nm ips # vs)" "grows m1 m2"
    using make_event_ok [OF m1(2) grows_granted [OF m1(3) g] names three rest ints] by blast
  obtain t where t: "json_text True 0 (event_item r d u p nm ips) = Some t" "length t \<le> 4000"
    using event_text [OF f'] by blast
  have c: "canon CJSON_NESTING_LIMIT (event_item r d u p nm ips)" by (rule event_canon [OF f'])
  have pr: "cJSON_Print (Some (event_item r d u p nm ips)) hk = Some (Some (t @ [NUL]))"
    unfolding cJSON_Print_def using print_text [OF canon_item_ok [OF c] h t(1)] t(2) by (simp add: IMAX_def)
  have parsed_back: "cJSON_Parse hk (Some t) = Some (Some (event_item r d u p nm ips), length t)"
    by (rule parse_back [OF c _ t(1) h]) (simp add: event_item_def)
  have "no_nul t" using json_text_no_nul(1) [OF t(1) canon_item_ok [OF c]] .
  then have cs: "c_string (t @ [NUL]) = Some t" using c_string_terminated [of t "[]"] by simp
  have "record_event lib hl hk r d u p pid_name ips m s =
      Some (m2, snd (snd (log_write lib hl SELOG_LOG_TYPE_SYSTEM 1 1 SELOG_LOG_LEVEL_MIDDLE 3 (''Event logged: '' @ t) s)))"
    unfolding record_event_def nm_def [symmetric]
    by (simp only: Let_def m1(1) m2(1) item_of_ok [OF m2(2)] pr cs prod.case option.case bind.simps)
  moreover have "length t < SELOG_SINGLE_LOG_SIZE - 15" using t(2) by (simp add: SELOG_SINGLE_LOG_SIZE_def)
  moreover have "granted m2" by (rule grows_granted [OF grows_trans [OF m1(3) m2(3)] g])
  ultimately show ?thesis unfolding nm_def [symmetric] using parsed_back m2(2) by blast
qed

end
