(* ===== verification/Xdb.thy ===== *)
theory Xdb
  imports Prelude "HOL-Library.Signed_Division"
begin

text \<open>
  The ip2region database reader of \<open>xdb_searcher.c\<close>: little-endian decoding, the three ways to
  open a searcher (file, file with the cached vector index, whole content in memory), the reads
  behind them, the two-level search (vector index, then binary search in the segment index), the
  loaders, and the conversion between dotted strings and 32-bit addresses. A read outside a
  buffer, a NULL handle and a signed overflow are \<open>None\<close>; every error code of the source is a
  value. A \<open>FILE\<close> is its bytes and position; \<open>malloc\<close> and \<open>fopen\<close> outcomes are arguments.
\<close>

section \<open>Constants, files and structures\<close>

definition xdb_header_info_length :: nat where "xdb_header_info_length = 256"
definition xdb_vector_index_rows :: nat where "xdb_vector_index_rows = 256"
definition xdb_vector_index_cols :: nat where "xdb_vector_index_cols = 256"
definition xdb_vector_index_size :: nat where "xdb_vector_index_size = 8"
definition xdb_segment_index_size :: nat where "xdb_segment_index_size = 14"
definition xdb_vector_index_length :: nat where "xdb_vector_index_length = 524288"

lemmas xdb_consts = xdb_header_info_length_def xdb_vector_index_rows_def xdb_vector_index_cols_def
  xdb_vector_index_size_def xdb_segment_index_size_def xdb_vector_index_length_def

text \<open>
  A stdio stream on a regular file or, when it is not seekable, on a pipe. A read is short when it
  meets the end of the bytes, or the first byte that the device cannot deliver (\<open>freadable\<close>).
\<close>

record FILE =
  fbytes :: "byte list"
  fpos :: nat
  freadable :: nat
  fseekable :: bool

definition fseek :: "FILE \<Rightarrow> nat \<Rightarrow> FILE option" where
  "fseek f off = (if fseekable f then Some (f\<lparr>fpos := off\<rparr>) else None)"

definition fread :: "FILE \<Rightarrow> nat \<Rightarrow> byte list \<times> FILE" where
  "fread f n = (let got = take n (drop (fpos f) (take (freadable f) (fbytes f))) in (got, f\<lparr>fpos := fpos f + length got\<rparr>))"

record xdb_header =
  version :: u16
  index_policy :: u16
  created_at :: u32
  start_index_ptr :: u32
  end_index_ptr :: u32
  header_length :: u32
  header_buffer :: "byte list"

record xdb_vector_index =
  vlength :: u32
  vbuffer :: "byte list"

record xdb_content =
  clength :: u32
  cbuffer :: "byte list"

record xdb_searcher =
  handle :: "FILE option"
  io_count :: nat
  v_index :: "xdb_vector_index option"
  content :: "xdb_content option"

section \<open>Decoding\<close>

text \<open>
  A \<open>char\<close> of the buffer is promoted to \<open>int\<close> with its sign; the masks cut the sign bits off again. The code shifts
  that \<open>int\<close> to the left even when it is negative, or into its sign bit, which C leaves undefined. Here the bits that leave the
  word are lost, as on all machines in use; every database has such bytes.
\<close>

definition xdb_get_uint :: "byte list \<Rightarrow> nat \<Rightarrow> u32 option" where
  "xdb_get_uint buffer offset =
     (if offset + 3 < length buffer
      then Some ((scast (buffer ! offset) AND 0x000000FF) OR
                 (push_bit 8 (scast (buffer ! (offset + 1))) AND 0x0000FF00) OR
                 (push_bit 16 (scast (buffer ! (offset + 2))) AND 0x00FF0000) OR
                 (push_bit 24 (scast (buffer ! (offset + 3))) AND 0xFF000000))
      else None)"

definition xdb_get_ushort :: "byte list \<Rightarrow> nat \<Rightarrow> u32 option" where
  "xdb_get_ushort buffer offset =
     (if offset + 1 < length buffer
      then Some ((scast (buffer ! offset) AND 0x000000FF) OR
                 (push_bit 8 (scast (buffer ! (offset + 1))) AND 0x0000FF00))
      else None)"

text \<open>The value of bytes in little-endian order.\<close>

fun le_val :: "byte list \<Rightarrow> nat" where
  "le_val [] = 0"
| "le_val (b # bs) = unat b + 256 * le_val bs"

lemma le_val_bound: "le_val bs < 256 ^ length bs"
proof (induction bs)
  case (Cons b bs)
  have "le_val (b # bs) < 256 + 256 * le_val bs" using unat_byte_less [of b] by simp
  also have "\<dots> \<le> 256 * 256 ^ length bs" using Cons by simp
  finally show ?case by simp
qed simp

lemma le_val_word:
  "unat (ucast a OR push_bit 8 (ucast b) :: u32) = le_val [a, b]"
  "unat (ucast a OR push_bit 8 (ucast b) OR push_bit 16 (ucast c) OR push_bit 24 (ucast d) :: u32) =
    le_val [a, b, c, d]"
proof -
  have bounds: "le_val [d] < 2 ^ 24" "le_val [c, d] < 2 ^ 24" "le_val [b, c, d] < 2 ^ 24" "le_val [b] < 2 ^ 24"
    using le_val_bound [of "[d]"] le_val_bound [of "[c, d]"] le_val_bound [of "[b, c, d]"]
      le_val_bound [of "[b]"] by simp_all
  have "(ucast a OR push_bit 8 (ucast b) OR push_bit 16 (ucast c) OR push_bit 24 (ucast d) :: u32) =
      ucast a OR push_bit 8 (ucast b OR push_bit 8 (ucast c OR push_bit 8 (ucast d)))"
    by (simp add: push_bit_or or.assoc)
  then show "unat (ucast a OR push_bit 8 (ucast b) OR push_bit 16 (ucast c) OR push_bit 24 (ucast d) :: u32) =
      le_val [a, b, c, d]"
    using bounds by (simp add: byte_or unat_byte_cons)
  show "unat (ucast a OR push_bit 8 (ucast b) :: u32) = le_val [a, b]"
    using bounds by (simp add: byte_or unat_byte_cons)
qed

lemma take4: "i + 3 < length xs \<Longrightarrow> take 4 (drop i xs) = [xs ! i, xs ! (i + 1), xs ! (i + 2), xs ! (i + 3)]"
  by (rule nth_equalityI) (auto simp: nth_Cons' numeral_eq_Suc less_Suc_eq)

lemma take2: "i + 1 < length xs \<Longrightarrow> take 2 (drop i xs) = [xs ! i, xs ! (i + 1)]"
  by (rule nth_equalityI) (auto simp: nth_Cons' numeral_eq_Suc less_Suc_eq)

lemma xdb_get_uint_le:
  "i + 3 < length buf \<Longrightarrow> xdb_get_uint buf i = Some (of_nat (le_val (take 4 (drop i buf))))"
  by (simp add: xdb_get_uint_def take4 word_unat_eq_iff le_val_word [symmetric] del: le_val.simps)

lemma xdb_get_ushort_le:
  "i + 1 < length buf \<Longrightarrow> xdb_get_ushort buf i = Some (of_nat (le_val (take 2 (drop i buf))))"
  by (simp add: xdb_get_ushort_def take2 word_unat_eq_iff le_val_word [symmetric] del: le_val.simps)

section \<open>Opening, reading and closing\<close>

text \<open>
  \<open>fs\<close> is what \<open>fopen(db_path, "rb")\<close> gives for a path. The searcher is overwritten whole
  (\<open>memset\<close>), so the result does not depend on what it held.
\<close>

definition zero_searcher :: xdb_searcher where
  "zero_searcher = \<lparr>handle = None, io_count = 0, v_index = None, content = None\<rparr>"

definition xdb_new_base :: "(string \<Rightarrow> FILE option) \<Rightarrow> string \<Rightarrow> xdb_vector_index option \<Rightarrow>
    xdb_content option \<Rightarrow> int \<times> xdb_searcher" where
  "xdb_new_base fs db_path vi c_buffer =
     (let xdb = zero_searcher in
      if c_buffer \<noteq> None then (0, xdb\<lparr>v_index := None, content := c_buffer\<rparr>)
      else (case fs db_path of
              None \<Rightarrow> (1, xdb)
            | Some f \<Rightarrow> (0, xdb\<lparr>handle := Some f, v_index := vi\<rparr>)))"

definition xdb_new_with_file_only :: "(string \<Rightarrow> FILE option) \<Rightarrow> string \<Rightarrow> int \<times> xdb_searcher" where
  "xdb_new_with_file_only fs db_path = xdb_new_base fs db_path None None"

definition xdb_new_with_vector_index ::
  "(string \<Rightarrow> FILE option) \<Rightarrow> string \<Rightarrow> xdb_vector_index option \<Rightarrow> int \<times> xdb_searcher" where
  "xdb_new_with_vector_index fs db_path vi = xdb_new_base fs db_path vi None"

text \<open>The path is NULL here; \<open>fopen(NULL, ..)\<close> is reached only with a NULL content and fails.\<close>

definition xdb_new_with_buffer :: "xdb_content option \<Rightarrow> int \<times> xdb_searcher" where
  "xdb_new_with_buffer c_buffer = xdb_new_base (\<lambda>_. None) [] None c_buffer"

definition xdb_close :: "xdb_searcher \<Rightarrow> xdb_searcher" where
  "xdb_close xdb = (if handle xdb \<noteq> None then xdb\<lparr>handle := None\<rparr> else xdb)"

text \<open>
  \<open>read\<close>: the error code, the bytes put at the start of the caller's buffer, and the searcher
  after it.
\<close>

definition xdb_read :: "xdb_searcher \<Rightarrow> nat \<Rightarrow> nat \<Rightarrow> (int \<times> byte list \<times> xdb_searcher) option" where
  "xdb_read xdb offset len =
     (case content xdb of
        Some c \<Rightarrow>
          if offset + len \<le> length (cbuffer c) then Some (0, take len (drop offset (cbuffer c)), xdb) else None
      | None \<Rightarrow>
          (case handle xdb of
             None \<Rightarrow> None
           | Some f \<Rightarrow>
               (case fseek f offset of
                  None \<Rightarrow> Some (1, [], xdb)
                | Some f' \<Rightarrow>
                    (let xdb = xdb\<lparr>io_count := io_count xdb + 1\<rparr>;
                         (got, f'') = fread f' len;
                         xdb = xdb\<lparr>handle := Some f''\<rparr> in
                     if length got \<noteq> len then Some (2, got, xdb) else Some (0, got, xdb)))))"

definition xdb_get_io_count :: "xdb_searcher \<Rightarrow> nat" where
  "xdb_get_io_count xdb = io_count xdb"

section \<open>Searching\<close>

text \<open>
  The first half of \<open>xdb_search\<close>: the vector index row at byte \<open>idx\<close> gives the first and the
  last pointer of the segment block.
\<close>

definition xdb_vector_ptrs :: "xdb_searcher \<Rightarrow> nat \<Rightarrow> ((int + u32 \<times> u32) \<times> xdb_searcher) option" where
  "xdb_vector_ptrs xdb idx =
     (case v_index xdb of
        Some v \<Rightarrow> do {
          s_ptr \<leftarrow> xdb_get_uint (vbuffer v) idx;
          e_ptr \<leftarrow> xdb_get_uint (vbuffer v) (idx + 4);
          Some (Inr (s_ptr, e_ptr), xdb) }
      | None \<Rightarrow>
          (case content xdb of
             Some c \<Rightarrow> do {
               s_ptr \<leftarrow> xdb_get_uint (cbuffer c) (xdb_header_info_length + idx);
               e_ptr \<leftarrow> xdb_get_uint (cbuffer c) (xdb_header_info_length + idx + 4);
               Some (Inr (s_ptr, e_ptr), xdb) }
           | None \<Rightarrow> do {
               (err, vector_buffer, xdb) \<leftarrow> xdb_read xdb (xdb_header_info_length + idx) xdb_vector_index_size;
               if err \<noteq> 0 then Some (Inl (10 + err), xdb)
               else do {
                 s_ptr \<leftarrow> xdb_get_uint vector_buffer 0;
                 e_ptr \<leftarrow> xdb_get_uint vector_buffer 4;
                 Some (Inr (s_ptr, e_ptr), xdb) } }))"

text \<open>The binary search: the data length and pointer of the hit, 0 and 0 for no hit.\<close>

function xdb_search_loop ::
  "xdb_searcher \<Rightarrow> u32 \<Rightarrow> u32 \<Rightarrow> int \<Rightarrow> int \<Rightarrow> ((int + u32 \<times> u32) \<times> xdb_searcher) option" where
  "xdb_search_loop xdb ip s_ptr l h =
     (if l \<le> h then
        (let m = (l + h) div 2;
             p = s_ptr + of_int (m * int xdb_segment_index_size) in
         do {
           (err, segment_buffer, xdb) \<leftarrow> xdb_read xdb (unat p) xdb_segment_index_size;
           if err \<noteq> 0 then Some (Inl (20 + err), xdb)
           else do {
             sip \<leftarrow> xdb_get_uint segment_buffer 0;
             if ip < sip then xdb_search_loop xdb ip s_ptr l (m - 1)
             else do {
               eip \<leftarrow> xdb_get_uint segment_buffer 4;
               if ip > eip then xdb_search_loop xdb ip s_ptr (m + 1) h
               else do {
                 data_len \<leftarrow> xdb_get_ushort segment_buffer 8;
                 data_ptr \<leftarrow> xdb_get_uint segment_buffer 10;
                 Some (Inr (data_len, data_ptr), xdb) } } } })
      else Some (Inr (0, 0), xdb))"
  by pat_completeness auto
termination
  by (relation "measure (\<lambda>(xdb, ip, s_ptr, l, h). nat (h - l + 1))") auto

declare xdb_search_loop.simps [simp del]

definition ip_row :: "u32 \<Rightarrow> nat" where
  "ip_row ip =
     (let il0 = unat (drop_bit 24 ip AND 0xFF); il1 = unat (drop_bit 16 ip AND 0xFF) in
      il0 * xdb_vector_index_cols * xdb_vector_index_size + il1 * xdb_vector_index_size)"

definition xdb_search ::
  "xdb_searcher \<Rightarrow> u32 \<Rightarrow> byte list \<Rightarrow> nat \<Rightarrow> (int \<times> byte list \<times> xdb_searcher) option" where
  "xdb_search xdb ip region_buffer len =
     (let xdb = xdb\<lparr>io_count := 0\<rparr>; idx = ip_row ip in
      do {
        (ptrs, xdb) \<leftarrow> xdb_vector_ptrs xdb idx;
        case ptrs of
          Inl err \<Rightarrow> Some (err, region_buffer, xdb)
        | Inr (s_ptr, e_ptr) \<Rightarrow> do {
            (found, xdb) \<leftarrow> xdb_search_loop xdb ip s_ptr 0 (sint (e_ptr - s_ptr) sdiv int xdb_segment_index_size);
            case found of
              Inl err \<Rightarrow> Some (err, region_buffer, xdb)
            | Inr (data_len, data_ptr) \<Rightarrow>
                if data_len = 0 then do {
                  region_buffer \<leftarrow> write_at region_buffer 0 [0];
                  Some (0, region_buffer, xdb) }
                else if sint data_len \<ge> sint (of_nat len :: u32) then Some (1, region_buffer, xdb)
                else do {
                  (err, got, xdb) \<leftarrow> xdb_read xdb (unat data_ptr) (unat data_len);
                  region_buffer \<leftarrow> write_at region_buffer 0 got;
                  if err \<noteq> 0 then Some (30 + err, region_buffer, xdb)
                  else do {
                    region_buffer \<leftarrow> write_at region_buffer (unat data_len) [0];
                    Some (0, region_buffer, xdb) } } } })"

section \<open>The database as a table\<close>

text \<open>
  What a database image means, without searching: a block of segments per vector row, each with
  its first and last address and where its text lies. The end pointer of the row may already
  point behind the last record of the file; that entry is then not a segment.
\<close>

record segment =
  seg_sip :: u32
  seg_eip :: u32
  seg_len :: u32
  seg_ptr :: u32

definition u32_at :: "byte list \<Rightarrow> nat \<Rightarrow> u32" where
  "u32_at img i = of_nat (le_val (take 4 (drop i img)))"

definition u16_at :: "byte list \<Rightarrow> nat \<Rightarrow> u32" where
  "u16_at img i = of_nat (le_val (take 2 (drop i img)))"

definition segment_at :: "byte list \<Rightarrow> nat \<Rightarrow> segment" where
  "segment_at img i = \<lparr>seg_sip = u32_at img i, seg_eip = u32_at img (i + 4),
     seg_len = u16_at img (i + 8), seg_ptr = u32_at img (i + 10)\<rparr>"

definition row_start :: "byte list \<Rightarrow> u32 \<Rightarrow> nat" where
  "row_start img ip = unat (u32_at img (xdb_header_info_length + ip_row ip))"

definition row_end :: "byte list \<Rightarrow> u32 \<Rightarrow> nat" where
  "row_end img ip = unat (u32_at img (xdb_header_info_length + ip_row ip + 4))"

definition row_segments :: "byte list \<Rightarrow> u32 \<Rightarrow> segment list" where
  "row_segments img ip =
     map (\<lambda>i. segment_at img (row_start img ip + 14 * i))
       [0..<min (Suc ((row_end img ip - row_start img ip) div 14)) ((length img - row_start img ip) div 14)]"

definition in_segment :: "u32 \<Rightarrow> segment \<Rightarrow> bool" where
  "in_segment ip sg \<longleftrightarrow> seg_sip sg \<le> ip \<and> ip \<le> seg_eip sg"

definition segments_sorted :: "segment list \<Rightarrow> bool" where
  "segments_sorted sgs \<longleftrightarrow> (\<forall>sg \<in> set sgs. seg_sip sg \<le> seg_eip sg) \<and> sorted_wrt (\<lambda>a b. seg_eip a < seg_sip b) sgs"

text \<open>A linear scan of the segments of the address's row: the text of the hit, nothing for no hit.\<close>

definition region_of :: "byte list \<Rightarrow> u32 \<Rightarrow> byte list" where
  "region_of img ip =
     (case find (in_segment ip) (row_segments img ip) of
        None \<Rightarrow> []
      | Some sg \<Rightarrow> take (unat (seg_len sg)) (drop (unat (seg_ptr sg)) img))"

text \<open>What the search relies on: the row lies in the image, its segments are sorted, texts lie in the image.\<close>

definition row_ok :: "byte list \<Rightarrow> u32 \<Rightarrow> bool" where
  "row_ok img ip \<longleftrightarrow>
     xdb_header_info_length + xdb_vector_index_length \<le> length img \<and> length img < 2 ^ 32 \<and>
     row_start img ip \<le> row_end img ip \<and> row_end img ip - row_start img ip < 2 ^ 31 \<and>
     row_end img ip \<le> length img \<and>
     segments_sorted (row_segments img ip) \<and>
     (row_end img ip + 14 \<le> length img \<or> (\<exists>sg \<in> set (row_segments img ip). in_segment ip sg)) \<and>
     (\<forall>sg \<in> set (row_segments img ip). unat (seg_ptr sg) + unat (seg_len sg) \<le> length img)"

lemma u32_at_get: "i + 4 \<le> length img \<Longrightarrow> xdb_get_uint img i = Some (u32_at img i)"
  by (simp add: xdb_get_uint_le u32_at_def)

lemma u16_at_get: "i + 2 \<le> length img \<Longrightarrow> xdb_get_ushort img i = Some (u16_at img i)"
  by (simp add: xdb_get_ushort_le u16_at_def)

text \<open>A record read into a buffer of its own is decoded as the image is at its place.\<close>

lemma get_of_slice:
  assumes "off + n \<le> length img"
  shows "i + 4 \<le> n \<Longrightarrow> xdb_get_uint (take n (drop off img)) i = Some (u32_at img (off + i))"
    and "i + 2 \<le> n \<Longrightarrow> xdb_get_ushort (take n (drop off img)) i = Some (u16_at img (off + i))"
proof -
  have sl: "take k (drop i (take n (drop off img))) = take k (drop (off + i) img)" if "i + k \<le> n" for k
    using that by (simp add: drop_take min_def add.commute)
  show "i + 4 \<le> n \<Longrightarrow> xdb_get_uint (take n (drop off img)) i = Some (u32_at img (off + i))"
    using assms by (simp add: u32_at_get) (simp add: u32_at_def sl)
  show "i + 2 \<le> n \<Longrightarrow> xdb_get_ushort (take n (drop off img)) i = Some (u16_at img (off + i))"
    using assms by (subst u16_at_get) (simp_all add: u16_at_def sl)
qed

lemma ip_row_bound: "ip_row ip + 8 \<le> xdb_vector_index_length"
proof -
  have le: "unat (w AND 0xFF :: u32) \<le> 255" for w :: u32
    using word_and_le1 [of w "0xFF"] by (simp add: word_le_nat_alt)
  show ?thesis
    using le [of "drop_bit 24 ip"] le [of "drop_bit 16 ip"] by (simp add: ip_row_def Let_def xdb_consts)
qed

lemma sint_u16_at: "sint (u16_at img i) = int (unat (u16_at img i))" "unat (u16_at img i) < 65536"
proof -
  have "le_val (take 2 (drop i img)) < 256 ^ length (take 2 (drop i img))" by (rule le_val_bound)
  also have "\<dots> \<le> 256 ^ 2" by (intro power_increasing) auto
  finally show b: "unat (u16_at img i) < 65536" by (simp add: u16_at_def)
  show "sint (u16_at img i) = int (unat (u16_at img i))" using b by (intro sint_small) simp
qed

lemma find_in_sorted:
  assumes "segments_sorted sgs" "i < length sgs" "in_segment ip (sgs ! i)"
  shows "find (in_segment ip) sgs = Some (sgs ! i)"
proof -
  have "\<not> in_segment ip (sgs ! j)" if "j < i" for j
  proof -
    have "seg_eip (sgs ! j) < seg_sip (sgs ! i)"
      using assms that by (auto simp: segments_sorted_def intro: sorted_wrt_nth_less)
    then show ?thesis using assms(3) by (auto simp: in_segment_def)
  qed
  then show ?thesis using assms by (auto simp: find_Some_iff)
qed

lemma segments_sorted_mono:
  assumes "segments_sorted sgs" "i < j" "j < length sgs"
  shows "seg_eip (sgs ! i) < seg_sip (sgs ! j)"
  using assms by (auto simp: segments_sorted_def intro: sorted_wrt_nth_less)

lemma segments_sorted_seg:
  "segments_sorted sgs \<Longrightarrow> i < length sgs \<Longrightarrow> seg_sip (sgs ! i) \<le> seg_eip (sgs ! i)"
  by (auto simp: segments_sorted_def)

text \<open>The address of entry \<open>m\<close>, computed with wrap-around in the code, is the entry's offset.\<close>

lemma entry_offset:
  assumes "unat (s :: u32) + 14 * nat m + 14 \<le> n" "n < 2 ^ 32" "0 \<le> m"
  shows "unat (s + of_int (m * int xdb_segment_index_size)) = unat s + 14 * nat m"
proof -
  have "of_nat (14 * nat m) = (of_int (int (14 * nat m)) :: u32)" by (simp only: of_int_of_nat_eq)
  then have m: "(of_int (m * int xdb_segment_index_size) :: u32) = of_nat (14 * nat m)"
    using assms(3) by (simp add: xdb_consts algebra_simps)
  have "unat (of_nat (14 * nat m) :: u32) = 14 * nat m" using assms by (intro unat_of_nat_u32) simp
  moreover have "unat s + 14 * nat m < 2 ^ LENGTH(32)" using assms by simp
  ultimately show ?thesis unfolding m by (metis unat_add_lem)
qed

lemma row_segments_nth:
  "i < length (row_segments img ip) \<Longrightarrow> row_segments img ip ! i = segment_at img (row_start img ip + 14 * i)"
  by (simp add: row_segments_def)

lemma row_segments_bounds:
  assumes "row_ok img ip"
  shows "length (row_segments img ip) \<le> (length img - row_start img ip) div 14"
    and "(row_end img ip - row_start img ip) div 14 \<le> length (row_segments img ip)"
    and "row_end img ip + 14 \<le> length img \<Longrightarrow>
      (row_end img ip - row_start img ip) div 14 < length (row_segments img ip)"
proof -
  have r: "row_start img ip \<le> row_end img ip" "row_end img ip \<le> length img"
    using assms by (auto simp: row_ok_def)
  then show "length (row_segments img ip) \<le> (length img - row_start img ip) div 14"
    "(row_end img ip - row_start img ip) div 14 \<le> length (row_segments img ip)"
    by (auto simp: row_segments_def intro!: div_le_mono)
  assume e: "row_end img ip + 14 \<le> length img"
  have "Suc ((row_end img ip - row_start img ip) div 14) = (row_end img ip - row_start img ip + 14) div 14" by simp
  also have "\<dots> \<le> (length img - row_start img ip) div 14" using r e by (intro div_le_mono) simp
  finally show "(row_end img ip - row_start img ip) div 14 < length (row_segments img ip)"
    by (simp add: row_segments_def)
qed

text \<open>The entry count that the code computes from the two pointers, in signed arithmetic.\<close>

lemma row_count:
  assumes "row_ok img ip"
  shows "sint (u32_at img (xdb_header_info_length + ip_row ip + 4) - u32_at img (xdb_header_info_length + ip_row ip))
      sdiv int xdb_segment_index_size = int ((row_end img ip - row_start img ip) div 14)"
proof -
  let ?s = "u32_at img (xdb_header_info_length + ip_row ip)"
  let ?e = "u32_at img (xdb_header_info_length + ip_row ip + 4)"
  have u: "unat (?e - ?s) = row_end img ip - row_start img ip"
    using assms by (simp add: row_ok_def row_start_def row_end_def unat_sub word_le_nat_alt)
  then have "sint (?e - ?s) = int (row_end img ip - row_start img ip)"
    using assms by (subst sint_small) (simp_all add: row_ok_def)
  then show ?thesis
    by (cases "row_end img ip - row_start img ip") (simp_all add: xdb_consts signed_divide_int_def zdiv_int)
qed

text \<open>What a search leaves for the text \<open>txt\<close> of the hit: the code and the region buffer.\<close>

definition region_answer :: "byte list \<Rightarrow> byte list \<Rightarrow> nat \<Rightarrow> int \<times> byte list" where
  "region_answer txt region_buffer len =
     (if txt \<noteq> [] \<and> len \<le> length txt then (1, region_buffer)
      else (0, txt @ 0 # drop (length txt + 1) region_buffer))"

lemma write_text:
  assumes "length txt < length mem"
  shows "write_at mem 0 txt = Some (txt @ drop (length txt) mem)"
    and "write_at (txt @ drop (length txt) mem) (length txt) [0] = Some (txt @ 0 # drop (length txt + 1) mem)"
  using assms by (simp_all add: write_at_def)

section \<open>The interface of a readable database\<close>

text \<open>
  What the search uses of a searcher: reads inside the image deliver the image's bytes, the row
  of the vector index is the image's row, and setting the counter does not matter. The search is
  proved once from these laws; the three ways to open a searcher provide them.
\<close>

locale xdb_source =
  fixes ok :: "byte list \<Rightarrow> xdb_searcher \<Rightarrow> bool"
  assumes read_ok: "ok img x \<Longrightarrow> off + n \<le> length img \<Longrightarrow>
      \<exists>x'. xdb_read x off n = Some (0, take n (drop off img), x') \<and> ok img x'"
    and vector_ok: "ok img x \<Longrightarrow> xdb_header_info_length + xdb_vector_index_length \<le> length img \<Longrightarrow>
      idx + 8 \<le> xdb_vector_index_length \<Longrightarrow>
      \<exists>x'. xdb_vector_ptrs x idx = Some (Inr (u32_at img (xdb_header_info_length + idx),
             u32_at img (xdb_header_info_length + idx + 4)), x') \<and> ok img x'"
    and reset_ok: "ok img x \<Longrightarrow> ok img (x\<lparr>io_count := k\<rparr>)"
begin

lemma loop_step:
  assumes "ok img x" "0 \<le> l" "l \<le> h" "length img < 2 ^ 32"
    and "unat s + 14 * nat ((l + h) div 2) + 14 \<le> length img"
  shows "\<exists>x'. ok img x' \<and> xdb_search_loop x ip s l h =
    (let m = (l + h) div 2; sg = segment_at img (unat s + 14 * nat m) in
     if ip < seg_sip sg then xdb_search_loop x' ip s l (m - 1)
     else if seg_eip sg < ip then xdb_search_loop x' ip s (m + 1) h
     else Some (Inr (seg_len sg, seg_ptr sg), x'))"
proof -
  let ?m = "(l + h) div 2"
  let ?o = "unat s + 14 * nat ?m"
  have o: "unat (s + of_int (?m * int xdb_segment_index_size)) = ?o"
    using assms by (intro entry_offset) auto
  obtain x' where x': "xdb_read x ?o 14 = Some (0, take 14 (drop ?o img), x')" "ok img x'"
    using read_ok assms by blast
  have g: "xdb_get_uint (take 14 (drop ?o img)) 0 = Some (u32_at img ?o)"
    "xdb_get_uint (take 14 (drop ?o img)) 4 = Some (u32_at img (?o + 4))"
    "xdb_get_ushort (take 14 (drop ?o img)) 8 = Some (u16_at img (?o + 8))"
    "xdb_get_uint (take 14 (drop ?o img)) 10 = Some (u32_at img (?o + 10))"
    using assms(5) get_of_slice [of ?o 14 img 0] get_of_slice [of ?o 14 img 4]
      get_of_slice [of ?o 14 img 8] get_of_slice [of ?o 14 img 10] by simp_all
  have sz: "xdb_segment_index_size = 14" by (simp add: xdb_consts)
  show ?thesis
    using assms(3) x'(2) unfolding xdb_search_loop.simps [of x ip s l h] Let_def o
    by (intro exI [of _ x']) (simp add: sz x'(1) g segment_at_def)
qed

lemma loop_ok:
  assumes "ok img x" and len: "length img < 2 ^ 32"
    and fits: "length sgs \<le> (length img - unat s) div 14"
    and sgs: "\<And>i. i < length sgs \<Longrightarrow> sgs ! i = segment_at img (unat s + 14 * i)"
    and sorted: "segments_sorted sgs"
    and "0 \<le> l" "h \<le> int (length sgs)"
    and "h < int (length sgs) \<or> (\<exists>t<length sgs. l \<le> int t \<and> in_segment ip (sgs ! t))"
    and "\<forall>i<length sgs. int i < l \<longrightarrow> seg_eip (sgs ! i) < ip"
    and "\<forall>i<length sgs. h < int i \<longrightarrow> ip < seg_sip (sgs ! i)"
  shows "\<exists>x'. ok img x' \<and> xdb_search_loop x ip s l h =
    Some (Inr (case find (in_segment ip) sgs of None \<Rightarrow> (0, 0) | Some sg \<Rightarrow> (seg_len sg, seg_ptr sg)), x')"
  using assms(1,6-10)
proof (induction "nat (h - l + 1)" arbitrary: x l h rule: less_induct)
  case less
  let ?m = "(l + h) div 2"
  show ?case
  proof (cases "l \<le> h")
    case False
    have h: "h < int (length sgs)" using less.prems(3,4) False by force
    have "\<not> in_segment ip (sgs ! i)" if "i < length sgs" for i
      using less.prems(5,6) that False by (cases "int i < l") (force simp: in_segment_def)+
    then have "find (in_segment ip) sgs = None" by (auto simp: find_None_iff in_set_conv_nth)
    then show ?thesis using False less.prems(1) by (auto simp: xdb_search_loop.simps [of x])
  next
    case True
    have m: "l \<le> ?m" "?m \<le> h" "0 \<le> ?m" using True less.prems(2) by auto
    have mlen: "?m < int (length sgs)" using less.prems(3,4) True m by force
    then have ml: "nat ?m < length sgs" using m by simp
    have "14 * Suc (nat ?m) \<le> 14 * ((length img - unat s) div 14)" using ml fits by simp
    also have "\<dots> \<le> length img - unat s" by simp
    finally have fit: "unat s + 14 * nat ?m + 14 \<le> length img" by simp
    obtain x' where x': "ok img x'" "xdb_search_loop x ip s l h =
        (if ip < seg_sip (sgs ! nat ?m) then xdb_search_loop x' ip s l (?m - 1)
         else if seg_eip (sgs ! nat ?m) < ip then xdb_search_loop x' ip s (?m + 1) h
         else Some (Inr (seg_len (sgs ! nat ?m), seg_ptr (sgs ! nat ?m)), x'))"
      using loop_step [OF less.prems(1,2) True len fit, of ip] ml by (auto simp: Let_def sgs)
    consider (left) "ip < seg_sip (sgs ! nat ?m)" | (right) "seg_sip (sgs ! nat ?m) \<le> ip" "seg_eip (sgs ! nat ?m) < ip"
      | (hit) "in_segment ip (sgs ! nat ?m)"
      unfolding in_segment_def by (meson not_less)
    then show ?thesis
    proof cases
      case left
      have "ip < seg_sip (sgs ! i)" if "i < length sgs" "?m - 1 < int i" for i
      proof (cases "i = nat ?m")
        case False
        then have "nat ?m < i" using that m by linarith
        then have "seg_eip (sgs ! nat ?m) < seg_sip (sgs ! i)"
          using sorted that by (intro segments_sorted_mono)
        then show ?thesis using left segments_sorted_seg [OF sorted ml] by simp
      qed (simp add: left)
      then show ?thesis
        using less.hyps [of "?m - 1" l x'] less.prems x' m mlen left by auto
    next
      case right
      have below: "seg_eip (sgs ! i) < ip" if "i < length sgs" "int i < ?m + 1" for i
      proof (cases "i = nat ?m")
        case False
        then have "i < nat ?m" using that m by linarith
        then have "seg_eip (sgs ! i) < seg_sip (sgs ! nat ?m)"
          using sorted ml by (intro segments_sorted_mono)
        then show ?thesis using right by simp
      qed (simp add: right)
      have "h < int (length sgs) \<or> (\<exists>t<length sgs. ?m + 1 \<le> int t \<and> in_segment ip (sgs ! t))"
        using less.prems(4) below by (force simp: in_segment_def)
      then show ?thesis
        using less.hyps [of h "?m + 1" x'] less.prems x' m mlen right below by auto
    next
      case hit
      then have "find (in_segment ip) sgs = Some (sgs ! nat ?m)"
        using find_in_sorted [OF sorted ml] by simp
      then show ?thesis using hit x' by (auto simp: in_segment_def)
    qed
  qed
qed

lemma search_ok:
  assumes "ok img x" and row: "row_ok img ip"
    and len: "len < 2 ^ 31" "len \<le> length region_buffer" "region_buffer \<noteq> []"
  shows "\<exists>x'. ok img x' \<and> xdb_search x ip region_buffer len =
    Some (fst (region_answer (region_of img ip) region_buffer len),
          snd (region_answer (region_of img ip) region_buffer len), x')"
proof -
  let ?sgs = "row_segments img ip"
  let ?s = "u32_at img (xdb_header_info_length + ip_row ip)"
  let ?e = "u32_at img (xdb_header_info_length + ip_row ip + 4)"
  let ?n = "(row_end img ip - row_start img ip) div 14"
  have s: "row_start img ip = unat ?s" by (simp add: row_start_def)
  obtain x1 where x1: "ok img x1" "xdb_vector_ptrs (x\<lparr>io_count := 0\<rparr>) (ip_row ip) = Some (Inr (?s, ?e), x1)"
    using vector_ok [OF reset_ok [OF assms(1)] _ ip_row_bound, of 0 ip] row unfolding row_ok_def by blast
  have cov: "int ?n < int (length ?sgs) \<or> (\<exists>t<length ?sgs. 0 \<le> int t \<and> in_segment ip (?sgs ! t))"
    using row row_segments_bounds(3) [OF row] by (fastforce simp: row_ok_def in_set_conv_nth)
  have "\<exists>x'. ok img x' \<and> xdb_search_loop x1 ip ?s 0 (int ?n) =
      Some (Inr (case find (in_segment ip) ?sgs of None \<Rightarrow> (0, 0) | Some sg \<Rightarrow> (seg_len sg, seg_ptr sg)), x')"
  proof (rule loop_ok [OF x1(1)])
    show "length img < 2 ^ 32" "segments_sorted ?sgs" using row by (simp_all add: row_ok_def)
    show "length ?sgs \<le> (length img - unat ?s) div 14" using row_segments_bounds(1) [OF row] by (simp add: s)
    show "?sgs ! i = segment_at img (unat ?s + 14 * i)" if "i < length ?sgs" for i
      using row_segments_nth [OF that] by (simp add: s)
    show "int ?n \<le> int (length ?sgs)" using row_segments_bounds(2) [OF row] by simp
    show "\<forall>i<length ?sgs. int ?n < int i \<longrightarrow> ip < seg_sip (?sgs ! i)" by (auto simp: row_segments_def)
  qed (use cov in simp_all)
  then obtain x2 where x2: "ok img x2" "xdb_search_loop x1 ip ?s 0 (int ?n) =
      Some (Inr (case find (in_segment ip) ?sgs of None \<Rightarrow> (0, 0) | Some sg \<Rightarrow> (seg_len sg, seg_ptr sg)), x2)"
    by blast
  have search: "xdb_search x ip region_buffer len =
      (case find (in_segment ip) ?sgs of
         None \<Rightarrow> Some (0, 0 # drop 1 region_buffer, x2)
       | Some sg \<Rightarrow>
           if seg_len sg = 0 then Some (0, 0 # drop 1 region_buffer, x2)
           else if sint (seg_len sg) \<ge> sint (of_nat len :: u32) then Some (1, region_buffer, x2)
           else do {
             (err, got, xdb) \<leftarrow> xdb_read x2 (unat (seg_ptr sg)) (unat (seg_len sg));
             region_buffer \<leftarrow> write_at region_buffer 0 got;
             if err \<noteq> 0 then Some (30 + err, region_buffer, xdb)
             else do {
               region_buffer \<leftarrow> write_at region_buffer (unat (seg_len sg)) [0];
               Some (0, region_buffer, xdb) } })"
    using len(3) by (cases "find (in_segment ip) ?sgs")
      (simp_all add: xdb_search_def Let_def x1(2) row_count [OF row] x2(2) write_at_def Suc_le_eq)
  show ?thesis
  proof (cases "find (in_segment ip) ?sgs")
    case None
    then show ?thesis using x2(1) unfolding search by (auto simp: region_of_def region_answer_def)
  next
    case (Some sg)
    then obtain i where i: "i < length ?sgs" "sg = ?sgs ! i" by (auto simp: find_Some_iff)
    then have sg: "sg \<in> set ?sgs" by simp
    let ?txt = "region_of img ip"
    have fit: "unat (seg_ptr sg) + unat (seg_len sg) \<le> length img" using row sg by (simp add: row_ok_def)
    have tx: "?txt = take (unat (seg_len sg)) (drop (unat (seg_ptr sg)) img)" "length ?txt = unat (seg_len sg)"
      using Some fit by (simp_all add: region_of_def)
    have big: "sint (seg_len sg) \<ge> sint (of_nat len :: u32) \<longleftrightarrow> len \<le> length ?txt"
    proof -
      have "sint (seg_len sg) = int (unat (seg_len sg))"
        using i sint_u16_at(1) by (simp add: row_segments_nth segment_at_def del: of_nat_unat)
      moreover have "sint (of_nat len :: u32) = int len" using len(1) by (subst sint_small) simp_all
      ultimately show ?thesis by (simp only: tx(2) of_nat_le_iff)
    qed
    obtain x3 where x3: "ok img x3" "xdb_read x2 (unat (seg_ptr sg)) (length ?txt) = Some (0, ?txt, x3)"
      using read_ok [OF x2(1) fit] tx by auto
    have z: "seg_len sg = 0 \<longleftrightarrow> ?txt = []"
      using tx(2) by (metis length_0_conv unat_eq_zero)
    show ?thesis
      using x2(1) x3 len write_text [of ?txt region_buffer]
      unfolding search Some option.case big z by (auto simp: region_answer_def simp flip: tx(2))
  qed
qed

end

section \<open>The three providers\<close>

definition file_backed :: "byte list \<Rightarrow> xdb_searcher \<Rightarrow> bool" where
  "file_backed img x \<longleftrightarrow> content x = None \<and>
     (case handle x of None \<Rightarrow> False
      | Some f \<Rightarrow> fseekable f \<and> fbytes f = img \<and> length img \<le> freadable f)"

definition by_file :: "byte list \<Rightarrow> xdb_searcher \<Rightarrow> bool" where
  "by_file img x \<longleftrightarrow> file_backed img x \<and> v_index x = None"

definition by_vector_index :: "byte list \<Rightarrow> xdb_searcher \<Rightarrow> bool" where
  "by_vector_index img x \<longleftrightarrow> file_backed img x \<and>
     (case v_index x of None \<Rightarrow> False
      | Some v \<Rightarrow> vbuffer v = take xdb_vector_index_length (drop xdb_header_info_length img))"

definition by_content :: "byte list \<Rightarrow> xdb_searcher \<Rightarrow> bool" where
  "by_content img x \<longleftrightarrow> v_index x = None \<and> (case content x of None \<Rightarrow> False | Some c \<Rightarrow> cbuffer c = img)"

lemma file_backed_read:
  assumes "file_backed img x" "off + n \<le> length img"
  shows "\<exists>f k. xdb_read x off n = Some (0, take n (drop off img), x\<lparr>io_count := k, handle := Some f\<rparr>) \<and>
    fseekable f \<and> fbytes f = img \<and> length img \<le> freadable f"
  using assms by (auto simp: file_backed_def xdb_read_def fseek_def fread_def Let_def min_def split: option.splits)

lemma file_backed_vector:
  assumes "file_backed img x" "v_index x = None" "xdb_header_info_length + xdb_vector_index_length \<le> length img"
    and "idx + 8 \<le> xdb_vector_index_length"
  shows "\<exists>f k. xdb_vector_ptrs x idx = Some (Inr (u32_at img (xdb_header_info_length + idx),
      u32_at img (xdb_header_info_length + idx + 4)), x\<lparr>io_count := k, handle := Some f\<rparr>) \<and>
    fseekable f \<and> fbytes f = img \<and> length img \<le> freadable f"
proof -
  have fit: "xdb_header_info_length + idx + 8 \<le> length img" using assms(3,4) by simp
  have c: "content x = None" using assms(1) by (simp add: file_backed_def)
  obtain f k where f: "xdb_read x (xdb_header_info_length + idx) 8 =
      Some (0, take 8 (drop (xdb_header_info_length + idx) img), x\<lparr>io_count := k, handle := Some f\<rparr>)"
    "fseekable f" "fbytes f = img" "length img \<le> freadable f"
    using file_backed_read [OF assms(1) fit] by blast
  have sz: "xdb_vector_index_size = 8" by (simp add: xdb_consts)
  show ?thesis
    using f get_of_slice(1) [OF fit, of 0] get_of_slice(1) [OF fit, of 4]
    by (intro exI [of _ f] exI [of _ k]) (simp add: xdb_vector_ptrs_def assms(2) c sz)
qed

interpretation filed: xdb_source by_file
proof
  show "\<exists>x'. xdb_read x off n = Some (0, take n (drop off img), x') \<and> by_file img x'"
    if "by_file img x" "off + n \<le> length img" for img x off n
    using file_backed_read [of img x off n] that by (auto simp: by_file_def file_backed_def)
  show "\<exists>x'. xdb_vector_ptrs x idx = Some (Inr (u32_at img (xdb_header_info_length + idx),
      u32_at img (xdb_header_info_length + idx + 4)), x') \<and> by_file img x'"
    if "by_file img x" "xdb_header_info_length + xdb_vector_index_length \<le> length img"
      "idx + 8 \<le> xdb_vector_index_length" for img x idx
    using file_backed_vector [of img x idx] that by (auto simp: by_file_def file_backed_def)
qed (simp add: by_file_def file_backed_def)

interpretation indexed: xdb_source by_vector_index
proof
  show "\<exists>x'. xdb_read x off n = Some (0, take n (drop off img), x') \<and> by_vector_index img x'"
    if "by_vector_index img x" "off + n \<le> length img" for img x off n
    using file_backed_read [of img x off n] that by (auto simp: by_vector_index_def file_backed_def)
  show "\<exists>x'. xdb_vector_ptrs x idx = Some (Inr (u32_at img (xdb_header_info_length + idx),
      u32_at img (xdb_header_info_length + idx + 4)), x') \<and> by_vector_index img x'"
    if "by_vector_index img x" "xdb_header_info_length + xdb_vector_index_length \<le> length img"
      "idx + 8 \<le> xdb_vector_index_length" for img x idx
    using that get_of_slice [of xdb_header_info_length xdb_vector_index_length img idx]
      get_of_slice [of xdb_header_info_length xdb_vector_index_length img "idx + 4"]
    by (auto simp: xdb_vector_ptrs_def by_vector_index_def add.assoc split: option.splits)
qed (simp add: by_vector_index_def file_backed_def)

interpretation loaded: xdb_source by_content
proof
  show "\<exists>x'. xdb_read x off n = Some (0, take n (drop off img), x') \<and> by_content img x'"
    if "by_content img x" "off + n \<le> length img" for img x off n
    using that by (auto simp: xdb_read_def by_content_def split: option.splits)
  show "\<exists>x'. xdb_vector_ptrs x idx = Some (Inr (u32_at img (xdb_header_info_length + idx),
      u32_at img (xdb_header_info_length + idx + 4)), x') \<and> by_content img x'"
    if "by_content img x" "xdb_header_info_length + xdb_vector_index_length \<le> length img"
      "idx + 8 \<le> xdb_vector_index_length" for img x idx
    using that by (auto simp: xdb_vector_ptrs_def by_content_def u32_at_get split: option.splits)
qed (simp add: by_content_def)

section \<open>Loading and unloading\<close>

text \<open>
  The loaders give the loaded object, NULL on failure, the stream after it, and how many heap
  blocks of this call are still allocated when it returns. \<open>a1\<close> and \<open>a2\<close> say whether the first and
  the second \<open>xdb_malloc\<close> succeed.
\<close>

definition xdb_load_header :: "bool \<Rightarrow> FILE \<Rightarrow> (xdb_header option \<times> FILE \<times> int) option" where
  "xdb_load_header a1 f =
     (if \<not> a1 then Some (None, f, 0)
      else case fseek f 0 of
        None \<Rightarrow> Some (None, f, 0)
      | Some f \<Rightarrow>
          (case fread f xdb_header_info_length of (buf, f) \<Rightarrow>
             if length buf \<noteq> xdb_header_info_length then Some (None, f, 0)
             else do {
               ver \<leftarrow> xdb_get_ushort buf 0;
               pol \<leftarrow> xdb_get_ushort buf 2;
               created \<leftarrow> xdb_get_uint buf 4;
               first \<leftarrow> xdb_get_uint buf 8;
               end_ptr \<leftarrow> xdb_get_uint buf 12;
               Some (Some \<lparr>version = ucast ver, index_policy = ucast pol, created_at = created,
                       start_index_ptr = first, end_index_ptr = end_ptr,
                       header_length = of_nat xdb_header_info_length, header_buffer = buf\<rparr>, f, 1) }))"

definition xdb_load_header_from_file ::
  "bool \<Rightarrow> (string \<Rightarrow> FILE option) \<Rightarrow> string \<Rightarrow> (xdb_header option \<times> int) option" where
  "xdb_load_header_from_file a1 fs db_path =
     (case fs db_path of None \<Rightarrow> Some (None, 0)
      | Some f \<Rightarrow> do { (h, f, live) \<leftarrow> xdb_load_header a1 f; Some (h, live) })"

text \<open>The close functions: the object they leave behind (nothing when it is freed) and the blocks freed.\<close>

definition xdb_close_header :: "xdb_header \<Rightarrow> xdb_header option \<times> int" where
  "xdb_close_header h = (if 0 < header_length h then (None, 1) else (Some h, 0))"

definition xdb_load_vector_index :: "bool \<Rightarrow> FILE \<Rightarrow> xdb_vector_index option \<times> FILE \<times> int" where
  "xdb_load_vector_index a1 f =
     (case fseek f xdb_header_info_length of
        None \<Rightarrow> (None, f, 0)
      | Some f \<Rightarrow>
          if \<not> a1 then (None, f, 0)
          else (case fread f xdb_vector_index_length of (buf, f) \<Rightarrow>
            if length buf \<noteq> xdb_vector_index_length then (None, f, 0)
            else (Some \<lparr>vlength = of_nat xdb_vector_index_length, vbuffer = buf\<rparr>, f, 1)))"

definition xdb_load_vector_index_from_file ::
  "bool \<Rightarrow> (string \<Rightarrow> FILE option) \<Rightarrow> string \<Rightarrow> xdb_vector_index option \<times> int" where
  "xdb_load_vector_index_from_file a1 fs db_path =
     (case fs db_path of None \<Rightarrow> (None, 0)
      | Some f \<Rightarrow> (case xdb_load_vector_index a1 f of (v, f, live) \<Rightarrow> (v, live)))"

definition xdb_close_vector_index :: "xdb_vector_index \<Rightarrow> xdb_vector_index option \<times> int" where
  "xdb_close_vector_index v = (if 0 < vlength v then (None, 1) else (Some v, 0))"

definition fseek_end :: "FILE \<Rightarrow> FILE option" where
  "fseek_end f = (if fseekable f then Some (f\<lparr>fpos := length (fbytes f)\<rparr>) else None)"

definition ftell :: "FILE \<Rightarrow> nat" where
  "ftell f = fpos f"

text \<open>The short-read path frees the structure but not its buffer: one block stays allocated.\<close>

definition xdb_load_content :: "bool \<Rightarrow> bool \<Rightarrow> FILE \<Rightarrow> xdb_content option \<times> FILE \<times> int" where
  "xdb_load_content a1 a2 f =
     (case fseek_end f of
        None \<Rightarrow> (None, f, 0)
      | Some f \<Rightarrow>
          (let size = (of_nat (ftell f) :: u32) in
           case fseek f 0 of
             None \<Rightarrow> (None, f, 0)
           | Some f \<Rightarrow>
               if \<not> a1 then (None, f, 0)
               else if \<not> a2 then (None, f, 0)
               else (case fread f (unat size) of (buf, f) \<Rightarrow>
                 if length buf \<noteq> unat size then (None, f, 1)
                 else (Some \<lparr>clength = size, cbuffer = buf\<rparr>, f, 2))))"

definition xdb_load_content_from_file ::
  "bool \<Rightarrow> bool \<Rightarrow> (string \<Rightarrow> FILE option) \<Rightarrow> string \<Rightarrow> xdb_content option \<times> int" where
  "xdb_load_content_from_file a1 a2 fs db_path =
     (case fs db_path of None \<Rightarrow> (None, 0)
      | Some f \<Rightarrow> (case xdb_load_content a1 a2 f of (c, f, live) \<Rightarrow> (c, live)))"

definition xdb_close_content :: "xdb_content \<Rightarrow> xdb_content option \<times> int" where
  "xdb_close_content c = (if 0 < clength c then (None, 2) else (Some c, 0))"

section \<open>Addresses as text\<close>

text \<open>
  One round of \<open>xdb_check_ip\<close>'s outer loop reads the digits of octet \<open>i\<close> and the character that
  ends them; the end of the list is the NUL of the string. \<open>Inl\<close> is the error code. An octet
  text whose value leaves the range of \<open>int\<close> is a signed overflow. The shift of an octet into the
  sign bit of \<open>ip\<close> is the two's complement one, as for the unsigned word that receives it.
\<close>

fun xdb_octet :: "nat \<Rightarrow> int \<Rightarrow> string \<Rightarrow> (int + int \<times> string) option" where
  "xdb_octet i n [] = (if i = 3 then Some (Inr (n, [])) else Some (Inl 1))"
| "xdb_octet i n (c # ptr) =
     (if is_digit c then
        (let n = n * 10 + int (digit_val c) in if n > 2147483647 then None else xdb_octet i n ptr)
      else if i < 3 \<and> c = CHR ''.'' \<or> i = 3 then Some (Inr (n, ptr))
      else Some (Inl 1))"

definition shiftIndex :: "nat list" where
  "shiftIndex = [24, 16, 8, 0]"

function xdb_check_from :: "nat \<Rightarrow> u32 \<Rightarrow> string \<Rightarrow> (int + u32) option" where
  "xdb_check_from i ip ptr =
     (if i < 4 then do {
        r \<leftarrow> xdb_octet i 0 ptr;
        case r of
          Inl err \<Rightarrow> Some (Inl err)
        | Inr (n, ptr) \<Rightarrow>
            if n > 0xFF then Some (Inl 2)
            else xdb_check_from (i + 1) (ip OR push_bit (shiftIndex ! i) (of_int n)) ptr }
      else Some (Inr ip))"
  by pat_completeness auto
termination
  by (relation "measure (\<lambda>(i, ip, ptr). 4 - i)") auto

declare xdb_check_from.simps [simp del]

definition xdb_check_ip :: "string \<Rightarrow> (int + u32) option" where
  "xdb_check_ip src_ip = xdb_check_from 0 0 src_ip"

definition xdb_long2ip :: "u32 \<Rightarrow> string" where
  "xdb_long2ip ip =
     show_int (sint (drop_bit 24 ip AND 0xFF)) @ ''.'' @ show_int (sint (drop_bit 16 ip AND 0xFF)) @ ''.'' @
     show_int (sint (drop_bit 8 ip AND 0xFF)) @ ''.'' @ show_int (sint (ip AND 0xFF))"

definition xdb_mip :: "64 word \<Rightarrow> 64 word \<Rightarrow> u32" where
  "xdb_mip a b = ucast (drop_bit 1 (a + b))"

definition xdb_search_by_string ::
  "xdb_searcher \<Rightarrow> string \<Rightarrow> byte list \<Rightarrow> nat \<Rightarrow> (int \<times> byte list \<times> xdb_searcher) option" where
  "xdb_search_by_string xdb str_ip region_buffer len = do {
     r \<leftarrow> xdb_check_ip str_ip;
     case r of
       Inl errcode \<Rightarrow> Some (10 + errcode, region_buffer, xdb)
     | Inr ip \<Rightarrow> xdb_search xdb ip region_buffer len }"

lemma xdb_octet_digits:
  assumes "\<forall>c \<in> set ds. is_digit c" "dec_val_from n ds < 2 ^ 31"
  shows "xdb_octet i (int n) (ds @ rest) = xdb_octet i (int (dec_val_from n ds)) rest"
  using assms
proof (induction ds arbitrary: n)
  case (Cons c ds)
  have "n * 10 + digit_val c < 2147483648"
    using dec_val_from_ge [of "n * 10 + digit_val c" ds] Cons.prems(2) by simp
  then have "\<not> int n * 10 + int (digit_val c) > 2147483647" by linarith
  moreover have "xdb_octet i (int (n * 10 + digit_val c)) (ds @ rest) =
      xdb_octet i (int (dec_val_from (n * 10 + digit_val c) ds)) rest"
    using Cons.prems by (intro Cons.IH) simp_all
  ultimately show ?case using Cons.prems(1) by (simp add: Let_def mult.commute)
qed simp

text \<open>Four digit strings, a dot after each of the first three, the rest cut at a non-digit.\<close>

definition dotted :: "string list \<Rightarrow> string" where
  "dotted os = concat (map (\<lambda>ds. ds @ ''.'') (butlast os)) @ last os"

definition octets_word :: "nat list \<Rightarrow> u32" where
  "octets_word vs = push_bit 24 (of_nat (vs ! 0)) OR push_bit 16 (of_nat (vs ! 1)) OR
     push_bit 8 (of_nat (vs ! 2)) OR of_nat (vs ! 3)"

definition digits_ok :: "string \<Rightarrow> bool" where
  "digits_ok ds \<longleftrightarrow> (\<forall>c \<in> set ds. is_digit c) \<and> dec_val ds < 2 ^ 31"

lemma not_digit_dot [simp]: "\<not> is_digit CHR ''.''"
  by (simp add: is_digit_def)

lemma check_octet_dot:
  assumes "digits_ok ds" "i < 3"
  shows "xdb_octet i 0 (ds @ CHR ''.'' # rest) = Some (Inr (int (dec_val ds), rest))"
  using xdb_octet_digits [of ds 0 i "CHR ''.'' # rest"] assms by (simp add: digits_ok_def)

lemma check_octet_last:
  assumes "digits_ok ds" "rest = [] \<or> \<not> is_digit (hd rest)"
  shows "xdb_octet 3 0 (ds @ rest) = Some (Inr (int (dec_val ds), tl rest))"
  using xdb_octet_digits [of ds 0 3 rest] assms by (cases rest) (simp_all add: digits_ok_def)

lemma check_from_ok:
  assumes "xdb_octet i 0 ptr = Some (Inr (int v, ptr'))" "i < 4"
  shows "xdb_check_from i ip ptr =
    (if v > 255 then Some (Inl 2) else xdb_check_from (i + 1) (ip OR push_bit (shiftIndex ! i) (of_nat v)) ptr')"
  using assms by (subst xdb_check_from.simps) simp

lemma xdb_check_ip_octets:
  assumes "digits_ok a" "digits_ok b" "digits_ok c" "digits_ok d" "rest = [] \<or> \<not> is_digit (hd rest)"
  shows "xdb_check_ip (dotted [a, b, c, d] @ rest) =
    (if dec_val a \<le> 255 \<and> dec_val b \<le> 255 \<and> dec_val c \<le> 255 \<and> dec_val d \<le> 255
     then Some (Inr (octets_word [dec_val a, dec_val b, dec_val c, dec_val d])) else Some (Inl 2))"
proof -
  have s0: "xdb_check_from 0 ip (a @ CHR ''.'' # r) = (if dec_val a > 255 then Some (Inl 2)
      else xdb_check_from 1 (ip OR push_bit 24 (of_nat (dec_val a))) r)" for ip r
    using check_from_ok [OF check_octet_dot [OF assms(1)], of 0] by (simp add: shiftIndex_def)
  have s1: "xdb_check_from 1 ip (b @ CHR ''.'' # r) = (if dec_val b > 255 then Some (Inl 2)
      else xdb_check_from 2 (ip OR push_bit 16 (of_nat (dec_val b))) r)" for ip r
    using check_from_ok [OF check_octet_dot [OF assms(2)], of 1] by (simp add: shiftIndex_def numeral_2_eq_2)
  have s2: "xdb_check_from 2 ip (c @ CHR ''.'' # r) = (if dec_val c > 255 then Some (Inl 2)
      else xdb_check_from 3 (ip OR push_bit 8 (of_nat (dec_val c))) r)" for ip r
    using check_from_ok [OF check_octet_dot [OF assms(3)], of 2] by (simp add: shiftIndex_def)
  have s3: "xdb_check_from 3 ip (d @ rest) = (if dec_val d > 255 then Some (Inl 2)
      else Some (Inr (ip OR of_nat (dec_val d))))" for ip
    using check_from_ok [OF check_octet_last [OF assms(4,5)]]
    by (simp add: shiftIndex_def xdb_check_from.simps [of 4])
  show ?thesis
    by (simp add: xdb_check_ip_def dotted_def octets_word_def s0 s1 s2 s3 or.assoc not_le del: One_nat_def)
qed

lemma take_byte: "w AND (0xFF :: u32) = take_bit 8 w"
  by (simp add: take_bit_eq_mask mask_eq_exp_minus_1)

lemma octet_facts:
  fixes w :: u32
  shows "unat (w AND 0xFF) \<le> 255" "sint (w AND 0xFF) = int (unat (w AND 0xFF))"
proof -
  show b: "unat (w AND 0xFF) \<le> 255"
    using word_and_le1 [of w "0xFF"] by (simp add: word_le_nat_alt)
  then show "sint (w AND 0xFF) = int (unat (w AND 0xFF))" by (intro sint_small) simp
qed

lemma octets_of_word:
  "octets_word [unat (drop_bit 24 ip AND 0xFF :: u32), unat (drop_bit 16 ip AND 0xFF :: u32),
     unat (drop_bit 8 ip AND 0xFF :: u32), unat (ip AND 0xFF)] = ip"
proof (rule bit_word_eqI)
  fix n :: nat
  assume n: "n < LENGTH(32)"
  have "n < 8 \<or> 8 \<le> n \<and> n < 16 \<or> 16 \<le> n \<and> n < 24 \<or> 24 \<le> n" by linarith
  with n show "bit (octets_word [unat (drop_bit 24 ip AND 0xFF :: u32), unat (drop_bit 16 ip AND 0xFF :: u32),
     unat (drop_bit 8 ip AND 0xFF :: u32), unat (ip AND 0xFF)]) n \<longleftrightarrow> bit ip n"
    by (auto simp: octets_word_def take_byte bit_simps)
qed

lemma digits_ok_show: "n \<le> 255 \<Longrightarrow> digits_ok (show_nat n)"
  by (auto simp: digits_ok_def intro: show_nat_digits)

lemma long2ip_dotted:
  "xdb_long2ip ip = dotted [show_nat (unat (drop_bit 24 ip AND 0xFF)), show_nat (unat (drop_bit 16 ip AND 0xFF)),
     show_nat (unat (drop_bit 8 ip AND 0xFF)), show_nat (unat (ip AND 0xFF))]"
  by (simp add: xdb_long2ip_def dotted_def octet_facts(2) show_int_def del: of_nat_unat)

section \<open>Counting reads, and searching a file that may hold anything\<close>

lemma read_count: "xdb_read x off n = Some (e, bs, x') \<Longrightarrow> io_count x' \<le> io_count x + 1"
  by (auto simp: xdb_read_def Let_def split: option.splits prod.splits if_splits)

lemma loop_count:
  assumes "xdb_search_loop x ip s l h = Some (r, x')" "nat (h - l + 1) < 2 ^ k"
  shows "io_count x' \<le> io_count x + k"
  using assms
proof (induction "nat (h - l + 1)" arbitrary: x l h k rule: less_induct)
  case less
  show ?case
  proof (cases "l \<le> h")
    case False
    then show ?thesis using less.prems(1) by (simp add: xdb_search_loop.simps [of x])
  next
    case True
    let ?m = "(l + h) div 2"
    have "k \<noteq> 0" using less.prems(2) True by (cases k) auto
    then obtain j where k: "k = Suc j" using not0_implies_Suc by blast
    have half: "nat (?m - 1 - l + 1) < 2 ^ j" "nat (h - (?m + 1) + 1) < 2 ^ j"
      using less.prems(2) True unfolding k by (simp_all add: nat_less_iff)
    obtain e bs x1 where rd: "xdb_read x (unat (s + of_int (?m * int xdb_segment_index_size)))
        xdb_segment_index_size = Some (e, bs, x1)"
      using less.prems(1) True by (auto simp: xdb_search_loop.simps [of x] Let_def bind_Some_iff)
    have step: "io_count x1 \<le> io_count x + 1" using read_count [OF rd] .
    have IH: "io_count x' \<le> io_count x1 + j"
      if "xdb_search_loop x1 ip s l' h' = Some (r, x')" "nat (h' - l' + 1) < nat (h - l + 1)"
        "nat (h' - l' + 1) < 2 ^ j" for l' h'
      using less.hyps [OF that(2,1,3)] .
    have small: "nat (?m - 1 - l + 1) < nat (h - l + 1)" "nat (h - (?m + 1) + 1) < nat (h - l + 1)"
      using True by auto
    have "x' = x1 \<or> xdb_search_loop x1 ip s l (?m - 1) = Some (r, x') \<or>
        xdb_search_loop x1 ip s (?m + 1) h = Some (r, x')"
      using less.prems(1) True unfolding xdb_search_loop.simps [of x ip s l h] Let_def rd
      by (auto simp: bind_Some_iff split: if_splits)
    then show ?thesis
      using step IH [OF _ small(1) half(1)] IH [OF _ small(2) half(2)] unfolding k by auto
  qed
qed

lemma vector_count: "xdb_vector_ptrs x idx = Some (r, x') \<Longrightarrow> io_count x' \<le> io_count x + 1"
  by (auto simp: xdb_vector_ptrs_def bind_Some_iff dest!: read_count split: option.splits if_splits)

lemma entry_count: "nat (sint (w :: u32) sdiv int xdb_segment_index_size - 0 + 1) < 2 ^ 28"
proof -
  have "sint w < 2 ^ 31" using sint_less [of w] by simp
  moreover have "sint w sdiv 14 \<le> max 0 (sint w) div 14"
    by (simp add: signed_divide_int_def sgn_if max_def; linarith)
  ultimately show ?thesis by (simp add: xdb_consts nat_less_iff) 
qed

text \<open>A searcher on an open file alone, whatever the file holds.\<close>

definition file_open :: "xdb_searcher \<Rightarrow> bool" where
  "file_open x \<longleftrightarrow> content x = None \<and> v_index x = None \<and> handle x \<noteq> None"

lemma file_read:
  assumes "file_open x"
  shows "\<exists>e bs x'. xdb_read x off n = Some (e, bs, x') \<and> e \<in> {0, 1, 2} \<and> file_open x' \<and>
    length bs \<le> n \<and> (e = 0 \<longrightarrow> length bs = n)"
  using assms by (auto simp: file_open_def xdb_read_def Let_def fread_def fseek_def split: option.splits prod.splits)

lemma file_vector:
  assumes "file_open x"
  shows "\<exists>r x'. xdb_vector_ptrs x idx = Some (r, x') \<and> file_open x' \<and> (\<forall>e. r = Inl e \<longrightarrow> e \<in> {11, 12})"
proof -
  obtain e bs x1 where rd: "xdb_read x (xdb_header_info_length + idx) xdb_vector_index_size = Some (e, bs, x1)"
    "e \<in> {0, 1, 2}" "file_open x1" "e = 0 \<longrightarrow> length bs = xdb_vector_index_size"
    using file_read [OF assms] by blast
  have no: "v_index x = None" "content x = None" using assms by (auto simp: file_open_def)
  show ?thesis
    using rd by (auto simp: xdb_vector_ptrs_def no xdb_get_uint_def xdb_consts)
qed

lemma file_loop:
  assumes "file_open x"
  shows "\<exists>r x'. xdb_search_loop x ip s l h = Some (r, x') \<and> file_open x' \<and>
    (\<forall>e. r = Inl e \<longrightarrow> e \<in> {21, 22}) \<and> (\<forall>n p. r = Inr (n, p) \<longrightarrow> unat n < 65536)"
  using assms
proof (induction "nat (h - l + 1)" arbitrary: x l h rule: less_induct)
  case less
  show ?case
  proof (cases "l \<le> h")
    case False
    then show ?thesis using less.prems by (simp add: xdb_search_loop.simps [of x])
  next
    case True
    let ?m = "(l + h) div 2"
    obtain e bs x1 where rd: "xdb_read x (unat (s + of_int (?m * int xdb_segment_index_size)))
        xdb_segment_index_size = Some (e, bs, x1)" "e \<in> {0, 1, 2}" "file_open x1" "e = 0 \<longrightarrow> length bs = 14"
      using file_read [OF less.prems] by (metis xdb_segment_index_size_def)
    note IH = less.hyps [OF _ rd(3)]
    have small: "nat (?m - 1 - l + 1) < nat (h - l + 1)" "nat (h - (?m + 1) + 1) < nat (h - l + 1)"
      using True by auto
    show ?thesis
    proof (cases "e = 0")
      case False
      then show ?thesis using rd True by (auto simp: xdb_search_loop.simps [of x] Let_def)
    next
      case ok: True
      then have len: "length bs = 14" using rd by simp
      have g: "xdb_get_uint bs 0 = Some (u32_at bs 0)" "xdb_get_uint bs 4 = Some (u32_at bs 4)"
        "xdb_get_ushort bs 8 = Some (u16_at bs 8)" "xdb_get_uint bs 10 = Some (u32_at bs 10)"
        by (simp_all add: u32_at_get u16_at_get len)
      have step: "xdb_search_loop x ip s l h =
          (if ip < u32_at bs 0 then xdb_search_loop x1 ip s l (?m - 1)
           else if u32_at bs 4 < ip then xdb_search_loop x1 ip s (?m + 1) h
           else Some (Inr (u16_at bs 8, u32_at bs 10), x1))"
        using True ok rd(1) by (simp add: xdb_search_loop.simps [of x ip s l h] Let_def g)
      show ?thesis
        unfolding step using IH [OF small(1)] IH [OF small(2)] rd(3) sint_u16_at(2) [of bs 8] by auto
    qed
  qed
qed

section \<open>A small database\<close>

text \<open>
  An image whose last vector row (255.255) holds two segments, the first with a text of four
  bytes, the second without one; the end pointer is the end of the file.
\<close>

definition le32 :: "nat \<Rightarrow> byte list" where
  "le32 n = [of_nat n, of_nat (n div 256), of_nat (n div 65536), of_nat (n div 16777216)]"

definition demo_tail :: "byte list" where
  "demo_tail = le32 524548 @ le32 524576 @ [0x43, 0x4E, 0x7C, 0x41] @
     le32 0xFFFF0000 @ le32 0xFFFF7FFF @ [4, 0] @ le32 524544 @
     le32 0xFFFF8000 @ le32 0xFFFFFFFF @ [0, 0] @ le32 0"

definition demo_db :: "byte list" where
  "demo_db = replicate 524536 0 @ demo_tail"

definition demo_file :: FILE where
  "demo_file = \<lparr>fbytes = demo_db, fpos = 0, freadable = 600000, fseekable = True\<rparr>"

definition demo_fs :: "string \<Rightarrow> FILE option" where
  "demo_fs p = (if p = ''ip2region.xdb'' then Some demo_file else None)"

lemma demo_length: "length demo_db = 524576"
  by (simp add: demo_db_def demo_tail_def le32_def)

lemma at_tail: "524536 \<le> i \<Longrightarrow> u32_at demo_db i = u32_at demo_tail (i - 524536)"
  "524536 \<le> i \<Longrightarrow> u16_at demo_db i = u16_at demo_tail (i - 524536)"
  by (simp_all add: demo_db_def u32_at_def u16_at_def)

lemma demo_row: "ip_row 0xFFFF1234 = 524280" "row_start demo_db 0xFFFF1234 = 524548"
  "row_end demo_db 0xFFFF1234 = 524576"
proof -
  show row: "ip_row 0xFFFF1234 = 524280" by (simp add: ip_row_def xdb_consts)
  show "row_start demo_db 0xFFFF1234 = 524548" "row_end demo_db 0xFFFF1234 = 524576"
    unfolding row_start_def row_end_def row
    by (simp_all add: xdb_consts at_tail) (simp_all add: u32_at_def demo_tail_def le32_def)
qed

lemma demo_segments: "row_segments demo_db 0xFFFF1234 =
  [\<lparr>seg_sip = 0xFFFF0000, seg_eip = 0xFFFF7FFF, seg_len = 4, seg_ptr = 524544\<rparr>,
   \<lparr>seg_sip = 0xFFFF8000, seg_eip = 0xFFFFFFFF, seg_len = 0, seg_ptr = 0\<rparr>]"
proof -
  have "[0..<2::nat] = [0, 1]" by (simp add: upt_rec)
  then show ?thesis
    unfolding row_segments_def demo_row
    by (simp add: demo_length segment_at_def at_tail) (simp add: u32_at_def u16_at_def demo_tail_def le32_def)
qed

lemma demo_row_ok: "row_ok demo_db 0xFFFF1234"
  unfolding row_ok_def demo_row demo_segments
  by (simp add: demo_length xdb_consts segments_sorted_def in_segment_def)

lemma demo_region: "region_of demo_db 0xFFFF1234 = [0x43, 0x4E, 0x7C, 0x41]"
  unfolding region_of_def demo_segments
  by (simp add: in_segment_def demo_db_def demo_tail_def le32_def)

section \<open>Properties\<close>

lemma open_file: "fs db_path = Some f \<Longrightarrow> fseekable f \<Longrightarrow> length (fbytes f) \<le> freadable f \<Longrightarrow>
    by_file (fbytes f) (snd (xdb_new_with_file_only fs db_path))"
  by (simp add: by_file_def file_backed_def xdb_new_with_file_only_def xdb_new_base_def zero_searcher_def)

lemma open_indexed: "fs db_path = Some f \<Longrightarrow> fseekable f \<Longrightarrow> length (fbytes f) \<le> freadable f \<Longrightarrow>
    vbuffer v = take xdb_vector_index_length (drop xdb_header_info_length (fbytes f)) \<Longrightarrow>
    by_vector_index (fbytes f) (snd (xdb_new_with_vector_index fs db_path (Some v)))"
  by (simp add: by_vector_index_def file_backed_def xdb_new_with_vector_index_def xdb_new_base_def zero_searcher_def)

lemma open_content: "by_content (cbuffer c) (snd (xdb_new_with_buffer (Some c)))"
  by (simp add: by_content_def xdb_new_with_buffer_def xdb_new_base_def zero_searcher_def)

lemma load_vector:
  assumes "fs db_path = Some f" "fseekable f" "length (fbytes f) \<le> freadable f"
    and "xdb_header_info_length + xdb_vector_index_length \<le> length (fbytes f)"
  shows "\<exists>v. xdb_load_vector_index_from_file True fs db_path = (Some v, 1) \<and>
    vbuffer v = take xdb_vector_index_length (drop xdb_header_info_length (fbytes f))"
  using assms by (simp add: xdb_load_vector_index_from_file_def xdb_load_vector_index_def fseek_def fread_def Let_def)

lemma load_content:
  assumes "fs db_path = Some f" "fseekable f" "length (fbytes f) \<le> freadable f" "length (fbytes f) < 2 ^ 32"
  shows "\<exists>c. xdb_load_content_from_file True True fs db_path = (Some c, 2) \<and> cbuffer c = fbytes f"
  using assms
  by (simp add: xdb_load_content_from_file_def xdb_load_content_def fseek_def fseek_end_def ftell_def fread_def Let_def)

text \<open>
  C6: On a readable, seekable database file whose row for \<open>ip\<close> is well formed, the three ways to
  open a searcher (file only, file with the loaded vector index, whole loaded content) give the
  same search result, and it is the one of a linear scan of the row's segments: the text of the
  segment that holds \<open>ip\<close>, NUL-terminated in the region buffer, an empty text when no segment
  does, and code 1 with the buffer untouched when the text does not fit.
\<close>

theorem xdb_three_ways_agree:
  assumes "fs db_path = Some f" "fseekable f" "length (fbytes f) \<le> freadable f"
    and "row_ok (fbytes f) ip" "len < 2 ^ 31" "len \<le> length region_buffer" "region_buffer \<noteq> []"
  shows "\<exists>v c x1 x2 x3.
    xdb_load_vector_index_from_file True fs db_path = (Some v, 1) \<and>
    xdb_load_content_from_file True True fs db_path = (Some c, 2) \<and>
    (let (code, out) = region_answer (region_of (fbytes f) ip) region_buffer len in
       xdb_search (snd (xdb_new_with_file_only fs db_path)) ip region_buffer len = Some (code, out, x1) \<and>
       xdb_search (snd (xdb_new_with_vector_index fs db_path (Some v))) ip region_buffer len = Some (code, out, x2) \<and>
       xdb_search (snd (xdb_new_with_buffer (Some c))) ip region_buffer len = Some (code, out, x3))"
proof -
  have sizes: "xdb_header_info_length + xdb_vector_index_length \<le> length (fbytes f)" "length (fbytes f) < 2 ^ 32"
    using assms(4) by (auto simp: row_ok_def)
  obtain v where v: "xdb_load_vector_index_from_file True fs db_path = (Some v, 1)"
    "vbuffer v = take xdb_vector_index_length (drop xdb_header_info_length (fbytes f))"
    using load_vector [of fs db_path f, OF assms(1-3) sizes(1)] by blast
  obtain c where c: "xdb_load_content_from_file True True fs db_path = (Some c, 2)" "cbuffer c = fbytes f"
    using load_content [of fs db_path f, OF assms(1-3) sizes(2)] by blast
  show ?thesis
    using v c filed.search_ok [OF open_file [of fs db_path f, OF assms(1-3)] assms(4-7)]
      indexed.search_ok [OF open_indexed [of fs db_path f, OF assms(1-3) v(2)] assms(4-7)]
      loaded.search_ok [of "fbytes f" "snd (xdb_new_with_buffer (Some c))", OF _ assms(4-7)] open_content [of c]
    by (auto simp: Let_def split_beta)
qed

theorem xdb_three_ways_agree_witness:
  "\<exists>v c x1 x2 x3.
    xdb_load_vector_index_from_file True demo_fs ''ip2region.xdb'' = (Some v, 1) \<and>
    xdb_load_content_from_file True True demo_fs ''ip2region.xdb'' = (Some c, 2) \<and>
    (let (code, out) = (0, [0x43, 0x4E, 0x7C, 0x41, 0, 7]) in
       xdb_search (snd (xdb_new_with_file_only demo_fs ''ip2region.xdb'')) 0xFFFF1234 [7, 7, 7, 7, 7, 7] 6 = Some (code, out, x1) \<and>
       xdb_search (snd (xdb_new_with_vector_index demo_fs ''ip2region.xdb'' (Some v))) 0xFFFF1234 [7, 7, 7, 7, 7, 7] 6 = Some (code, out, x2) \<and>
       xdb_search (snd (xdb_new_with_buffer (Some c))) 0xFFFF1234 [7, 7, 7, 7, 7, 7] 6 = Some (code, out, x3))"
proof -
  have ans: "region_answer (region_of (fbytes demo_file) 0xFFFF1234) [7, 7, 7, 7, 7, 7] 6 =
      (0, [0x43, 0x4E, 0x7C, 0x41, 0, 7])"
    by (simp add: demo_file_def demo_region region_answer_def)
  have f: "fbytes demo_file = demo_db" "freadable demo_file = 600000" "fseekable demo_file"
    by (simp_all add: demo_file_def)
  have fs: "demo_fs ''ip2region.xdb'' = Some demo_file" by (simp add: demo_fs_def)
  have row: "row_ok (fbytes demo_file) 0xFFFF1234" by (simp only: f demo_row_ok)
  show ?thesis
    by (rule xdb_three_ways_agree [of demo_fs "''ip2region.xdb''" demo_file, OF fs f(3) _ row, of 6 "[7, 7, 7, 7, 7, 7]", unfolded ans])
      (simp_all add: f demo_length)
qed

lemma file_text:
  assumes "file_open x" "unat (n :: u32) < 65536" "len < 2 ^ 31" "len \<le> length buf" "\<not> (n = 0 \<or> sint n \<ge> sint (of_nat len :: u32))"
  shows "\<exists>c bs x'. xdb_read x (unat (p :: u32)) (unat n) = Some (c, bs, x') \<and> c \<in> {0, 1, 2} \<and> file_open x' \<and> length bs \<le> unat n \<and>
    unat n < length buf"
proof -
  have "sint n = int (unat n)" using assms(2) by (intro sint_small) auto
  moreover have "sint (of_nat len :: u32) = int len" using assms(3) by (subst sint_small) simp_all
  ultimately have "unat n < length buf" using assms(4,5) by (simp del: of_nat_unat)
  then show ?thesis using file_read [OF assms(1), of "unat p" "unat n"] by blast
qed

text \<open>
  C10: A search through an open file is safe whatever the file holds: with a region buffer of at
  least \<open>len\<close> bytes (not empty) it returns (no fault, no endless loop), with code 0, 1 or one of
  the read codes 11, 12, 21, 22, 31, 32; the buffer keeps its size; and on code 0 it holds a
  terminated string.
\<close>

theorem xdb_search_file_safe:
  assumes "file_open x" "len < 2 ^ 31" "len \<le> length region_buffer" "region_buffer \<noteq> []"
  shows "\<exists>code out x'. xdb_search x ip region_buffer len = Some (code, out, x') \<and>
    code \<in> {0, 1, 11, 12, 21, 22, 31, 32} \<and> length out = length region_buffer \<and>
    (code = 0 \<longrightarrow> 0 \<in> set out) \<and> file_open x'"
proof -
  have x0: "file_open (x\<lparr>io_count := 0\<rparr>)" using assms(1) by (simp add: file_open_def)
  obtain r x1 where v: "xdb_vector_ptrs (x\<lparr>io_count := 0\<rparr>) (ip_row ip) = Some (r, x1)" "file_open x1"
    "\<forall>e. r = Inl e \<longrightarrow> e \<in> {11, 12}"
    using file_vector [OF x0] by blast
  show ?thesis
  proof (cases r)
    case (Inl e)
    then show ?thesis using v by (auto simp: xdb_search_def Let_def)
  next
    case (Inr se)
    then obtain s e where se: "r = Inr (s, e)" by (cases se) auto
    obtain q x2 where l: "xdb_search_loop x1 ip s 0 (sint (e - s) sdiv int xdb_segment_index_size) = Some (q, x2)"
      "file_open x2" "\<forall>e. q = Inl e \<longrightarrow> e \<in> {21, 22}" "\<forall>n p. q = Inr (n, p) \<longrightarrow> unat n < 65536"
      using file_loop [OF v(2)] by blast
    show ?thesis
    proof (cases q)
      case (Inl c)
      then show ?thesis using v(1) l by (auto simp: xdb_search_def Let_def se)
    next
      case (Inr np)
      then obtain n p where np: "q = Inr (n, p)" by (cases np) auto
      show ?thesis
      proof (cases "n = 0 \<or> sint n \<ge> sint (of_nat len :: u32)")
        case True
        then show ?thesis
          using v(1) l assms(4) by (auto simp: xdb_search_def Let_def se np write_at_def Suc_le_eq)
      next
        case False
        have nb: "unat n < 65536" using l(4) np by simp
        from file_text [OF l(2) nb, of len region_buffer p] obtain c bs x3
          where rd: "xdb_read x2 (unat p) (unat n) = Some (c, bs, x3)" "c \<in> {0, 1, 2}" "file_open x3" "length bs \<le> unat n"
            and n: "unat n < length region_buffer" using False assms(2,3) by blast
        let ?out = "bs @ drop (length bs) region_buffer"
        have w: "write_at region_buffer 0 bs = Some ?out" "length ?out = length region_buffer"
          and w2: "write_at ?out (unat n) [0] = Some (take (unat n) ?out @ 0 # drop (unat n + 1) ?out)"
          using n rd(4) by (simp_all add: write_at_def)
        show ?thesis
          using v(1) l(1) False rd n w write_at_length [OF w2] unfolding xdb_search_def Let_def
          by (auto simp: se np w2)
      qed
    qed
  qed
qed

theorem xdb_search_file_safe_witness:
  "\<exists>code out x'. xdb_search (snd (xdb_new_with_file_only demo_fs ''ip2region.xdb'')) 5 [7, 7] 2 = Some (code, out, x') \<and>
    code \<in> {0, 1, 11, 12, 21, 22, 31, 32} \<and> length out = length [7 :: byte, 7] \<and>
    (code = 0 \<longrightarrow> 0 \<in> set out) \<and> file_open x'"
  by (rule xdb_search_file_safe)
    (simp_all add: file_open_def xdb_new_with_file_only_def xdb_new_base_def zero_searcher_def demo_fs_def)

text \<open>
  C19: A search makes at most 30 reads of the file, whatever the searcher and its file: one for the
  vector row, at most 28 for the binary search (the signed entry count is below \<open>2^28\<close>), one for
  the text. \<open>xdb_get_io_count\<close> reports them.
\<close>

theorem xdb_search_io_bound:
  assumes "xdb_search x ip region_buffer len = Some (code, out, x')"
  shows "xdb_get_io_count x' \<le> 30"
proof -
  obtain r x1 where v: "xdb_vector_ptrs (x\<lparr>io_count := 0\<rparr>) (ip_row ip) = Some (r, x1)"
    using assms by (auto simp: xdb_search_def bind_Some_iff Let_def)
  have c1: "io_count x1 \<le> 1" using vector_count [OF v] by simp
  show ?thesis
  proof (cases r)
    case (Inl e)
    then show ?thesis using assms v c1 by (simp add: xdb_search_def xdb_get_io_count_def Let_def)
  next
    case (Inr se)
    then obtain s e where se: "r = Inr (s, e)" by (cases se) auto
    obtain q x2 where l: "xdb_search_loop x1 ip s 0 (sint (e - s) sdiv int xdb_segment_index_size) = Some (q, x2)"
      using assms v se by (auto simp: xdb_search_def bind_Some_iff Let_def)
    have c2: "io_count x2 \<le> 29" using loop_count [OF l entry_count] c1 by simp
    have "x' = x2 \<or> (\<exists>a b c d. xdb_read x2 a b = Some (c, d, x'))"
      using assms v l
      by (auto simp: xdb_search_def se bind_Some_iff Let_def split: if_splits sum.splits)
    then show ?thesis using c2 by (auto simp: xdb_get_io_count_def dest: read_count)
  qed
qed

theorem xdb_search_io_bound_witness:
  "\<exists>code out x'. xdb_search (snd (xdb_new_with_file_only demo_fs ''ip2region.xdb'')) 0xFFFF1234 [7, 7] 2 =
      Some (code, out, x') \<and> xdb_get_io_count x' \<le> 30"
proof -
  have "by_file demo_db (snd (xdb_new_with_file_only demo_fs ''ip2region.xdb''))"
    using open_file [of demo_fs "''ip2region.xdb''" demo_file]
    by (simp add: demo_fs_def demo_file_def demo_length)
  from filed.search_ok [OF this demo_row_ok, of 2 "[7, 7]"] show ?thesis
    using xdb_search_io_bound by fastforce
qed

text \<open>
  C35: \<open>xdb_check_ip\<close> undoes \<open>xdb_long2ip\<close>: the dotted text of any 32-bit address, with anything after
  it that does not start with a digit, is read back as that address.
\<close>

theorem xdb_check_ip_long2ip:
  assumes "rest = [] \<or> \<not> is_digit (hd rest)"
  shows "xdb_check_ip (xdb_long2ip ip @ rest) = Some (Inr ip)"
  unfolding long2ip_dotted
  by (subst xdb_check_ip_octets) (simp_all add: assms digits_ok_show octet_facts(1) octets_of_word)

theorem xdb_check_ip_long2ip_witness:
  "xdb_check_ip (xdb_long2ip 0xC0A80114 @ '',CN'') = Some (Inr 0xC0A80114)"
  by (rule xdb_check_ip_long2ip) (simp add: is_digit_def)

text \<open>
  \<open>xdb_check_ip\<close> on four digit strings joined by dots, whose values fit an \<open>int\<close>: the address
  made of the four values when each is at most 255, else code 2. Empty octets are accepted (as 0),
  and what follows the last digit is ignored. A text that ends, or has another character, before
  its first dot gives code 1.
\<close>

theorem xdb_check_ip_branches:
  assumes "digits_ok a" "digits_ok b" "digits_ok c" "digits_ok d"
  shows "(rest = [] \<or> \<not> is_digit (hd rest) \<longrightarrow> xdb_check_ip (dotted [a, b, c, d] @ rest) =
      (if dec_val a \<le> 255 \<and> dec_val b \<le> 255 \<and> dec_val c \<le> 255 \<and> dec_val d \<le> 255
       then Some (Inr (octets_word [dec_val a, dec_val b, dec_val c, dec_val d])) else Some (Inl 2))) \<and>
    (rest = [] \<or> \<not> is_digit (hd rest) \<and> hd rest \<noteq> CHR ''.'' \<longrightarrow> xdb_check_ip (a @ rest) = Some (Inl 1))"
proof (intro conjI impI)
  show "xdb_check_ip (dotted [a, b, c, d] @ rest) =
      (if dec_val a \<le> 255 \<and> dec_val b \<le> 255 \<and> dec_val c \<le> 255 \<and> dec_val d \<le> 255
       then Some (Inr (octets_word [dec_val a, dec_val b, dec_val c, dec_val d])) else Some (Inl 2))"
    if "rest = [] \<or> \<not> is_digit (hd rest)"
    using xdb_check_ip_octets [OF assms that] .
  show "xdb_check_ip (a @ rest) = Some (Inl 1)" if "rest = [] \<or> \<not> is_digit (hd rest) \<and> hd rest \<noteq> CHR ''.''"
    using xdb_octet_digits [of a 0 0 rest] assms(1) that
    by (cases rest) (simp_all add: xdb_check_ip_def xdb_check_from.simps [of 0] digits_ok_def)
qed

theorem xdb_check_ip_branches_witness:
  "xdb_check_ip (dotted [''10'', '''', ''7'', ''300''] @ []) = Some (Inl 2) \<and>
   xdb_check_ip (''10'' @ ''x'') = Some (Inl 1)"
  using xdb_check_ip_branches [of "''10''" "''''" "''7''" "''300''" "[]"]
    xdb_check_ip_branches [of "''10''" "''''" "''7''" "''300''" "''x''"]
  by (simp add: digits_ok_def is_digit_def digit_val_def)

text \<open>
  \<open>xdb_get_uint\<close> and \<open>xdb_get_ushort\<close> read four and two bytes as an unsigned little-endian
  number, although the code promotes signed characters; outside the buffer they fault.
\<close>

theorem xdb_get_little_endian:
  "map_option unat (xdb_get_uint buf i) =
     (if i + 4 \<le> length buf then Some (le_val (take 4 (drop i buf))) else None) \<and>
   map_option unat (xdb_get_ushort buf i) =
     (if i + 2 \<le> length buf then Some (le_val (take 2 (drop i buf))) else None)"
proof -
  have "le_val (take 4 (drop i buf)) < 2 ^ 32" if "i + 4 \<le> length buf"
    using that le_val_bound [of "take 4 (drop i buf)"] by simp
  moreover have "le_val (take 2 (drop i buf)) < 2 ^ 32" if "i + 2 \<le> length buf"
    using that le_val_bound [of "take 2 (drop i buf)"] by simp
  ultimately show ?thesis
    by (auto simp: xdb_get_uint_le xdb_get_ushort_le) (auto simp: xdb_get_uint_def xdb_get_ushort_def)
qed

text \<open>
  When a part of the database cannot be read, all three loaders give NULL; the header and the
  vector index loaders have freed what they took, but \<open>xdb_load_content\<close> leaves its buffer allocated
  (one block leaks).
\<close>

theorem xdb_load_short_read:
  assumes "fseekable f" "freadable f < 256" "256 \<le> length (fbytes f)" "length (fbytes f) < 2 ^ 32"
  shows "\<exists>f1 f2 f3. xdb_load_content True True f = (None, f1, 1) \<and>
    xdb_load_header True f = Some (None, f2, 0) \<and> xdb_load_vector_index True f = (None, f3, 0)"
  using assms
  by (simp add: xdb_load_content_def xdb_load_header_def xdb_load_vector_index_def fseek_def fseek_end_def
      ftell_def fread_def Let_def xdb_consts)

theorem xdb_load_short_read_witness:
  "\<exists>f1 f2 f3. xdb_load_content True True (demo_file\<lparr>freadable := 100\<rparr>) = (None, f1, 1) \<and>
    xdb_load_header True (demo_file\<lparr>freadable := 100\<rparr>) = Some (None, f2, 0) \<and>
    xdb_load_vector_index True (demo_file\<lparr>freadable := 100\<rparr>) = (None, f3, 0)"
  by (rule xdb_load_short_read) (simp_all add: demo_file_def demo_length)

text \<open>
  A search by text of a dotted address is the search for the address; a malformed address gives
  11 or 12, the same codes that a failed read of the vector row gives for a well formed one.
\<close>

theorem xdb_search_by_string_cases:
  "(xdb_check_ip s = Some (Inr ip) \<longrightarrow> xdb_search_by_string x s buf len = xdb_search x ip buf len) \<and>
   (xdb_check_ip s = Some (Inl e) \<longrightarrow> xdb_search_by_string x s buf len = Some (10 + e, buf, x)) \<and>
   (file_open x \<and> (case handle x of Some f \<Rightarrow> \<not> fseekable f | None \<Rightarrow> False) \<and>
      xdb_check_ip s = Some (Inr ip) \<longrightarrow> (\<exists>x'. xdb_search_by_string x s buf len = Some (11, buf, x')))"
  by (auto simp: file_open_def xdb_search_by_string_def xdb_search_def xdb_vector_ptrs_def xdb_read_def
      fseek_def Let_def split: option.splits)

theorem xdb_search_by_string_cases_witness:
  "xdb_search_by_string zero_searcher ''1.2.3'' [7] 1 = Some (11, [7], zero_searcher) \<and>
   (\<exists>x'. xdb_search_by_string (zero_searcher\<lparr>handle := Some (demo_file\<lparr>fseekable := False\<rparr>)\<rparr>) ''...'' [7] 1 =
      Some (11, [7], x'))"
proof -
  have "xdb_check_ip ''1.2.3'' = Some (Inl 1)"
    by (simp add: xdb_check_ip_def xdb_check_from.simps is_digit_def digit_val_def Let_def)
  moreover have "xdb_check_ip ''...'' = Some (Inr 0)"
    by (simp add: xdb_check_ip_def xdb_check_from.simps is_digit_def shiftIndex_def)
  ultimately show ?thesis
    using xdb_search_by_string_cases [of "''1.2.3''" 0 zero_searcher "[7]" 1 1]
      xdb_search_by_string_cases [of "''...''" 0
        "zero_searcher\<lparr>handle := Some (demo_file\<lparr>fseekable := False\<rparr>)\<rparr>" "[7]" 1 0]
    by (simp add: file_open_def zero_searcher_def) metis
qed

end
