(* ===== verification/Ip_Resolver.thy ===== *)
theory Ip_Resolver
  imports Xdb
begin

text \<open>
  \<open>ip_resolver.c\<close>: the module's matcher state (\<open>matcher\<close>, \<open>initialized\<close>), its set-up and release, and
  the loop that collects every IPv4 address of a message. PCRE2 is a parameter \<open>pm\<close>; what the loop
  relies on is the locale \<open>pcre2_engine\<close>, which a backtracking matcher for the pattern of the
  source provides. The results go into an array of fixed size: a write behind it is \<open>None\<close>.
\<close>

section \<open>The pattern\<close>

text \<open>Regular expressions as the pattern uses them, and how a backtracking matcher runs them.\<close>

datatype rx =
    Eps
  | Range char char
  | Seq rx rx
  | Alt rx rx

definition Lit :: "char \<Rightarrow> rx" where
  "Lit c = Range c c"

definition Opt :: "rx \<Rightarrow> rx" where
  "Opt r = Alt r Eps"

fun rx_upto :: "nat \<Rightarrow> rx \<Rightarrow> rx" where
  "rx_upto 0 r = Eps"
| "rx_upto (Suc k) r = Opt (Seq r (rx_upto k r))"

text \<open>\<open>r{m,n}\<close>, greedy.\<close>

fun rx_rep :: "rx \<Rightarrow> nat \<Rightarrow> nat \<Rightarrow> rx" where
  "rx_rep r 0 n = rx_upto n r"
| "rx_rep r (Suc m) n = Seq r (rx_rep r m (n - 1))"

text \<open>The rests of the text after a match at its start, the preferred match first.\<close>

fun rx_run :: "rx \<Rightarrow> string \<Rightarrow> string list" where
  "rx_run Eps s = [s]"
| "rx_run (Range a b) s =
     (case s of [] \<Rightarrow> [] | c # s' \<Rightarrow> if ord_c a \<le> ord_c c \<and> ord_c c \<le> ord_c b then [s'] else [])"
| "rx_run (Seq r q) s = concat (map (rx_run q) (rx_run r s))"
| "rx_run (Alt r q) s = rx_run r s @ rx_run q s"

definition rx_digit :: rx where
  "rx_digit = Range CHR ''0'' CHR ''9''"

definition MATCH_OCTET :: rx where
  "MATCH_OCTET =
     Alt (Seq (Lit CHR ''2'') (Alt (Seq (Lit CHR ''5'') (Range CHR ''0'' CHR ''5''))
                                   (Seq (Range CHR ''0'' CHR ''4'') rx_digit)))
         (Seq (Opt (Range CHR ''0'' CHR ''1'')) (rx_rep rx_digit 1 2))"

definition MATCH_IPV4 :: rx where
  "MATCH_IPV4 = Seq MATCH_OCTET (rx_rep (Seq (Lit CHR ''.'') MATCH_OCTET) 3 3)"

section \<open>The module\<close>

text \<open>A compiled pattern's pointer: NULL, a live object, or one that has been freed but not cleared.\<close>

datatype 'c code_ptr = NullCode | Code 'c | FreedCode

record 'c RegexMatcher =
  re :: "'c code_ptr"
  match_data :: bool  \<comment> \<open>not NULL\<close>

record 'c resolver =
  matcher :: "'c RegexMatcher"
  initialized :: byte

definition init_resolver :: "'c resolver" where
  "init_resolver = \<lparr>matcher = \<lparr>re = NullCode, match_data = False\<rparr>, initialized = 0\<rparr>"

text \<open>\<open>compiled\<close> is what \<open>pcre2_compile\<close> gives, \<open>md\<close> whether the match data could be created.\<close>

definition regex_init :: "'c option \<Rightarrow> bool \<Rightarrow> 'c resolver \<Rightarrow> int \<times> 'c resolver" where
  "regex_init compiled md g =
     (case compiled of
        None \<Rightarrow> (0, g\<lparr>matcher := (matcher g)\<lparr>re := NullCode\<rparr>\<rparr>)
      | Some c \<Rightarrow>
          (let g = g\<lparr>matcher := (matcher g)\<lparr>re := Code c\<rparr>\<rparr>;
               g = g\<lparr>matcher := (matcher g)\<lparr>match_data := md\<rparr>\<rparr> in
           if \<not> md then (0, g\<lparr>matcher := (matcher g)\<lparr>re := FreedCode\<rparr>\<rparr>)
           else (1, g\<lparr>initialized := 1\<rparr>)))"

text \<open>Freeing a pointer that has been freed already is a fault.\<close>

definition regex_free :: "'c RegexMatcher \<Rightarrow> 'c RegexMatcher option" where
  "regex_free m = do {
     m \<leftarrow> (case re m of
            NullCode \<Rightarrow> Some m
          | Code c \<Rightarrow> Some (m\<lparr>re := NullCode\<rparr>)
          | FreedCode \<Rightarrow> None);
     Some (if match_data m then m\<lparr>match_data := False\<rparr> else m) }"

text \<open>\<open>Inl\<close> is the exit status of the process.\<close>

definition InitializeRegex :: "'c option \<Rightarrow> bool \<Rightarrow> 'c resolver \<Rightarrow> int + 'c resolver" where
  "InitializeRegex compiled md g =
     (if initialized g = 0 then
        (case regex_init compiled md g of (ok, g) \<Rightarrow> if ok = 0 then Inl 1 else Inr g)
      else Inr g)"

definition destroy_regex :: "'c resolver \<Rightarrow> 'c resolver option" where
  "destroy_regex g = do { m \<leftarrow> regex_free (matcher g); Some (g\<lparr>matcher := m\<rparr>) }"

text \<open>
  \<open>pm code md subject offset\<close> is \<open>pcre2_match\<close>: a negative code, or the two ends of the match.
  \<open>dup k\<close> says whether the \<open>strndup\<close> of result \<open>k\<close> gets its memory; \<open>results\<close> is the caller's array.
  \<open>offset\<close> is a 32-bit unsigned.
\<close>

type_synonym 'c pcre2_match = "'c code_ptr \<Rightarrow> bool \<Rightarrow> string \<Rightarrow> nat \<Rightarrow> int + nat \<times> nat"

partial_function (option) find_loop ::
  "'c pcre2_match \<Rightarrow> (nat \<Rightarrow> bool) \<Rightarrow> 'c RegexMatcher \<Rightarrow> string \<Rightarrow> nat \<Rightarrow> nat \<Rightarrow> string option list \<Rightarrow>
     (nat \<times> string option list) option" where
  "find_loop pm dup m subject offset match_count match_results =
     (if offset < length subject then
        (if re m = FreedCode then None
         else case pm (re m) (match_data m) subject offset of
           Inl rc \<Rightarrow> Some (match_count, match_results)
         | Inr (o0, o1) \<Rightarrow>
             if match_count < length match_results \<and> o0 \<le> o1 \<and> o1 \<le> length subject then
               find_loop pm dup m subject (o1 mod 2 ^ 32) (match_count + 1)
                 (match_results[match_count := (if dup match_count then Some (take (o1 - o0) (drop o0 subject)) else None)])
             else None)
      else Some (match_count, match_results))"

declare find_loop.simps [code]

definition regex_find_all ::
  "'c pcre2_match \<Rightarrow> (nat \<Rightarrow> bool) \<Rightarrow> 'c RegexMatcher \<Rightarrow> string \<Rightarrow> nat \<Rightarrow> string option list \<Rightarrow>
     (nat \<times> string option list) option" where
  "regex_find_all pm dup m subject match_count match_results = find_loop pm dup m subject 0 match_count match_results"

definition found_ip_addresses ::
  "'c pcre2_match \<Rightarrow> (nat \<Rightarrow> bool) \<Rightarrow> 'c resolver \<Rightarrow> string \<Rightarrow> nat \<Rightarrow> string option list \<Rightarrow>
     (nat \<times> string option list) option" where
  "found_ip_addresses pm dup g subject match_count match_results =
     (if initialized g \<noteq> 0 then regex_find_all pm dup (matcher g) subject match_count match_results
      else Some (match_count, match_results))"

section \<open>What the pattern matches\<close>

text \<open>What a matcher may take from the start of \<open>s\<close> is a prefix of it.\<close>

lemma rx_run_prefix: "rest \<in> set (rx_run r s) \<Longrightarrow> \<exists>t. s = t @ rest"
proof (induction r arbitrary: s rest)
  case (Seq r q)
  then show ?case by fastforce
qed (auto split: list.splits if_splits)

lemma run_Range: "rest \<in> set (rx_run (Range a b) s) \<longleftrightarrow>
    (\<exists>c. s = c # rest \<and> ord_c a \<le> ord_c c \<and> ord_c c \<le> ord_c b)"
  by (cases s) auto

lemma run_Seq: "rest \<in> set (rx_run (Seq r q) s) \<longleftrightarrow> (\<exists>u \<in> set (rx_run r s). rest \<in> set (rx_run q u))"
  by auto

lemma run_Alt: "rest \<in> set (rx_run (Alt r q) s) \<longleftrightarrow> rest \<in> set (rx_run r s) \<or> rest \<in> set (rx_run q s)"
  by auto

lemma run_Eps: "rest \<in> set (rx_run Eps s) \<longleftrightarrow> rest = s"
  by auto

lemmas run_simps = run_Range run_Seq run_Alt run_Eps

definition octet_text :: "string \<Rightarrow> bool" where
  "octet_text ds \<longleftrightarrow> (\<forall>c \<in> set ds. is_digit c) \<and> ds \<noteq> [] \<and> length ds \<le> 3 \<and> dec_val ds \<le> 255"

lemma octet_matched:
  assumes "rest \<in> set (rx_run MATCH_OCTET s)"
  shows "\<exists>ds. s = ds @ rest \<and> octet_text ds"
proof -
  have lit2: "ord_c c = 50" if "ord_c CHR ''2'' \<le> ord_c c" "ord_c c \<le> ord_c CHR ''2''" for c using that by simp
  consider (a) c d e where "s = c # d # e # rest" "ord_c c = 50" "ord_c d = 53" "48 \<le> ord_c e" "ord_c e \<le> 53"
    | (b) c d e where "s = c # d # e # rest" "ord_c c = 50" "48 \<le> ord_c d" "ord_c d \<le> 52" "48 \<le> ord_c e" "ord_c e \<le> 57"
    | (c) c d e where "s = c # d # e # rest" "48 \<le> ord_c c" "ord_c c \<le> 49" "48 \<le> ord_c d" "ord_c d \<le> 57"
        "48 \<le> ord_c e" "ord_c e \<le> 57"
    | (d) d e where "s = d # e # rest" "48 \<le> ord_c d" "ord_c d \<le> 57" "48 \<le> ord_c e" "ord_c e \<le> 57"
    | (e) e where "s = e # rest" "48 \<le> ord_c e" "ord_c e \<le> 57"
    using assms unfolding MATCH_OCTET_def Lit_def Opt_def rx_digit_def
    by (simp del: rx_run.simps add: run_simps numeral_eq_Suc Opt_def) (fastforce dest: antisym)
  then show ?thesis
  proof cases
    case (a c d e) then show ?thesis
      by (intro exI [of _ "[c, d, e]"]) (simp add: octet_text_def is_digit_def digit_val_def)
  next
    case (b c d e) then show ?thesis
      by (intro exI [of _ "[c, d, e]"]) (simp add: octet_text_def is_digit_def digit_val_def)
  next
    case (c c d e) then show ?thesis
      by (intro exI [of _ "[c, d, e]"]) (simp add: octet_text_def is_digit_def digit_val_def)
  next
    case (d d e) then show ?thesis
      by (intro exI [of _ "[d, e]"]) (simp add: octet_text_def is_digit_def digit_val_def)
  next
    case (e e) then show ?thesis
      by (intro exI [of _ "[e]"]) (simp add: octet_text_def is_digit_def digit_val_def)
  qed
qed

definition ipv4_text :: "string \<Rightarrow> bool" where
  "ipv4_text t \<longleftrightarrow> (\<exists>a b c d. t = dotted [a, b, c, d] \<and> octet_text a \<and> octet_text b \<and> octet_text c \<and> octet_text d)"

lemma dot_octet_matched:
  assumes "rest \<in> set (rx_run (Seq (Lit CHR ''.'') MATCH_OCTET) s)"
  shows "\<exists>ds. s = CHR ''.'' # ds @ rest \<and> octet_text ds"
proof -
  obtain c u where c: "s = c # u" "ord_c CHR ''.'' \<le> ord_c c" "ord_c c \<le> ord_c CHR ''.''"
    "rest \<in> set (rx_run MATCH_OCTET u)"
    using assms unfolding Lit_def run_Seq by (auto simp: run_Range simp del: rx_run.simps)
  have "ord_c c = ord_c CHR ''.''" using c(2,3) by (rule antisym [rotated])
  then have "c = CHR ''.''" by (simp only: of_char_eq_iff)
  then show ?thesis using c octet_matched [OF c(4)] by auto
qed

lemma ipv4_matched:
  assumes "rest \<in> set (rx_run MATCH_IPV4 s)"
  shows "\<exists>t. s = t @ rest \<and> ipv4_text t"
proof -
  define D where "D = Seq (Lit CHR ''.'') MATCH_OCTET"
  have e: "MATCH_IPV4 = Seq MATCH_OCTET (Seq D (Seq D (Seq D Eps)))"
    by (simp add: MATCH_IPV4_def D_def numeral_3_eq_3)
  then obtain u v w where u: "u \<in> set (rx_run MATCH_OCTET s)" "v \<in> set (rx_run D u)"
    "w \<in> set (rx_run D v)" "rest \<in> set (rx_run D w)"
    using assms unfolding e run_Seq run_Eps by blast
  obtain a b c d where "s = a @ u" "u = CHR ''.'' # b @ v" "v = CHR ''.'' # c @ w" "w = CHR ''.'' # d @ rest"
    and o: "octet_text a" "octet_text b" "octet_text c" "octet_text d"
    using octet_matched [OF u(1)] dot_octet_matched [OF u(2) [unfolded D_def]]
      dot_octet_matched [OF u(3) [unfolded D_def]] dot_octet_matched [OF u(4) [unfolded D_def]] by metis
  then have "s = dotted [a, b, c, d] @ rest" by (simp add: dotted_def)
  then show ?thesis using o unfolding ipv4_text_def by metis
qed

lemma octet_digits_ok: "octet_text ds \<Longrightarrow> digits_ok ds" "octet_text ds \<Longrightarrow> dec_val ds \<le> 255"
  by (auto simp: octet_text_def digits_ok_def)

lemma ipv4_text_accepted: "ipv4_text t \<Longrightarrow> \<exists>ip. xdb_check_ip t = Some (Inr ip)"
  using xdb_check_ip_octets [of _ _ _ _ "[]"] by (fastforce simp: ipv4_text_def octet_digits_ok)

lemma octet_length: "octet_text ds \<Longrightarrow> 1 \<le> length ds \<and> length ds \<le> 3"
  by (cases ds) (auto simp: octet_text_def)

lemma ipv4_text_length: "ipv4_text t \<Longrightarrow> 7 \<le> length t \<and> length t \<le> 15"
  by (auto simp: ipv4_text_def dotted_def dest!: octet_length)

section \<open>The interface of the engine\<close>

text \<open>
  What \<open>regex_find_all\<close> relies on, as PCRE2 documents it: a reported match lies in the subject at
  or after the offset and is a match of the pattern there; a NULL code or NULL match data is an
  error, which is negative.
\<close>

locale pcre2_engine =
  fixes pm :: "'c pcre2_match"
  assumes match_in: "pm (Code c) True subject off = Inr (s, e) \<Longrightarrow>
      off \<le> s \<and> s \<le> e \<and> e \<le> length subject \<and> drop e subject \<in> set (rx_run MATCH_IPV4 (drop s subject))"
    and no_code: "\<exists>rc < 0. pm NullCode md subject off = Inl rc"
begin

lemma match_text:
  assumes "pm (Code c) True subject off = Inr (s, e)"
  shows "ipv4_text (take (e - s) (drop s subject))" "off + 7 \<le> e" "s \<le> e" "e \<le> length subject"
proof -
  note m = match_in [OF assms]
  obtain t where t: "drop s subject = t @ drop e subject" "ipv4_text t" using m ipv4_matched by blast
  have "length subject - s = length t + (length subject - e)"
    using arg_cong [OF t(1), where f = length] by simp
  then have "length t = e - s" using m by linarith
  then show "ipv4_text (take (e - s) (drop s subject))" "off + 7 \<le> e" "s \<le> e" "e \<le> length subject"
    using m t ipv4_text_length [OF t(2)] by auto
qed

lemma find_loop_ok:
  assumes "re m = Code c" "match_data m" "length subject < 2 ^ 32"
    and "offset \<le> length subject" "n + (length subject - offset) div 7 \<le> length rs"
  shows "\<exists>k rs'. find_loop pm dup m subject offset n rs = Some (k, rs') \<and> n \<le> k \<and> k \<le> n + (length subject - offset) div 7 \<and>
    length rs' = length rs \<and> (\<forall>i<n. rs' ! i = rs ! i) \<and>
    (\<forall>i. n \<le> i \<and> i < k \<longrightarrow> (case rs' ! i of None \<Rightarrow> \<not> dup i | Some t \<Rightarrow> ipv4_text t))"
  using assms(4,5)
proof (induction "length subject - offset" arbitrary: offset n rs rule: less_induct)
  case less
  show ?case
  proof (cases "offset < length subject")
    case False
    then show ?thesis by (subst find_loop.simps) auto
  next
    case True
    show ?thesis
    proof (cases "pm (re m) (match_data m) subject offset")
      case (Inl rc)
      then show ?thesis using True assms(1) by (subst find_loop.simps) auto
    next
      case (Inr se)
      then obtain s e where se: "pm (Code c) True subject offset = Inr (s, e)"
        using assms(1,2) by (cases se) auto
      note t = match_text [OF se]
      have div: "Suc ((length subject - e) div 7) \<le> (length subject - offset) div 7"
      proof -
        have "Suc ((length subject - e) div 7) = (length subject - e + 7) div 7" by simp
        also have "\<dots> \<le> (length subject - offset) div 7" using t by (intro div_le_mono) simp
        finally show ?thesis .
      qed
      have shorter: "length subject - e < length subject - offset" using t True by linarith
      let ?x = "if dup n then Some (take (e - s) (drop s subject)) else None"
      obtain k rs' where k: "find_loop pm dup m subject e (n + 1) (rs[n := ?x]) = Some (k, rs')"
        "n + 1 \<le> k" "k \<le> n + 1 + (length subject - e) div 7" "length rs' = length rs"
        "\<forall>i<n + 1. rs' ! i = rs[n := ?x] ! i"
        "\<forall>i. n + 1 \<le> i \<and> i < k \<longrightarrow> (case rs' ! i of None \<Rightarrow> \<not> dup i | Some t \<Rightarrow> ipv4_text t)"
        using less.hyps [OF shorter, of "n + 1" "rs[n := ?x]"] less.prems t div by auto
      have n: "n < length rs" using less.prems div by simp
      have "case rs' ! i of None \<Rightarrow> \<not> dup i | Some t \<Rightarrow> ipv4_text t" if "n \<le> i" "i < k" for i
        using that k(5,6) t(1) n by (cases "i = n") auto
      moreover have "find_loop pm dup m subject offset n rs = Some (k, rs')"
        using True n t se assms(1-3) k(1) by (subst find_loop.simps) simp
      ultimately show ?thesis using k div by auto
    qed
  qed
qed

lemma null_code_finds_nothing:
  "re m = NullCode \<Longrightarrow> find_loop pm dup m subject offset n rs = Some (n, rs)"
  using no_code [of "match_data m" subject offset] by (subst find_loop.simps) auto

end

section \<open>A provider\<close>

text \<open>Leftmost search with the backtracking matcher, for the pattern of the source.\<close>

definition bt_match :: "unit pcre2_match" where
  "bt_match p md subject off =
     (if p = Code () \<and> md then
        (case find (\<lambda>s. rx_run MATCH_IPV4 (drop s subject) \<noteq> []) [off..<length subject] of
           None \<Rightarrow> Inl (-1)
         | Some s \<Rightarrow> Inr (s, length subject - length (hd (rx_run MATCH_IPV4 (drop s subject)))))
      else Inl (-51))"

interpretation bt: pcre2_engine bt_match
proof
  fix c :: unit and subject off s e
  assume "bt_match (Code c) True subject off = Inr (s, e)"
  then obtain s: "off \<le> s" "s < length subject" "rx_run MATCH_IPV4 (drop s subject) \<noteq> []" and
    e: "e = length subject - length (hd (rx_run MATCH_IPV4 (drop s subject)))"
    by (auto simp: bt_match_def find_Some_iff split: option.splits)
  let ?r = "hd (rx_run MATCH_IPV4 (drop s subject))"
  have r: "?r \<in> set (rx_run MATCH_IPV4 (drop s subject))" using s by simp
  then obtain t where t: "drop s subject = t @ ?r" using rx_run_prefix by blast
  have len: "length subject - s = length t + length ?r" using arg_cong [OF t, where f = length] by simp
  then have "e = s + length t" using s e by simp
  moreover have "drop (s + length t) subject = ?r"
    using arg_cong [OF t, where f = "drop (length t)"] by (simp add: add.commute)
  ultimately show "off \<le> s \<and> s \<le> e \<and> e \<le> length subject \<and> drop e subject \<in> set (rx_run MATCH_IPV4 (drop s subject))"
    using r s e by simp
qed (simp add: bt_match_def)

section \<open>Properties\<close>

text \<open>
  C15: After a successful set-up, a message shorter than 231 bytes never overflows the caller's 32
  result slots: the search returns, at most one address per seven bytes, and every stored text is a
  dotted quad with octets of at most 255, so that \<open>xdb_check_ip\<close> accepts it; a slot is NULL only
  where \<open>strndup\<close> failed.
\<close>

theorem found_ip_addresses_accepted:
  assumes "pcre2_engine pm" "InitializeRegex (Some c) True init_resolver = Inr g" "length subject < 231"
  shows "\<exists>k rs. found_ip_addresses pm dup g subject 0 (replicate 32 None) = Some (k, rs) \<and>
    k \<le> length subject div 7 \<and> k \<le> 32 \<and> length rs = 32 \<and>
    (\<forall>i<k. case rs ! i of None \<Rightarrow> \<not> dup i | Some t \<Rightarrow> \<exists>ip. xdb_check_ip t = Some (Inr ip))"
proof -
  have g: "initialized g = 1" "re (matcher g) = Code c" "match_data (matcher g)"
    using assms(2) by (auto simp: InitializeRegex_def regex_init_def init_resolver_def Let_def)
  have cap: "length subject div 7 \<le> 32" using assms(3) by simp
  obtain k rs where "find_loop pm dup (matcher g) subject 0 0 (replicate 32 None) = Some (k, rs)"
    "k \<le> length subject div 7" "length rs = 32"
    "\<forall>i. 0 \<le> i \<and> i < k \<longrightarrow> (case rs ! i of None \<Rightarrow> \<not> dup i | Some t \<Rightarrow> ipv4_text t)"
    using pcre2_engine.find_loop_ok [OF assms(1) g(2,3), of subject 0 0 "replicate 32 None" dup] assms(3) cap
    by auto
  then show ?thesis
    using g(1) cap by (fastforce simp: found_ip_addresses_def regex_find_all_def
        dest: ipv4_text_accepted split: option.splits)
qed

definition demo_message :: string where
  "demo_message = ''DnsRet:success,domain:a.cn,UID:1,PID:2;8.8.8.8,1.2.4.8;''"

definition demo_resolver :: "unit resolver" where
  "demo_resolver = \<lparr>matcher = \<lparr>re = Code (), match_data = True\<rparr>, initialized = 1\<rparr>"

theorem found_ip_addresses_accepted_witness:
  "\<exists>k rs. found_ip_addresses bt_match (\<lambda>_. True) demo_resolver demo_message 0 (replicate 32 None) = Some (k, rs) \<and>
    k \<le> 7 \<and> k \<le> 32 \<and> length rs = 32 \<and>
    (\<forall>i<k. case rs ! i of None \<Rightarrow> \<not> True | Some t \<Rightarrow> \<exists>ip. xdb_check_ip t = Some (Inr ip))"
  using found_ip_addresses_accepted [OF bt.pcre2_engine_axioms, of "()" demo_resolver demo_message "\<lambda>_. True"]
  by (simp add: InitializeRegex_def regex_init_def init_resolver_def demo_resolver_def demo_message_def)

lemma comma_match:
  assumes "drop off subject = '',1.1.1.1'' @ rest" "rest = [] \<or> hd rest = CHR '',''"
  shows "bt_match (Code ()) True subject off = Inr (off + 1, off + 8)"
proof -
  let ?hit = "\<lambda>s. rx_run MATCH_IPV4 (drop s subject) \<noteq> []"
  have len: "length subject = off + 8 + length rest"
    using arg_cong [OF assms(1), where f = length] by simp
  have d1: "drop (off + 1) subject = ''1.1.1.1'' @ rest"
    using arg_cong [OF assms(1), where f = "drop 1"] by (simp add: add.commute)
  have no: "\<not> ?hit off"
    unfolding assms(1)
    by (simp add: MATCH_IPV4_def MATCH_OCTET_def Lit_def Opt_def rx_digit_def numeral_eq_Suc)
  have hit: "hd (rx_run MATCH_IPV4 (''1.1.1.1'' @ rest)) = rest" "rx_run MATCH_IPV4 (''1.1.1.1'' @ rest) \<noteq> []"
    using assms(2) by (cases rest;
      simp add: MATCH_IPV4_def MATCH_OCTET_def Lit_def Opt_def rx_digit_def numeral_eq_Suc)+
  have "[off..<length subject] = off # (off + 1) # [off + 2..<length subject]"
    using len by (simp add: upt_rec)
  then have "find ?hit [off..<length subject] = Some (off + 1)"
    using no hit d1 by simp
  then show ?thesis using hit d1 len by (simp add: bt_match_def)
qed

lemma find_loop_overflow:
  assumes "re m = Code ()" "match_data m" "length subject < 2 ^ 32"
    and "drop off subject = concat (replicate k '',1.1.1.1'')" "length rs < n + k" "n \<le> length rs"
  shows "find_loop bt_match dup m subject off n rs = None"
  using assms(4-6)
proof (induction k arbitrary: off n rs)
  case (Suc k)
  let ?rest = "concat (replicate k '',1.1.1.1'')"
  have d: "drop off subject = '',1.1.1.1'' @ ?rest" using Suc.prems(1) by simp
  have hd: "?rest = [] \<or> hd ?rest = CHR '',''" by (cases k) auto
  have len: "off + 8 \<le> length subject" using arg_cong [OF d, where f = length] by simp
  have d8: "drop (off + 8) subject = ?rest" using arg_cong [OF d, where f = "drop 8"] by (simp add: add.commute)
  have IH: "n + 1 \<le> length rs \<Longrightarrow> find_loop bt_match dup m subject (off + 8) (n + 1) (rs[n := x]) = None" for x
    using Suc.IH [OF d8, of "rs[n := x]" "n + 1"] Suc.prems by simp
  have "(off + 8) mod 2 ^ 32 = off + 8" using len assms(3) by simp
  then show ?case
    using comma_match [OF d hd] IH len assms(1,2) by (subst find_loop.simps) auto
qed simp

text \<open>
  A datagram with 33 addresses (264 bytes, a size that the queue accepts) makes
  \<open>regex_find_all\<close> write behind the 32 result slots of \<open>main_loop\<close>.
\<close>

theorem found_ip_addresses_overflow:
  "found_ip_addresses bt_match dup demo_resolver (concat (replicate 33 '',1.1.1.1'')) 0 (replicate 32 None) = None"
proof -
  have "find_loop bt_match dup (matcher demo_resolver) (concat (replicate 33 '',1.1.1.1'')) 0 0 (replicate 32 None) = None"
    by (rule find_loop_overflow [where k = 33])
      (simp_all add: demo_resolver_def length_concat sum_list_replicate)
  then show ?thesis by (simp add: found_ip_addresses_def regex_find_all_def demo_resolver_def)
qed

text \<open>
  \<open>destroy_regex\<close> releases the matcher but leaves \<open>initialized\<close> set: a second \<open>InitializeRegex\<close>
  does nothing, and from then on no address is ever found, whatever the message. (A failed set-up
  ends the process.)
\<close>

theorem destroy_regex_disables_search:
  assumes "pcre2_engine pm" "InitializeRegex (Some c) True init_resolver = Inr g"
  shows "\<exists>g'. destroy_regex g = Some g' \<and> InitializeRegex (Some c) True g' = Inr g' \<and>
    found_ip_addresses pm dup g' subject 0 rs = Some (0, rs)"
proof -
  have g: "initialized g = 1" "re (matcher g) = Code c" "match_data (matcher g)"
    using assms(2) by (auto simp: InitializeRegex_def regex_init_def init_resolver_def Let_def)
  let ?g = "g\<lparr>matcher := \<lparr>re = NullCode, match_data = False\<rparr>\<rparr>"
  have "destroy_regex g = Some ?g"
    using g by (cases g, cases "matcher g") (simp add: destroy_regex_def regex_free_def)
  moreover have "find_loop pm dup (matcher ?g) subject 0 0 rs = Some (0, rs)"
    by (rule pcre2_engine.null_code_finds_nothing [OF assms(1)]) simp
  ultimately show ?thesis
    using g by (auto simp: InitializeRegex_def found_ip_addresses_def regex_find_all_def)
qed

theorem destroy_regex_disables_search_witness:
  "\<exists>g'. destroy_regex demo_resolver = Some g' \<and> InitializeRegex (Some ()) True g' = Inr g' \<and>
    found_ip_addresses bt_match (\<lambda>_. True) g' demo_message 0 [] = Some (0, [])"
  using destroy_regex_disables_search [OF bt.pcre2_engine_axioms, of "()" demo_resolver "\<lambda>_. True" demo_message "[]"]
  by (simp add: InitializeRegex_def regex_init_def init_resolver_def demo_resolver_def)

end
