(* ===== verification/Dns_Client.thy ===== *)
theory Dns_Client
  imports Dns_Event Dns_Message Ip_Resolver Queue
begin

text \<open>
  The DNS client (\<open>dns_client.c\<close>): its globals, the start and the end of the program, one round of the
  receiver's and of the worker's loop. The threads are interleaved in \<open>Queue_Threads\<close>; here a round is what a
  thread does alone.
\<close>

section \<open>State\<close>

definition FOREIGN :: byte where "FOREIGN = 1"
definition DOMESTIC :: byte where "DOMESTIC = 0"

text \<open>The globals, with the state of the modules the client calls, the items in memory and the log library's state.\<close>

record ('c, 'h, 's) client =
  c_queue :: qmem
  c_regex :: "'c resolver"
  c_searcher :: xdb_searcher
  c_index :: "xdb_vector_index option"
  c_log :: "'h option"
  c_region :: byte
  c_db_path :: string
  c_log_path :: string
  c_items :: jmem
  c_lib :: 's

text \<open>
  The surroundings: database files, \<open>/proc\<close>, which allocations succeed, the regular expression engine and
  what compiling gives, and the log library.
\<close>

record ('c, 'h, 's) env =
  files :: "string \<Rightarrow> FILE option"
  index_memory :: bool
  procfs :: "string \<Rightarrow> string option"
  name_memory :: bool
  engine :: "'c pcre2_match"
  compiled :: "'c option"
  match_memory :: bool
  text_memory :: "nat \<Rightarrow> bool"
  json_memory :: internal_hooks
  log_lib :: "('h, 's) selog"

section \<open>Start and end\<close>

text \<open>\<open>exit\<close> with a code is \<open>Inl\<close>.\<close>

definition Queue_Init :: "ptr \<Rightarrow> ('c, 'h, 's) client \<Rightarrow> int + ('c, 'h, 's) client" where
  "Queue_Init malloc_ret g =
     (case QueueInit malloc_ret (c_queue g) of
        (ret, q) \<Rightarrow> if ret \<noteq> SUCCESS then Inl 1 else Inr (g\<lparr>c_queue := q\<rparr>))"

definition ip2region_init :: "('c, 'h, 's) env \<Rightarrow> ('c, 'h, 's) client \<Rightarrow> int \<times> ('c, 'h, 's) client" where
  "ip2region_init e g =
     (let g = g\<lparr>c_index := fst (xdb_load_vector_index_from_file (index_memory e) (files e) (c_db_path g))\<rparr> in
      if c_index g = None then (1, g)
      else (case xdb_new_with_vector_index (files e) (c_db_path g) (c_index g) of
              (err, x) \<Rightarrow> let g = g\<lparr>c_searcher := x\<rparr> in if err \<noteq> 0 then (2, g) else (0, g)))"

text \<open>\<open>xdb_close_vector_index\<close> reads the length through its argument, which must not be NULL.\<close>

definition ip2region_deinit :: "('c, 'h, 's) client \<Rightarrow> ('c, 'h, 's) client option" where
  "ip2region_deinit g = do {
     let g = g\<lparr>c_searcher := xdb_close (c_searcher g)\<rparr>;
     v \<leftarrow> c_index g;
     Some (g\<lparr>c_index := fst (xdb_close_vector_index v)\<rparr>) }"

definition dns_client_init :: "('c, 'h, 's) env \<Rightarrow> ptr \<Rightarrow> ('c, 'h, 's) client \<Rightarrow> int + int \<times> ('c, 'h, 's) client" where
  "dns_client_init e malloc_ret g =
     (case InitializeRegex (compiled e) (match_memory e) (c_regex g) of
        Inl code \<Rightarrow> Inl code
      | Inr r \<Rightarrow>
          (case Queue_Init malloc_ret (g\<lparr>c_regex := r\<rparr>) of
             Inl code \<Rightarrow> Inl code
           | Inr g \<Rightarrow>
               (case ip2region_init e g of (ret, g) \<Rightarrow>
                  if ret \<noteq> 0 then Inr (1, g)
                  else (case log_init (log_lib e) (Some (c_log_path g)) (c_log g) (c_lib g) of (ret, h, s) \<Rightarrow>
                    let g = g\<lparr>c_log := h, c_lib := s\<rparr> in if ret \<noteq> 0 then Inr (2, g) else Inr (0, g)))))"

text \<open>The handler of SIGINT and SIGTERM: the exit code, and what the globals are then.\<close>

definition Stop_And_Exit :: "('c, 'h, 's) env \<Rightarrow> ('c, 'h, 's) client \<Rightarrow> (int \<times> ('c, 'h, 's) client) option" where
  "Stop_And_Exit e g = do {
     g \<leftarrow> ip2region_deinit g;
     r \<leftarrow> destroy_regex (c_regex g);
     q \<leftarrow> bufferDestroy (c_queue g);
     let (h, s) = log_deinit (log_lib e) (c_log g) (c_lib g);
     Some (0, g\<lparr>c_regex := r, c_queue := q, c_log := h, c_lib := s\<rparr>) }"

definition set_region :: "byte \<Rightarrow> ('c, 'h, 's) client \<Rightarrow> ('c, 'h, 's) client" where
  "set_region new_region g = g\<lparr>c_region := new_region\<rparr>"

definition set_db_path :: "string option \<Rightarrow> ('c, 'h, 's) client \<Rightarrow> ('c, 'h, 's) client" where
  "set_db_path new_db_path g =
     (case new_db_path of None \<Rightarrow> g | Some p \<Rightarrow> if length p = 0 then g else g\<lparr>c_db_path := p\<rparr>)"

definition set_log_path :: "string option \<Rightarrow> ('c, 'h, 's) client \<Rightarrow> ('c, 'h, 's) client" where
  "set_log_path new_log_path g =
     (case new_log_path of None \<Rightarrow> g | Some p \<Rightarrow> if length p = 0 then g else g\<lparr>c_log_path := p\<rparr>)"

section \<open>The receiver\<close>

text \<open>
  A round of \<open>udp_server_loop\<close> with a datagram \<open>data\<close>, of which \<open>recvfrom\<close> stores what fits into the 1024 bytes.
  The terminator behind a datagram that fills the array is written past its end. \<open>new\<close> is the new node.
\<close>

definition udp_round :: "ptr \<Rightarrow> string \<Rightarrow> ('c, 'h, 's) client \<Rightarrow> ('c, 'h, 's) client option" where
  "udp_round new data g =
     (let got = take 1024 data; n = length got in
      if 1024 \<le> n then None
      else do {
        (size, q) \<leftarrow> GetQueueSize (c_queue g);
        if sint size > 1000 then Some (g\<lparr>c_queue := q\<rparr>)
        else do {
          (ret, q) \<leftarrow> BufferInQueue new (got @ [NUL]) (of_nat n) q;
          (size, q) \<leftarrow> (if ret \<noteq> SUCCESS then Some (0, q) else GetQueueSize q);
          Some (g\<lparr>c_queue := q\<rparr>) } })"

section \<open>The worker\<close>

definition byte_text :: "byte list \<Rightarrow> string" where
  "byte_text bs = map (\<lambda>b. char_of (unat b)) bs"

text \<open>The two characters of the word for China, in UTF-8.\<close>

definition china_text :: string where
  "china_text = [CHR 0xE4, CHR 0xB8, CHR 0xAD, CHR 0xE5, CHR 0x9B, CHR 0xBD]"

definition search_ip_string :: "string \<Rightarrow> byte \<Rightarrow> xdb_searcher \<Rightarrow> (int \<times> byte \<times> xdb_searcher) option" where
  "search_ip_string ip is_china searcher = do {
     (err, region_buffer, searcher) \<leftarrow> xdb_search_by_string searcher ip (replicate 256 0) 256;
     if err \<noteq> 0 then Some (1, is_china, searcher)
     else do {
       region \<leftarrow> c_string (byte_text region_buffer);
       Some (0, if strstr region china_text then 1 else 0, searcher) } }"

text \<open>The loop over the addresses from index \<open>i\<close> on; \<open>found\<close> are the entries of \<open>found_index_array\<close> so far.\<close>

fun locate_ips :: "byte \<Rightarrow> nat \<Rightarrow> string option list \<Rightarrow> xdb_searcher \<Rightarrow> nat list \<Rightarrow> (nat list \<times> xdb_searcher) option" where
  "locate_ips region i [] searcher found = Some (found, searcher)"
| "locate_ips region i (r # rs) searcher found = do {
     ip \<leftarrow> r;
     (ret, is_china, searcher) \<leftarrow> search_ip_string ip 0 searcher;
     let found =
       (if ret = 0 then
          if is_china \<noteq> 0 then if region = FOREIGN then found @ [i] else found
          else if region \<noteq> DOMESTIC then found else found @ [i]
        else found @ [i]);
     locate_ips region (i + 1) rs searcher found }"

text \<open>What the worker does with the data of a node. \<open>printf\<close> reads it as a C string first.\<close>

definition process_packet :: "('c, 'h, 's) env \<Rightarrow> string \<Rightarrow> ('c, 'h, 's) client \<Rightarrow> ('c, 'h, 's) client option" where
  "process_packet e data g = do {
     message \<leftarrow> c_string data;
     (ret, msg) \<leftarrow> PraseMessage 64 128 message \<lparr>dnsRet = [], domain = [], uid = 0, pid = 0\<rparr>;
     if ret \<noteq> 0 then Some g
     else do {
       let pid_name = get_pid_name (procfs e) (name_memory e) (pid msg);
       (match_count, match_results) \<leftarrow>
         found_ip_addresses (engine e) (text_memory e) (c_regex g) message 0 (replicate 32 None);
       (found, searcher) \<leftarrow> locate_ips (c_region g) 0 (take match_count match_results) (c_searcher g) [];
       let g = g\<lparr>c_searcher := searcher\<rparr>;
       if length found > 0 then do {
         (m, s) \<leftarrow> record_event (log_lib e) (c_log g) (json_memory e) (dnsRet msg) (domain msg) (uid msg) (pid msg) pid_name
           (map (\<lambda>i. the (match_results ! i)) found) (c_items g) (c_lib g);
         Some (g\<lparr>c_items := m, c_lib := s\<rparr>) }
       else Some g } }"

definition main_round :: "('c, 'h, 's) env \<Rightarrow> ('c, 'h, 's) client \<Rightarrow> ('c, 'h, 's) client option" where
  "main_round e g = do {
     (ret, node, q) \<leftarrow> BufferOutQueue None (c_queue g);
     let g = g\<lparr>c_queue := q\<rparr>;
     if ret = BUF_EMPTY then Some g
     else if ret \<noteq> SUCCESS then Some g
     else do {
       a \<leftarrow> node;
       nd \<leftarrow> nodes q a;
       g \<leftarrow> process_packet e (ndata nd) g;
       q \<leftarrow> free_node a (c_queue g);
       Some (g\<lparr>c_queue := q\<rparr>) } }"


section \<open>Which addresses are recorded\<close>

text \<open>What the database says of an address: \<open>None\<close> for a failed lookup, else whether the region names China.\<close>

definition located :: "byte list \<Rightarrow> string \<Rightarrow> bool option" where
  "located img ip =
     (case xdb_check_ip ip of
        Some (Inr a) \<Rightarrow>
          (let t = region_of img a in
           if 256 \<le> length t then None else Some (strstr (takeWhile (\<lambda>c. c \<noteq> NUL) (byte_text t)) china_text))
      | _ \<Rightarrow> None)"

text \<open>Recorded are: addresses in the region that is not expected, and addresses that could not be looked up.\<close>

definition flagged :: "byte \<Rightarrow> byte list \<Rightarrow> string \<Rightarrow> bool" where
  "flagged region img ip \<longleftrightarrow> (case located img ip of None \<Rightarrow> True | Some china \<Rightarrow> if china then region = FOREIGN else region = DOMESTIC)"

definition db_ok :: "byte list \<Rightarrow> bool" where
  "db_ok img \<longleftrightarrow> (\<forall>a. row_ok img a)"

lemma region_c_string:
  "c_string (byte_text (t @ 0 # r)) = Some (takeWhile (\<lambda>c. c \<noteq> NUL) (byte_text t))"
proof -
  have z: "char_of (unat (0 :: byte)) = NUL" by (simp add: char_of_def)
  have b: "byte_text (t @ 0 # r) = byte_text t @ NUL # byte_text r" unfolding byte_text_def using z by simp
  have "takeWhile (\<lambda>c. c \<noteq> NUL) (byte_text t @ NUL # byte_text r) = takeWhile (\<lambda>c. c \<noteq> NUL) (byte_text t)"
    by (induction "byte_text t") (auto simp: takeWhile_tail)
  then show ?thesis unfolding b by (simp add: c_string_def)
qed

lemma search_ip_string_located:
  assumes x: "by_vector_index img x" and db: "db_ok img" and a: "xdb_check_ip ip = Some (Inr a)"
  shows "\<exists>x'. by_vector_index img x' \<and> search_ip_string ip ch x =
    Some (case located img ip of None \<Rightarrow> (1, ch, x') | Some china \<Rightarrow> (0, if china then 1 else 0, x'))"
proof -
  have row: "row_ok img a" using db by (simp add: db_ok_def)
  let ?ans = "region_answer (region_of img a) (replicate 256 0) 256"
  have "replicate 256 (0 :: byte) \<noteq> []" "(256 :: nat) < 2 ^ 31" "256 \<le> length (replicate 256 (0 :: byte))" by simp_all
  from indexed.search_ok [OF x row this(2,3,1)] obtain x' where
    x': "by_vector_index img x'" "xdb_search x a (replicate 256 0) 256 = Some (fst ?ans, snd ?ans, x')" by blast
  have s: "xdb_search_by_string x ip (replicate 256 0) 256 = Some (fst ?ans, snd ?ans, x')"
    using a x'(2) by (simp add: xdb_search_by_string_def)
  show ?thesis
  proof (cases "256 \<le> length (region_of img a)")
    case True
    then have "fst ?ans = 1" by (auto simp: region_answer_def)
    then show ?thesis using True s x'(1) a by (intro exI [of _ x']) (simp add: search_ip_string_def located_def Let_def)
  next
    case False
    then have an: "?ans = (0, region_of img a @ 0 # drop (length (region_of img a) + 1) (replicate 256 0))"
      by (auto simp: region_answer_def)
    show ?thesis
      using False s x'(1) a by (intro exI [of _ x']) (simp add: search_ip_string_def located_def Let_def an region_c_string del: drop_replicate)
  qed
qed

lemma locate_ips_filter:
  assumes "by_vector_index img x" "db_ok img" "\<forall>t \<in> set ts. \<exists>a. xdb_check_ip t = Some (Inr a)"
  shows "\<exists>x'. by_vector_index img x' \<and>
    locate_ips region i (map Some ts) x found = Some (found @ filter (\<lambda>j. flagged region img (ts ! (j - i))) [i..<i + length ts], x')"
  using assms(1,3)
proof (induction ts arbitrary: i x found)
  case Nil
  then show ?case by auto
next
  case (Cons t ts)
  obtain a where a: "xdb_check_ip t = Some (Inr a)" using Cons.prems by auto
  obtain x1 where x1: "by_vector_index img x1" "search_ip_string t 0 x =
      Some (case located img t of None \<Rightarrow> (1, 0, x1) | Some china \<Rightarrow> (0, if china then 1 else 0, x1))"
    using search_ip_string_located [OF Cons.prems(1) assms(2) a, of 0] by blast
  let ?f = "if flagged region img t then found @ [i] else found"
  have step: "locate_ips region i (map Some (t # ts)) x found = locate_ips region (i + 1) (map Some ts) x1 ?f"
    using x1(2) by (auto simp: flagged_def Let_def split: option.split)
  obtain x' where x': "by_vector_index img x'" "locate_ips region (i + 1) (map Some ts) x1 ?f =
      Some (?f @ filter (\<lambda>j. flagged region img (ts ! (j - (i + 1)))) [i + 1..<i + 1 + length ts], x')"
    using Cons.IH [OF x1(1), of "i + 1" ?f] Cons.prems(2) by auto
  have "filter (\<lambda>j. flagged region img ((t # ts) ! (j - i))) [i + 1..<i + 1 + length ts] =
      filter (\<lambda>j. flagged region img (ts ! (j - (i + 1)))) [i + 1..<i + 1 + length ts]"
    by (rule filter_cong [OF refl]) (auto simp: nth_Cons')
  moreover have "[i..<i + length (t # ts)] = i # [i + 1..<i + 1 + length ts]" by (subst upt_conv_Cons) simp_all
  ultimately show ?case unfolding step using x' by auto
qed

lemma filter_indices: "map ((!) ts) (filter (\<lambda>j. P (ts ! j)) [0..<length ts]) = filter P ts"
proof -
  have "filter P ts = filter P (map ((!) ts) [0..<length ts])" by (simp add: map_nth)
  also have "\<dots> = map ((!) ts) (filter (P \<circ> (!) ts) [0..<length ts])" by (rule filter_map)
  finally show ?thesis by (simp add: comp_def)
qed


section \<open>A message, from the packet to the log\<close>

lemma ipv4_chars: "ipv4_text t \<Longrightarrow> length t \<le> 15 \<and> (\<forall>c \<in> set t. is_digit c \<or> c = CHR ''.'')"
  using ipv4_text_length [of t] by (auto simp: ipv4_text_def dotted_def octet_text_def)

text \<open>A client that is set up: the pattern compiled, the database open, memory for items, text and results.\<close>

definition ready :: "('c, 'h, 's) env \<Rightarrow> ('c, 'h, 's) client \<Rightarrow> byte list \<Rightarrow> bool" where
  "ready e g img \<longleftrightarrow> initialized (c_regex g) \<noteq> 0 \<and> (\<exists>c. re (matcher (c_regex g)) = Code c) \<and> match_data (matcher (c_regex g)) \<and>
     pcre2_engine (engine e) \<and> (\<forall>k. text_memory e k) \<and> by_vector_index img (c_searcher g) \<and> db_ok img \<and>
     (\<forall>n. can_alloc (json_memory e) n) \<and> granted (c_items g)"

lemma found_texts:
  assumes r: "ready e g img" and len: "length subject < 231"
  shows "\<exists>rs ts. found_ip_addresses (engine e) (text_memory e) (c_regex g) subject 0 (replicate 32 None) = Some (length ts, rs) \<and>
    take (length ts) rs = map Some ts \<and> length ts \<le> 32 \<and> (\<forall>t \<in> set ts. ipv4_text t)"
proof -
  obtain c where c: "re (matcher (c_regex g)) = Code c" using r by (auto simp: ready_def)
  have cap: "length subject div 7 \<le> 32" using len by simp
  obtain k rs where k: "find_loop (engine e) (text_memory e) (matcher (c_regex g)) subject 0 0 (replicate 32 None) = Some (k, rs)"
    "k \<le> length subject div 7" "length rs = 32"
    "\<forall>i. 0 \<le> i \<and> i < k \<longrightarrow> (case rs ! i of None \<Rightarrow> \<not> text_memory e i | Some t \<Rightarrow> ipv4_text t)"
    using pcre2_engine.find_loop_ok [of "engine e" "matcher (c_regex g)" c subject 0 0 "replicate 32 None" "text_memory e"] r c len cap
    by (auto simp: ready_def)
  have some: "\<exists>t. rs ! i = Some t \<and> ipv4_text t" if "i < k" for i
    using k(4) that r by (auto simp: ready_def split: option.splits)
  define ts where "ts = map (\<lambda>i. the (rs ! i)) [0..<k]"
  have l: "length ts = k" by (simp add: ts_def)
  have "take k rs = map Some ts"
  proof (rule nth_equalityI)
    show "length (take k rs) = length (map Some ts)" using k(2,3) cap by (simp add: ts_def)
    fix i assume "i < length (take k rs)"
    then have i: "i < k" by simp
    then show "take k rs ! i = map Some ts ! i" using some [OF i] by (auto simp: ts_def)
  qed
  moreover have "\<forall>t \<in> set ts. ipv4_text t" using some by (fastforce simp: ts_def)
  ultimately show ?thesis
    using r k(1,2) cap l by (intro exI [of _ rs] exI [of _ ts]) (simp add: found_ip_addresses_def regex_find_all_def ready_def)
qed

lemma pid_name_ok: "get_pid_name pf a p = Some n \<Longrightarrow> length n \<le> 255 \<and> no_nul n"
proof -
  assume "get_pid_name pf a p = Some n"
  then obtain b where c: "c_string (take 255 b @ [NUL]) = Some n"
    by (auto simp: get_pid_name_def Let_def split: option.splits if_splits)
  have n: "n = takeWhile (\<lambda>c. c \<noteq> NUL) (take 255 b @ [NUL])" "no_nul n"
    using c c_string_no_nul [OF c] by (auto simp: c_string_def)
  have "length n \<le> length (take 255 b)"
    unfolding n(1) by (cases "NUL \<in> set (take 255 b)")
      (auto simp: takeWhile_append length_takeWhile_le simp del: take_append intro: order_trans [OF length_takeWhile_le])
  then show ?thesis using n(2) by simp
qed

definition shown_name :: "string option \<Rightarrow> string" where
  "shown_name n = (case n of None \<Rightarrow> ''Unknown'' | Some x \<Rightarrow> x)"

text \<open>
  \<open>logged_event e g g' ev\<close>: the log library got one record, with the text of an event that parses back to
  \<open>ev\<close>; the object of the event is left in memory beside what was there.
\<close>

definition logged_event :: "('c, 'h, 's) env \<Rightarrow> jtree list \<Rightarrow> cJSON list \<Rightarrow> ('c, 'h, 's) client \<Rightarrow> ('c, 'h, 's) client \<Rightarrow> cJSON \<Rightarrow> bool" where
  "logged_event e F vs g g' ev \<longleftrightarrow> (\<exists>t a ts.
     c_lib g' = snd (snd (log_write (log_lib e) (c_log g) SELOG_LOG_TYPE_SYSTEM 1 1 SELOG_LOG_LEVEL_MIDDLE 3
       (''Event logged: '' @ t) (c_lib g))) \<and>
     cJSON_Parse (json_memory e) (Some t) = Some (Some ev, length t) \<and> length t < SELOG_SINGLE_LOG_SIZE - 15 \<and>
     forest_ok (c_items g') (Node a ts # F) (ev # vs))"

lemma PraseMessage_message:
  assumes "message_ok msg" "rest = [] \<or> \<not> is_digit (hd rest)" "length (dnsRet msg) < 64" "length (domain msg) < 128"
  shows "PraseMessage 64 128 (message_text msg @ rest) m = Some (0, msg)"
  using sscanf_message [OF assms(1,2)] assms(3,4) by (simp add: PraseMessage_def fits_def)

lemma process_packet_ok:
  assumes r: "ready e g img" and F: "forest_ok (c_items g) F vs"
    and msg: "message_ok msg" "no_nul (message_text msg)" "length (dnsRet msg) < 64" "length (domain msg) < 128"
    and rest: "rest = [] \<or> \<not> is_digit (hd rest)" and data: "c_string data = Some (message_text msg @ rest)"
    and len: "length (message_text msg @ rest) < 231"
  shows "\<exists>g' ts rs. process_packet e data g = Some g' \<and>
    found_ip_addresses (engine e) (text_memory e) (c_regex g) (message_text msg @ rest) 0 (replicate 32 None) = Some (length ts, rs) \<and>
    take (length ts) rs = map Some ts \<and> ready e g' img \<and> c_queue g' = c_queue g \<and>
    (let ips = filter (flagged (c_region g) img) ts in
     if ips = [] then c_lib g' = c_lib g \<and> c_items g' = c_items g
     else logged_event e F vs g g' (event_item (dnsRet msg) (domain msg) (uid msg) (pid msg)
       (shown_name (get_pid_name (procfs e) (name_memory e) (pid msg))) ips))"
proof -
  let ?m = "message_text msg @ rest"
  obtain rs ts where f: "found_ip_addresses (engine e) (text_memory e) (c_regex g) ?m 0 (replicate 32 None) = Some (length ts, rs)"
    "take (length ts) rs = map Some ts" "length ts \<le> 32" "\<forall>t \<in> set ts. ipv4_text t"
    using found_texts [OF r len] by blast
  have acc: "\<forall>t \<in> set ts. \<exists>a. xdb_check_ip t = Some (Inr a)" using f(4) ipv4_text_accepted by blast
  have db: "by_vector_index img (c_searcher g)" "db_ok img" using r by (auto simp: ready_def)
  define found where "found = filter (\<lambda>j. flagged (c_region g) img (ts ! j)) [0..<length ts]"
  obtain x' where x': "by_vector_index img x'" "locate_ips (c_region g) 0 (map Some ts) (c_searcher g) [] = Some (found, x')"
    using locate_ips_filter [OF db acc, of "c_region g" 0 "[]"] by (auto simp: found_def)
  have pm: "PraseMessage 64 128 ?m \<lparr>dnsRet = [], domain = [], uid = 0, pid = 0\<rparr> = Some (0, msg)"
    by (rule PraseMessage_message [OF msg(1) rest msg(3,4)])
  define ips where "ips = filter (flagged (c_region g) img) ts"
  have nth: "rs ! i = Some (ts ! i)" if "i < length ts" for i
    using arg_cong [OF f(2), where f = "\<lambda>l. l ! i"] that by simp
  have "map (\<lambda>i. the (rs ! i)) found = map ((!) ts) found" using nth by (auto simp: found_def)
  also have "\<dots> = ips" unfolding ips_def found_def by (rule filter_indices)
  finally have sel: "map (\<lambda>i. the (rs ! i)) found = ips" .
  then have e0: "found = [] \<longleftrightarrow> ips = []" by auto
  define nm where "nm = get_pid_name (procfs e) (name_memory e) (pid msg)"
  have run: "process_packet e data g = (if found \<noteq> [] then do {
         (m, s) \<leftarrow> record_event (log_lib e) (c_log g) (json_memory e) (dnsRet msg) (domain msg) (uid msg) (pid msg) nm ips (c_items g) (c_lib g);
         Some (g\<lparr>c_searcher := x', c_items := m, c_lib := s\<rparr>) } else Some (g\<lparr>c_searcher := x'\<rparr>))"
    unfolding process_packet_def nm_def [symmetric]
    by (simp add: data pm f(1,2) x'(2) sel nm_def [symmetric] Let_def)
  show ?thesis
  proof (cases "ips = []")
    case True
    have "process_packet e data g = Some (g\<lparr>c_searcher := x'\<rparr>)" using True e0 run by simp
    moreover have "ready e (g\<lparr>c_searcher := x'\<rparr>) img" using r x'(1) by (auto simp: ready_def)
    ultimately show ?thesis using f(1,2) True by (intro exI [of _ "g\<lparr>c_searcher := x'\<rparr>"] exI [of _ ts] exI [of _ rs]) (simp add: ips_def)
  next
    case False
    have nn: "no_nul (dnsRet msg)" "no_nul (domain msg)" using msg(2) by (auto simp: message_text_def no_nul_def)
    have ok: "fields_ok (dnsRet msg) (domain msg) (uid msg) (pid msg) (case nm of None \<Rightarrow> ''Unknown'' | Some x \<Rightarrow> x) ips"
    proof -
      have "length ips \<le> 32" using f(3) unfolding ips_def by (intro order_trans [OF length_filter_le])
      moreover have "\<forall>t \<in> set ips. length t \<le> 15 \<and> (\<forall>c \<in> set t. is_digit c \<or> c = CHR ''.'')"
        using f(4) ipv4_chars by (auto simp: ips_def)
      moreover have "length (case nm of None \<Rightarrow> ''Unknown'' | Some x \<Rightarrow> x) \<le> 255 \<and> no_nul (case nm of None \<Rightarrow> ''Unknown'' | Some x \<Rightarrow> x)"
        using pid_name_ok [of "procfs e" "name_memory e" "pid msg"] by (auto simp: nm_def no_nul_def split: option.split)
      ultimately show ?thesis
        using msg(1,3,4) nn by (auto simp: fields_ok_def message_ok_def INT_MIN_def INT_MAX_def)
    qed
    have al: "\<forall>n. can_alloc (json_memory e) n" "granted (c_items g)" using r by (auto simp: ready_def)
    obtain t m' a us where rec: "record_event (log_lib e) (c_log g) (json_memory e) (dnsRet msg) (domain msg) (uid msg) (pid msg) nm ips (c_items g) (c_lib g) =
        Some (m', snd (snd (log_write (log_lib e) (c_log g) SELOG_LOG_TYPE_SYSTEM 1 1 SELOG_LOG_LEVEL_MIDDLE 3 (''Event logged: '' @ t) (c_lib g))))"
      "cJSON_Parse (json_memory e) (Some t) = Some (Some (event_item (dnsRet msg) (domain msg) (uid msg) (pid msg) (shown_name nm) ips), length t)"
      "length t < SELOG_SINGLE_LOG_SIZE - 15" "granted m'"
      "forest_ok m' (Node a us # F) (event_item (dnsRet msg) (domain msg) (uid msg) (pid msg) (shown_name nm) ips # vs)"
      using record_event_ok [OF F al(2,1) ok, of "log_lib e" "c_log g" "c_lib g"] unfolding shown_name_def by blast
    define g' where "g' = g\<lparr>c_searcher := x', c_items := m', c_lib := snd (snd (log_write (log_lib e) (c_log g) SELOG_LOG_TYPE_SYSTEM 1 1
      SELOG_LOG_LEVEL_MIDDLE 3 (''Event logged: '' @ t) (c_lib g)))\<rparr>"
    have "process_packet e data g = Some g'" using False e0 rec(1) by (simp add: run g'_def)
    moreover have "ready e g' img" using r x'(1) rec(4) by (auto simp: ready_def g'_def)
    moreover have "logged_event e F vs g g' (event_item (dnsRet msg) (domain msg) (uid msg) (pid msg) (shown_name nm) ips)"
      unfolding logged_event_def using rec(2,3,5) by (intro exI [of _ t] exI [of _ a] exI [of _ us]) (simp add: g'_def)
    ultimately show ?thesis
      using f(1,2) False by (intro exI [of _ g'] exI [of _ ts] exI [of _ rs]) (simp add: ips_def [symmetric] nm_def [symmetric] g'_def)
  qed
qed


section \<open>Rounds\<close>

lemma dseg_free: "a \<notin> set as \<Longrightarrow> dseg (h(a := v)) pv p as x = dseg h pv p as x"
  by (induction as arbitrary: pv p) (auto split: option.splits)

lemma queue_ok_free:
  assumes q: "queue_ok m as" and a: "a \<notin> set as" "nodes m a \<noteq> None"
  shows "\<exists>m'. free_node a m = Some m' \<and> queue_ok m' as \<and> nodes m' a = None"
proof -
  obtain nd where nd: "nodes m a = Some nd" using a by blast
  have "map (node_len (m\<lparr>nodes := (nodes m)(a := None)\<rparr>)) as = map (node_len m) as"
    using a(1) by (intro map_cong) (auto simp: node_len_def)
  from arg_cong [OF this, of sum_list] have "queue_ok (m\<lparr>nodes := (nodes m)(a := None)\<rparr>) as"
    using q a(1) by (auto simp: queue_ok_def qlist_def dseg_free split: option.splits)
  then show ?thesis using nd by (simp add: free_node_def)
qed

lemma queue_out:
  assumes "queue_ok m (a # as)"
  shows "\<exists>m' nd. BufferOutQueue None m = Some (SUCCESS, Some a, m') \<and> queue_ok m' as \<and> nodes m' a = Some nd \<and>
    ndata nd = node_data m a \<and> a \<notin> set as"
proof -
  obtain m' where m': "BufferOutQueue None m = Some (SUCCESS, Some a, m')" "queue_ok m' as" "same_payload m m'" "packet_ok (nodes m' a)"
    using BufferOutQueue_ok [OF assms, of None] by blast
  then obtain nd where nd: "nodes m' a = Some nd" by (auto simp: packet_ok_def split: option.splits)
  have "distinct (a # as)" using assms by (auto simp: queue_ok_def qlist_def split: option.splits)
  moreover have "node_data m' a = node_data m a" by (rule same_payload_data [OF m'(3)])
  ultimately show ?thesis using m' nd by (auto simp: node_data_def)
qed

lemma main_round_ok:
  assumes q: "queue_ok (c_queue g) (a # as)" and r: "ready e g img" and F: "forest_ok (c_items g) F vs"
    and msg: "message_ok msg" "no_nul (message_text msg)" "length (dnsRet msg) < 64" "length (domain msg) < 128"
    and rest: "rest = [] \<or> \<not> is_digit (hd rest)" and data: "c_string (node_data (c_queue g) a) = Some (message_text msg @ rest)"
    and len: "length (message_text msg @ rest) < 231"
  shows "\<exists>g' ts rs. main_round e g = Some g' \<and> queue_ok (c_queue g') as \<and> nodes (c_queue g') a = None \<and> ready e g' img \<and>
    found_ip_addresses (engine e) (text_memory e) (c_regex g) (message_text msg @ rest) 0 (replicate 32 None) = Some (length ts, rs) \<and>
    take (length ts) rs = map Some ts \<and>
    (let ips = filter (flagged (c_region g) img) ts in
     if ips = [] then c_lib g' = c_lib g \<and> c_items g' = c_items g
     else logged_event e F vs g g' (event_item (dnsRet msg) (domain msg) (uid msg) (pid msg)
       (shown_name (get_pid_name (procfs e) (name_memory e) (pid msg))) ips))"
proof -
  obtain m' nd where m': "BufferOutQueue None (c_queue g) = Some (SUCCESS, Some a, m')" "queue_ok m' as" "nodes m' a = Some nd"
    "ndata nd = node_data (c_queue g) a" "a \<notin> set as" using queue_out [OF q] by blast
  let ?g = "g\<lparr>c_queue := m'\<rparr>"
  have r': "ready e ?g img" using r by (simp add: ready_def)
  have F': "forest_ok (c_items ?g) F vs" using F by simp
  obtain g1 ts rs where g1: "process_packet e (ndata nd) ?g = Some g1"
    "found_ip_addresses (engine e) (text_memory e) (c_regex ?g) (message_text msg @ rest) 0 (replicate 32 None) = Some (length ts, rs)"
    "take (length ts) rs = map Some ts" "ready e g1 img" "c_queue g1 = c_queue ?g"
    "let ips = filter (flagged (c_region ?g) img) ts in
     if ips = [] then c_lib g1 = c_lib ?g \<and> c_items g1 = c_items ?g
     else logged_event e F vs ?g g1 (event_item (dnsRet msg) (domain msg) (uid msg) (pid msg)
       (shown_name (get_pid_name (procfs e) (name_memory e) (pid msg))) ips)"
    using process_packet_ok [OF r' F' msg rest data [folded m'(4)] len] by blast
  obtain m2 where m2: "free_node a m' = Some m2" "queue_ok m2 as" "nodes m2 a = None"
    using queue_ok_free [OF m'(2,5)] m'(3) by auto
  let ?g' = "g1\<lparr>c_queue := m2\<rparr>"
  have "main_round e g = Some ?g'" using m'(1,3) g1(1,5) m2(1) by (simp add: main_round_def)
  moreover have "ready e ?g' img" using g1(4) by (simp add: ready_def)
  moreover have "logged_event e F vs g ?g' ev" if "logged_event e F vs ?g g1 ev" for ev
    using that unfolding logged_event_def by simp
  ultimately show ?thesis
    using g1(2,3,6) m2(2,3) by (intro exI [of _ ?g'] exI [of _ ts] exI [of _ rs]) (auto simp: Let_def)
qed

text \<open>
  C3: the worker does its job, from the packet to the log. When the oldest packet of the queue is a message of the
  resolver (terminated, shorter than 231 bytes), one round of \<open>main_loop\<close> takes it out and frees it, finds the
  addresses in it, looks them up, and records exactly those that are in the unexpected region or unknown: nothing if
  there are none; otherwise one log entry, not truncated, whose JSON text parses back to the object with the message's
  fields, the process name and these addresses in order. (The object itself stays allocated: a leak per event.)
\<close>

theorem main_round_logs_event:
  assumes q: "queue_ok (c_queue g) (a # as)" and r: "ready e g img" and F: "forest_ok (c_items g) F vs"
    and msg: "message_ok msg" "no_nul (message_text msg)" "length (dnsRet msg) < 64" "length (domain msg) < 128"
    and rest: "rest = [] \<or> \<not> is_digit (hd rest)" and data: "c_string (node_data (c_queue g) a) = Some (message_text msg @ rest)"
    and len: "length (message_text msg @ rest) < 231"
  shows "\<exists>g' ts rs. main_round e g = Some g' \<and> queue_ok (c_queue g') as \<and> nodes (c_queue g') a = None \<and> ready e g' img \<and>
    found_ip_addresses (engine e) (text_memory e) (c_regex g) (message_text msg @ rest) 0 (replicate 32 None) = Some (length ts, rs) \<and>
    take (length ts) rs = map Some ts \<and>
    (let ips = filter (flagged (c_region g) img) ts in
     if ips = [] then c_lib g' = c_lib g \<and> c_items g' = c_items g
     else logged_event e F vs g g' (event_item (dnsRet msg) (domain msg) (uid msg) (pid msg)
       (shown_name (get_pid_name (procfs e) (name_memory e) (pid msg))) ips))"
  by (rule main_round_ok [OF assms])

lemma udp_round_run:
  assumes q: "queue_ok (c_queue g) as" "length as \<le> 1001" and a: "nodes (c_queue g) a = None" and d: "length data < 1024"
  shows "\<exists>g'. udp_round (Some a) data g = Some g' \<and>
    (if 1000 < length as \<or> length data < 20 then c_queue g' = c_queue g
     else queue_ok (c_queue g') (as @ [a]) \<and> packets (c_queue g') (as @ [a]) = packets (c_queue g) as @ [data] \<and>
       (\<forall>b. b \<noteq> a \<longrightarrow> map_option payload (nodes (c_queue g') b) = map_option payload (nodes (c_queue g) b)))"
proof -
  let ?n = "of_nat (length data) :: u32"
  have got: "take 1024 data = data" using d by simp
  have n: "unat ?n = length data" using d by simp
  have size: "sint (of_nat (length as) :: u32) = int (length as)"
    using q(2) sint_small [of "of_nat (length as)"] by simp
  have sz: "GetQueueSize (c_queue g) = Some (of_nat (length as), c_queue g)" by (rule GetQueueSize_ok [OF q(1)])
  obtain l where gq: "g_queue (c_queue g) = Some l" using q(1) by (rule queue_okE)
  consider (full) "1000 < length as" | (small) "length as \<le> 1000" "length data < 20" | (ok) "length as \<le> 1000" "20 \<le> length data"
    by linarith
  then show ?thesis
  proof cases
    case full
    then show ?thesis using d got sz size by (simp add: udp_round_def Let_def)
  next
    case small
    then have "?n < 20" by (simp add: word_less_nat_alt n)
    then have "BufferInQueue (Some a) (data @ [NUL]) ?n (c_queue g) = Some (DATA_INVALID, c_queue g)"
      using gq by (simp add: BufferInQueue_def)
    then show ?thesis using small d got sz size by (simp add: udp_round_def Let_def)
  next
    case ok
    have "20 \<le> ?n" "?n \<le> 1024" "unat ?n \<le> length (data @ [NUL])" "Suc (length as) < 2 ^ 31"
      using ok d by (simp_all add: word_le_nat_alt n)
    from BufferInQueue_ok [OF q(1) a this] n obtain m' where m': "BufferInQueue (Some a) (data @ [NUL]) ?n (c_queue g) = Some (SUCCESS, m')"
      "queue_ok m' (as @ [a])" "packets m' (as @ [a]) = packets (c_queue g) as @ [data]"
      "\<forall>b. b \<noteq> a \<longrightarrow> map_option payload (nodes m' b) = map_option payload (nodes (c_queue g) b)" by auto
    then show ?thesis using ok d got sz size GetQueueSize_ok [OF m'(2)] by (simp add: udp_round_def Let_def)
  qed
qed

lemma udp_round_frame: "udp_round new data g = Some g' \<Longrightarrow> g' = g\<lparr>c_queue := c_queue g'\<rparr>"
  by (auto simp: udp_round_def Let_def split: if_splits bind_splits)

text \<open>
  C18: the receiver with a datagram: one that fills the 1024 bytes makes it write a terminator past the end of its
  array, whatever the state; a shorter one is queued as it came, unless it has less than 20 bytes or the queue
  already holds more than 1000 packets, when nothing changes.
\<close>

theorem udp_round_cases:
  assumes "queue_ok (c_queue g) as" "length as \<le> 1001" "nodes (c_queue g) a = None"
  shows "if 1024 \<le> length data then udp_round (Some a) data g = None
    else \<exists>g'. udp_round (Some a) data g = Some g' \<and>
      (if 1000 < length as \<or> length data < 20 then c_queue g' = c_queue g
       else queue_ok (c_queue g') (as @ [a]) \<and> packets (c_queue g') (as @ [a]) = packets (c_queue g) as @ [data])"
proof (cases "1024 \<le> length data")
  case True
  then show ?thesis by (simp add: udp_round_def min_def)
next
  case False
  then show ?thesis using udp_round_run [OF assms, of data] by auto
qed

text \<open>
  C29: a datagram of 20 to 1023 bytes that has no terminator of its own, received when the queue is empty, brings the worker
  down: the queue copies its bytes without the NUL that the receiver put behind them, and the worker prints the block as a
  C string, reading past its end.
\<close>

theorem unterminated_packet_overread:
  assumes "queue_ok (c_queue g) []" "nodes (c_queue g) a = None" "no_nul data" "20 \<le> length data" "length data < 1024"
  shows "\<exists>g'. udp_round (Some a) data g = Some g' \<and> main_round e g' = None"
proof -
  obtain g' where g': "udp_round (Some a) data g = Some g'" "queue_ok (c_queue g') [a]"
    "packets (c_queue g') [a] = [data]"
    using udp_round_run [OF assms(1) _ assms(2,5)] assms(4) by (auto simp: packets_def)
  obtain m' nd where m': "BufferOutQueue None (c_queue g') = Some (SUCCESS, Some a, m')" "nodes m' a = Some nd"
    "ndata nd = node_data (c_queue g') a" using queue_out [OF g'(2)] by blast
  have "ndata nd = data" using m'(3) g'(3) by (simp add: packets_def)
  then have "process_packet e (ndata nd) h = None" for h
    using assms(3) by (simp add: process_packet_def c_string_None_iff [THEN iffD2])
  then have "main_round e g' = None" using m'(1,2) by (simp add: main_round_def)
  then show ?thesis using g'(1) by blast
qed

lemma dns_client_init_ok:
  assumes "compiled e = Some c" "match_memory e" "index_memory e" "initialized (c_regex g) = 0" "lock (c_queue g) = 0"
    and f: "files e (c_db_path g) = Some f" "fseekable f" "length (fbytes f) \<le> freadable f"
      "xdb_header_info_length + xdb_vector_index_length \<le> length (fbytes f)"
    and l: "fst (log_init (log_lib e) (Some (c_log_path g)) (c_log g) (c_lib g)) = 0"
  shows "\<exists>r m v x h s. dns_client_init e (Some q) g = Inr (0, g\<lparr>c_regex := r, c_queue := m, c_index := Some v, c_searcher := x, c_log := Some h, c_lib := s\<rparr>) \<and>
    r = \<lparr>matcher = \<lparr>re = Code c, match_data = True\<rparr>, initialized = 1\<rparr> \<and> queue_ok m [] \<and> nodes m = nodes (c_queue g) \<and>
    by_vector_index (fbytes f) x \<and> handle x = Some f \<and>
    v = \<lparr>vlength = of_nat xdb_vector_index_length, vbuffer = take xdb_vector_index_length (drop xdb_header_info_length (fbytes f))\<rparr>"
proof -
  let ?v = "\<lparr>vlength = of_nat xdb_vector_index_length,
    vbuffer = take xdb_vector_index_length (drop xdb_header_info_length (fbytes f))\<rparr>"
  have v: "xdb_load_vector_index_from_file True (files e) (c_db_path g) = (Some ?v, 1)"
    using f by (simp add: xdb_load_vector_index_from_file_def xdb_load_vector_index_def fseek_def fread_def Let_def)
  define r where "r = \<lparr>matcher = \<lparr>re = Code c, match_data = True\<rparr>, initialized = 1\<rparr>"
  have r: "InitializeRegex (compiled e) (match_memory e) (c_regex g) = Inr r"
    using assms(1,2,4) by (simp add: InitializeRegex_def regex_init_def Let_def r_def)
  obtain m where m: "QueueInit (Some q) (c_queue g) = (SUCCESS, m)" "queue_ok m []" "nodes m = nodes (c_queue g)"
    using QueueInit_ok [OF assms(5), of q] by (cases "QueueInit (Some q) (c_queue g)") (auto simp: QueueInit_def)
  obtain h s where h: "log_init (log_lib e) (Some (c_log_path g)) (c_log g) (c_lib g) = (0, Some h, s)"
    using l by (cases "log_init (log_lib e) (Some (c_log_path g)) (c_log g) (c_lib g)")
      (auto simp: log_init_def Let_def split: prod.splits if_splits)
  define x where "x = snd (xdb_new_with_vector_index (files e) (c_db_path g) (Some ?v))"
  have x: "xdb_new_with_vector_index (files e) (c_db_path g) (Some ?v) = (0, x)" "handle x = Some f"
    using f(1) by (simp_all add: x_def xdb_new_with_vector_index_def xdb_new_base_def)
  have ix: "by_vector_index (fbytes f) x"
    unfolding x_def using open_indexed [of "files e" "c_db_path g" f ?v] f by simp
  let ?g1 = "g\<lparr>c_regex := r, c_queue := m, c_index := Some ?v, c_searcher := x, c_log := Some h, c_lib := s\<rparr>"
  have init: "dns_client_init e (Some q) g = Inr (0, ?g1)"
    using r m(1) v x(1) h assms(3) by (simp add: dns_client_init_def Queue_Init_def ip2region_init_def Let_def)
  then show ?thesis using m(2,3) ix x(2) r_def
    by (intro exI [of _ r] exI [of _ m] exI [of _ ?v] exI [of _ x] exI [of _ h] exI [of _ s]) simp
qed

text \<open>
  A good start and an orderly end. With the pattern compiled, the database file readable and a log handle,
  \<open>dns_client_init\<close> returns 0 with an empty queue and a searcher on the file, and the signal handler then
  releases everything and exits with 0.
\<close>

theorem start_stop_releases:
  assumes "compiled e = Some c" "match_memory e" "index_memory e" "initialized (c_regex g) = 0" "lock (c_queue g) = 0"
    and f: "files e (c_db_path g) = Some f" "fseekable f" "length (fbytes f) \<le> freadable f"
      "xdb_header_info_length + xdb_vector_index_length \<le> length (fbytes f)"
    and l: "fst (log_init (log_lib e) (Some (c_log_path g)) (c_log g) (c_lib g)) = 0"
  shows "\<exists>g1 g2. dns_client_init e (Some q) g = Inr (0, g1) \<and> queue_ok (c_queue g1) [] \<and> by_vector_index (fbytes f) (c_searcher g1) \<and>
    Stop_And_Exit e g1 = Some (0, g2) \<and> g_queue (c_queue g2) = None \<and> handle (c_searcher g2) = None \<and> c_index g2 = None \<and>
    re (matcher (c_regex g2)) = NullCode \<and> c_log g2 = None"
proof -
  let ?v = "\<lparr>vlength = of_nat xdb_vector_index_length,
    vbuffer = take xdb_vector_index_length (drop xdb_header_info_length (fbytes f))\<rparr>"
  let ?r = "\<lparr>matcher = \<lparr>re = Code c, match_data = True\<rparr>, initialized = 1\<rparr>"
  obtain m x h s where i: "dns_client_init e (Some q) g =
      Inr (0, g\<lparr>c_regex := ?r, c_queue := m, c_index := Some ?v, c_searcher := x, c_log := Some h, c_lib := s\<rparr>)"
    "queue_ok m []" "by_vector_index (fbytes f) x" "handle x = Some f" using dns_client_init_ok [OF assms, of q] by blast
  define g1 where "g1 = g\<lparr>c_regex := ?r, c_queue := m, c_index := Some ?v, c_searcher := x, c_log := Some h, c_lib := s\<rparr>"
  have pos: "(0 :: u32) < of_nat xdb_vector_index_length" by (simp add: xdb_consts)
  obtain m' where m': "bufferDestroy m = Some m'" "g_queue m' = None" using bufferDestroy_ok [OF i(2)] by blast
  have "\<exists>g2. Stop_And_Exit e g1 = Some (0, g2) \<and> g_queue (c_queue g2) = None \<and> handle (c_searcher g2) = None \<and> c_index g2 = None \<and>
      re (matcher (c_regex g2)) = NullCode \<and> c_log g2 = None"
    using m' i(4) pos
    by (simp add: Stop_And_Exit_def ip2region_deinit_def g1_def xdb_close_def xdb_close_vector_index_def destroy_regex_def regex_free_def
        log_deinit_def Let_def)
  then show ?thesis using i(1-3) [folded g1_def] by (auto simp: g1_def)
qed

text \<open>The start of the client without the database file: it returns 1, and leaves neither an index nor a searcher.\<close>

lemma init_without_database:
  assumes "compiled e = Some c" "match_memory e" "initialized (c_regex g) = 0" "files e (c_db_path g) = None"
    "c_searcher g = zero_searcher"
  shows "\<exists>g1. dns_client_init e (Some q) g = Inr (1, g1) \<and>
    (\<forall>ip a is_china. xdb_check_ip ip = Some (Inr a) \<longrightarrow> search_ip_string ip is_china (c_searcher g1) = None) \<and>
    Stop_And_Exit e g1 = None"
proof -
  obtain r where r: "InitializeRegex (compiled e) (match_memory e) (c_regex g) = Inr r"
    using assms(1-3) by (simp add: InitializeRegex_def regex_init_def Let_def)
  obtain m where m: "QueueInit (Some q) (c_queue g) = (SUCCESS, m)"
    by (simp add: QueueInit_def)
  define g1 where "g1 = g\<lparr>c_regex := r, c_queue := m, c_index := None\<rparr>"
  have "dns_client_init e (Some q) g = Inr (1, g1)"
    using r m assms(4) by (simp add: dns_client_init_def Queue_Init_def ip2region_init_def xdb_load_vector_index_from_file_def Let_def g1_def)
  moreover have "search_ip_string ip is_china (c_searcher g1) = None" if "xdb_check_ip ip = Some (Inr a)" for ip a is_china
    using assms(5) that by (simp add: g1_def search_ip_string_def xdb_search_by_string_def xdb_search_def xdb_vector_ptrs_def xdb_read_def
        zero_searcher_def Let_def)
  moreover have "Stop_And_Exit e g1 = None"
    by (simp add: Stop_And_Exit_def ip2region_deinit_def g1_def Let_def)
  ultimately show ?thesis by blast
qed

section \<open>A concrete client\<close>

text \<open>A database whose rows are all empty, a log library that keeps what it is given, and a client over them.\<close>

definition zero_db :: "byte list" where
  "zero_db = replicate 524600 0"

definition zero_file :: FILE where
  "zero_file = \<lparr>fbytes = zero_db, fpos = 0, freadable = 524600, fseekable = True\<rparr>"

definition demo_log :: "(unit, string list) selog" where
  "demo_log = \<lparr>Selog_CreateHandle = (\<lambda>_ _ _ s. (Some (), s)), Selog_SetCapacity = (\<lambda>_ _ s. s), Selog_SetPath = (\<lambda>_ _ s. s),
     Selog_Init = (\<lambda>_ s. s), Selog_Deinit = (\<lambda>_ s. s), Selog_Write = (\<lambda>_ _ b _ s. (0, s @ [b]))\<rparr>"

definition demo_env :: "(unit, unit, string list) env" where
  "demo_env = \<lparr>files = (\<lambda>p. if p = ''db'' then Some zero_file else None), index_memory = True, procfs = (\<lambda>_. None), name_memory = True,
     engine = bt_match, compiled = Some (), match_memory = True, text_memory = (\<lambda>_. True), json_memory = demo_hooks, log_lib = demo_log\<rparr>"

definition demo_client :: "(unit, unit, string list) client" where
  "demo_client = \<lparr>c_queue = demo_queue, c_regex = demo_resolver,
     c_searcher = snd (xdb_new_with_vector_index (files demo_env) ''db''
       (Some \<lparr>vlength = 524288, vbuffer = take xdb_vector_index_length (drop xdb_header_info_length zero_db)\<rparr>)),
     c_index = None, c_log = Some (), c_region = DOMESTIC, c_db_path = ''db'', c_log_path = ''log'',
     c_items = \<lparr>cells = Map.empty, strs = Map.empty, asks = 0, grant = (\<lambda>_. True)\<rparr>, c_lib = []\<rparr>"

lemma le_val_zeros [simp]: "le_val (replicate n 0) = 0"
  by (induction n) simp_all

lemma zero_db_ok: "db_ok zero_db"
proof -
  have z: "u32_at zero_db i = 0" "u16_at zero_db i = 0" for i
    by (simp_all add: u32_at_def u16_at_def zero_db_def)
  have "row_segments zero_db a = [\<lparr>seg_sip = 0, seg_eip = 0, seg_len = 0, seg_ptr = 0\<rparr>]" for a
    by (simp add: row_segments_def row_start_def row_end_def z segment_at_def) (simp add: zero_db_def)
  then have "row_ok zero_db a" for a
    unfolding row_ok_def by (simp add: row_start_def row_end_def z segments_sorted_def xdb_consts) (simp add: zero_db_def)
  then show ?thesis by (simp add: db_ok_def)
qed

lemma demo_ready: "ready demo_env demo_client zero_db"
proof -
  have "by_vector_index zero_db (c_searcher demo_client)"
    using open_indexed [of "files demo_env" "''db''" zero_file] by (simp add: demo_client_def demo_env_def zero_file_def zero_db_def)
  then show ?thesis
    using zero_db_ok bt.pcre2_engine_axioms
    by (simp add: ready_def demo_client_def demo_env_def demo_resolver_def demo_hooks_def granted_def)
qed

lemma demo_forest: "forest_ok (c_items demo_client) [] []"
  by (simp add: forest_ok_def demo_client_def fresh_def owned_def readable_def)

definition demo_dns :: dns_message where
  "demo_dns = \<lparr>dnsRet = ''success'', domain = ''a.cn'', uid = 1000, pid = 42\<rparr>"

lemma demo_dns_ok: "message_ok demo_dns" "length (dnsRet demo_dns) < 64" "length (domain demo_dns) < 128"
  by (simp_all add: message_ok_def comma_free_def demo_dns_def INT_MIN_def INT_MAX_def)

definition demo_datagram :: string where
  "demo_datagram = message_text demo_dns @ '';8.8.8.8;'' @ [NUL]"

lemma demo_datagram_eval:
  "message_text demo_dns @ '';8.8.8.8;'' = ''DnsRet:success,domain:a.cn,UID:1000,PID:42;8.8.8.8;''"
  by (simp add: message_text_def demo_dns_def) code_simp

definition demo_received :: "(unit, unit, string list) client" where
  "demo_received = demo_client\<lparr>c_queue := snd (the (BufferInQueue (Some 2) demo_datagram (of_nat (length demo_datagram)) demo_queue))\<rparr>"

lemma demo_received_ok:
  "queue_ok (c_queue demo_received) [2] \<and> node_data (c_queue demo_received) 2 = demo_datagram \<and>
   ready demo_env demo_received zero_db \<and> forest_ok (c_items demo_received) [] []"
proof -
  have l: "length demo_datagram = 52" unfolding demo_datagram_def by (simp only: append_assoc [symmetric] demo_datagram_eval) simp
  obtain m' where m': "BufferInQueue (Some 2) demo_datagram (of_nat (length demo_datagram)) demo_queue = Some (SUCCESS, m')"
    "queue_ok m' [2]" "packets m' [2] = [demo_datagram]"
    using BufferInQueue_ok [OF demo_queue_ok, of 2 "of_nat (length demo_datagram)" demo_datagram] by (auto simp: l packets_def)
  then show ?thesis using demo_ready demo_forest by (simp add: demo_received_def ready_def packets_def)
qed

theorem main_round_logs_event_witness:
  "\<exists>g' ts rs. main_round demo_env demo_received = Some g' \<and> queue_ok (c_queue g') [] \<and>
    nodes (c_queue g') 2 = None \<and> ready demo_env g' zero_db \<and>
    found_ip_addresses (engine demo_env) (text_memory demo_env) (c_regex demo_received)
      (message_text demo_dns @ '';8.8.8.8;'') 0 (replicate 32 None) = Some (length ts, rs) \<and>
    take (length ts) rs = map Some ts \<and>
    (let ips = filter (flagged (c_region demo_received) zero_db) ts in
     if ips = [] then c_lib g' = c_lib demo_received \<and> c_items g' = c_items demo_received
     else logged_event demo_env [] [] demo_received g' (event_item (dnsRet demo_dns) (domain demo_dns) (uid demo_dns) (pid demo_dns)
       (shown_name (get_pid_name (procfs demo_env) (name_memory demo_env) (pid demo_dns))) ips))"
proof (rule main_round_logs_event)
  show "queue_ok (c_queue demo_received) [2]" "ready demo_env demo_received zero_db" "forest_ok (c_items demo_received) [] []"
    using demo_received_ok by simp_all
  show "message_ok demo_dns" "length (dnsRet demo_dns) < 64" "length (domain demo_dns) < 128"
    by (rule demo_dns_ok)+
  have "no_nul (message_text demo_dns @ '';8.8.8.8;'')" unfolding demo_datagram_eval by (simp add: no_nul_def)
  then show nn: "no_nul (message_text demo_dns)" by (simp add: no_nul_def)
  show "'';8.8.8.8;'' = [] \<or> \<not> is_digit (hd '';8.8.8.8;'')" by (simp add: is_digit_def)
  show "c_string (node_data (c_queue demo_received) 2) = Some (message_text demo_dns @ '';8.8.8.8;'')"
    using demo_received_ok unfolding demo_datagram_def append_assoc [symmetric] demo_datagram_eval by (simp add: c_string_def)
  show "length (message_text demo_dns @ '';8.8.8.8;'') < 231" unfolding demo_datagram_eval by simp
qed

theorem udp_round_cases_witness:
  "\<exists>g'. udp_round (Some 2) demo_packet demo_client = Some g' \<and> queue_ok (c_queue g') [2] \<and> packets (c_queue g') [2] = [demo_packet]"
  using udp_round_cases [of demo_client "[]" 2 demo_packet] demo_queue_ok
  by (simp add: demo_client_def demo_packet_def packets_def)

theorem unterminated_packet_overread_witness:
  "\<exists>g'. udp_round (Some 2) demo_packet demo_client = Some g' \<and> main_round demo_env g' = None"
  using unterminated_packet_overread [of demo_client 2 demo_packet demo_env] demo_queue_ok
  by (simp add: demo_client_def demo_packet_def no_nul_def)

definition demo_stopped :: "(unit, unit, string list) client" where
  "demo_stopped = demo_client\<lparr>c_queue := init_qmem, c_regex := init_resolver, c_searcher := zero_searcher, c_log := None\<rparr>"

theorem start_stop_releases_witness:
  "\<exists>g1 g2. dns_client_init demo_env (Some 1) demo_stopped = Inr (0, g1) \<and> queue_ok (c_queue g1) [] \<and>
    by_vector_index zero_db (c_searcher g1) \<and>
    Stop_And_Exit demo_env g1 = Some (0, g2) \<and> g_queue (c_queue g2) = None \<and> handle (c_searcher g2) = None \<and> c_index g2 = None \<and>
    re (matcher (c_regex g2)) = NullCode \<and> c_log g2 = None"
  using start_stop_releases [of demo_env "()" demo_stopped zero_file 1]
  by (simp add: demo_env_def demo_stopped_def demo_client_def init_resolver_def init_qmem_def zero_file_def zero_db_def xdb_consts
      log_init_def demo_log_def)

end
