(* ===== verification/Daemon.thy ===== *)
theory Daemon
  imports Firewall Dns_Client
begin

text \<open>
  The program (\<open>main\<close> of \<open>binder_client.cpp\<close>) up to the start of its three threads, and a datagram's way through
  the started program, over all its components.
\<close>

section \<open>The start of the program\<close>

text \<open>
  The two languages' globals are \<open>settings\<close> (\<open>binder_client.cpp\<close>) and \<open>client\<close> (\<open>dns_client.c\<close>). Note the order: the command
  line is read when the service has been reached, and the result of \<open>dns_client_init\<close> is not used. The result is
  an exit code, or the state in which the threads are created.
\<close>

definition main_start :: "(nat \<Rightarrow> ('b, 'n, 'o) netd_env) \<Rightarrow> ('c, 'h, 's) env \<Rightarrow> ptr \<Rightarrow> string list \<Rightarrow> ('n, 'o) interfaces \<Rightarrow>
    ('c, 'h, 's) client \<Rightarrow> (int + ('n, 'o) interfaces \<times> settings \<times> ('c, 'h, 's) client) option" where
  "main_start netd e malloc_ret argv i g = do {
     (attempts, i) \<leftarrow> connect netd 0 i;
     r \<leftarrow> PraseCommandLine argv no_settings;
     Some (case r of
       Inl code \<Rightarrow> Inl code
     | Inr s \<Rightarrow>
         let g = set_log_path (log_path s) g;
             g = set_db_path (db_path s) g;
             g = set_region (region s) g in
         (case dns_client_init e malloc_ret g of Inl code \<Rightarrow> Inl code | Inr (ret, g) \<Rightarrow> Inr (i, s, g))) }"

text \<open>
  What a good start needs, with the file \<open>f\<close> at the database path \<open>p\<close>: the pattern compiles, the file can be read
  and holds a sound database, the log library gives a handle, memory suffices, and the globals are fresh.
\<close>

definition startable :: "('c, 'h, 's) env \<Rightarrow> ('c, 'h, 's) client \<Rightarrow> string \<Rightarrow> string \<Rightarrow> FILE \<Rightarrow> bool" where
  "startable e g p l f \<longleftrightarrow> compiled e \<noteq> None \<and> match_memory e \<and> index_memory e \<and> (\<forall>k. text_memory e k) \<and>
     pcre2_engine (engine e) \<and> (\<forall>n. can_alloc (json_memory e) n) \<and> granted (c_items g) \<and>
     initialized (c_regex g) = 0 \<and> lock (c_queue g) = 0 \<and>
     files e p = Some f \<and> fseekable f \<and> length (fbytes f) \<le> freadable f \<and>
     xdb_header_info_length + xdb_vector_index_length \<le> length (fbytes f) \<and> db_ok (fbytes f) \<and>
     fst (log_init (log_lib e) (Some l) (c_log g) (c_lib g)) = 0"

text \<open>
  The program comes up. When the service can be reached at some attempt and the command line names the three
  files, \<open>main\<close> reaches the point where the threads are created with the interface to the service set, the settings
  of the command line in force, an empty queue, and a client that is ready to work on the named database.
\<close>

lemma main_start_ready:
  assumes netd: "\<And>i. fst (NetdBinderInit (netd k) i) = 0" and opts: "options_ok opts" "option_value ''-c'' opts = Some cfg"
    "option_value ''-d'' opts = Some p" "option_value ''-l'' opts = Some l" "p \<noteq> []" "l \<noteq> []" and ok: "startable e g p l f"
  shows "\<exists>i' g'. main_start netd e (Some q) (prog # arguments opts) i g = Some (Inr (i',
      \<lparr>config_path = Some cfg, db_path = Some p, log_path = Some l, region = chosen_region opts 0\<rparr>, g')) \<and>
    oemNetd i' \<noteq> None \<and> ready e g' (fbytes f) \<and> queue_ok (c_queue g') [] \<and> nodes (c_queue g') = nodes (c_queue g) \<and> c_region g' = chosen_region opts 0 \<and>
    c_items g' = c_items g \<and> c_log g' \<noteq> None \<and> (\<exists>v. c_index g' = Some v \<and> 0 < vlength v)"
proof -
  obtain n i' where i': "connect netd 0 i = Some (n, i')" "oemNetd i' \<noteq> None"
    using connect_ok [of netd k i] netd by blast
  let ?s = "\<lparr>config_path = Some cfg, db_path = Some p, log_path = Some l, region = chosen_region opts 0\<rparr>"
  have s: "PraseCommandLine (prog # arguments opts) no_settings = Some (Inr ?s)"
    using PraseCommandLine_opts [OF opts(1), of prog] opts(2-4) by simp
  let ?g = "g\<lparr>c_log_path := l, c_db_path := p, c_region := chosen_region opts 0\<rparr>"
  obtain c where c: "compiled e = Some c" using ok by (auto simp: startable_def)
  obtain r m v x h ls where d: "dns_client_init e (Some q) ?g =
      Inr (0, ?g\<lparr>c_regex := r, c_queue := m, c_index := Some v, c_searcher := x, c_log := Some h, c_lib := ls\<rparr>)"
    "r = \<lparr>matcher = \<lparr>re = Code c, match_data = True\<rparr>, initialized = 1\<rparr>" "queue_ok m []" "nodes m = nodes (c_queue g)" "by_vector_index (fbytes f) x"
    "vlength v = of_nat xdb_vector_index_length"
    using dns_client_init_ok [of e c ?g f q] ok c by (auto simp: startable_def)
  define g' where "g' = ?g\<lparr>c_regex := r, c_queue := m, c_index := Some v, c_searcher := x, c_log := Some h, c_lib := ls\<rparr>"
  have "main_start netd e (Some q) (prog # arguments opts) i g = Some (Inr (i', ?s, g'))"
    using i'(1) s d(1) opts(5,6) by (simp add: main_start_def set_log_path_def set_db_path_def set_region_def Let_def g'_def)
  moreover have "ready e g' (fbytes f)" using d ok by (simp add: ready_def startable_def g'_def)
  moreover have "(0 :: u32) < of_nat xdb_vector_index_length" by (simp add: xdb_consts)
  ultimately show ?thesis using i'(2) d(3,4,6) by (auto simp: g'_def)
qed

text \<open>
  C31: a missing database does not keep the program from starting. When the service can be reached, the command line
  names the three files and the pattern compiles, but there is no file at the database path, \<open>dns_client_init\<close> returns
  1; \<open>main\<close> ignores that and comes to the point where it creates its threads. In the state in which they run, looking
  up any address (the worker's \<open>search_ip_string\<close>) and the signal handler both dereference a NULL pointer.
\<close>

theorem missing_database_crashes:
  assumes netd: "\<And>i. fst (NetdBinderInit (netd k) i) = 0" and opts: "options_ok opts" "option_value ''-c'' opts = Some cfg"
    "option_value ''-d'' opts = Some p" "option_value ''-l'' opts = Some l" "p \<noteq> []" "l \<noteq> []"
    and regex: "compiled e = Some c" "match_memory e" "initialized (c_regex g) = 0"
    and nodb: "files e p = None" "c_searcher g = zero_searcher"
  shows "\<exists>i1 s g0 g1. main_start netd e (Some q) (prog # arguments opts) i g = Some (Inr (i1, s, g1)) \<and>
    dns_client_init e (Some q) g0 = Inr (1, g1) \<and>
    (\<forall>ip a is_china. xdb_check_ip ip = Some (Inr a) \<longrightarrow> search_ip_string ip is_china (c_searcher g1) = None) \<and>
    Stop_And_Exit e g1 = None"
proof -
  obtain n i1 where i1: "connect netd 0 i = Some (n, i1)" using connect_ok [of netd k i] netd by blast
  let ?s = "\<lparr>config_path = Some cfg, db_path = Some p, log_path = Some l, region = chosen_region opts 0\<rparr>"
  have s: "PraseCommandLine (prog # arguments opts) no_settings = Some (Inr ?s)"
    using PraseCommandLine_opts [OF opts(1), of prog] opts(2-4) by simp
  let ?g = "g\<lparr>c_log_path := l, c_db_path := p, c_region := chosen_region opts 0\<rparr>"
  obtain g1 where g1: "dns_client_init e (Some q) ?g = Inr (1, g1)"
    "\<forall>ip a is_china. xdb_check_ip ip = Some (Inr a) \<longrightarrow> search_ip_string ip is_china (c_searcher g1) = None"
    "Stop_And_Exit e g1 = None"
    using init_without_database [of e c ?g q] regex nodb by auto
  then have "main_start netd e (Some q) (prog # arguments opts) i g = Some (Inr (i1, ?s, g1))"
    using i1 s opts(5,6) by (simp add: main_start_def set_log_path_def set_db_path_def set_region_def Let_def)
  with g1 show ?thesis by blast
qed

lemma message_length: "20 \<le> length (message_text msg)"
  by (simp add: message_text_def)

text \<open>
  From the start of the program to the log. After a good start, when the resolver sends a message (with its
  terminator, in all shorter than 231 bytes), the receiver's round queues it and the worker's next round takes it and
  records exactly the addresses in it that are in the unexpected region or unknown to the database that the command
  line named: no log entry if there are none, else one entry whose JSON text parses back to the event.
\<close>

theorem datagram_reaches_log:
  assumes netd: "\<And>i. fst (NetdBinderInit (netd k) i) = 0" and opts: "options_ok opts" "option_value ''-c'' opts = Some cfg"
    "option_value ''-d'' opts = Some p" "option_value ''-l'' opts = Some l" "p \<noteq> []" "l \<noteq> []" and ok: "startable e g p l f"
    and F: "forest_ok (c_items g) F vs"
    and msg: "message_ok msg" "length (dnsRet msg) < 64" "length (domain msg) < 128"
    and rest: "rest = [] \<or> \<not> is_digit (hd rest)" and nn: "no_nul (message_text msg @ rest)" "length (message_text msg @ rest) < 231"
    and fresh: "nodes (c_queue g) a = None"
  shows "\<exists>i1 s g1 g2 g3 ts rs.
    main_start netd e (Some q) (prog # arguments opts) i g = Some (Inr (i1, s, g1)) \<and>
    udp_round (Some a) (message_text msg @ rest @ [NUL]) g1 = Some g2 \<and> main_round e g2 = Some g3 \<and>
    found_ip_addresses (engine e) (text_memory e) (c_regex g1) (message_text msg @ rest) 0 (replicate 32 None) = Some (length ts, rs) \<and>
    take (length ts) rs = map Some ts \<and>
    (let ips = filter (flagged (chosen_region opts 0) (fbytes f)) ts in
     if ips = [] then c_lib g3 = c_lib g1 \<and> c_items g3 = c_items g1
     else logged_event e F vs g1 g3 (event_item (dnsRet msg) (domain msg) (uid msg) (pid msg)
       (shown_name (get_pid_name (procfs e) (name_memory e) (pid msg))) ips))"
proof -
  let ?m = "message_text msg @ rest" and ?d = "message_text msg @ rest @ [NUL]"
  obtain i1 g1 where g1: "main_start netd e (Some q) (prog # arguments opts) i g = Some (Inr (i1,
      \<lparr>config_path = Some cfg, db_path = Some p, log_path = Some l, region = chosen_region opts 0\<rparr>, g1))"
    "ready e g1 (fbytes f)" "queue_ok (c_queue g1) []" "nodes (c_queue g1) a = None" "c_region g1 = chosen_region opts 0" "c_items g1 = c_items g"
    using main_start_ready [of netd k opts cfg p l e g f q prog i] netd opts ok fresh by metis
  have d: "length ?d < 1024" "20 \<le> length ?d" "c_string ?d = Some ?m"
    using nn message_length [of msg] c_string_terminated [of ?m] by auto
  obtain g2 where g2: "udp_round (Some a) ?d g1 = Some g2" "queue_ok (c_queue g2) [a]" "packets (c_queue g2) [a] = [?d]"
    using udp_round_run [OF g1(3) _ g1(4) d(1)] d(2) by (auto simp: packets_def)
  have e2: "g2 = g1\<lparr>c_queue := c_queue g2\<rparr>" by (rule udp_round_frame [OF g2(1)])
  have r2: "ready e g2 (fbytes f)" using g1(2) by (subst e2) (simp add: ready_def)
  have F2: "forest_ok (c_items g2) F vs" using F g1(6) by (subst e2) simp
  have same: "c_regex g2 = c_regex g1" "c_region g2 = c_region g1" "c_lib g2 = c_lib g1" "c_items g2 = c_items g1" "c_log g2 = c_log g1"
    by (subst e2, simp)+
  have data: "c_string (node_data (c_queue g2) a) = Some ?m" using g2(3) d(3) by (simp add: packets_def)
  have nm: "no_nul (message_text msg)" using nn(1) by (simp add: no_nul_def)
  have le: "logged_event e F vs g2 h ev = logged_event e F vs g1 h ev" for h ev by (simp add: logged_event_def same)
  show ?thesis
    using main_round_ok [OF g2(2) r2 F2 msg(1) nm msg(2,3) rest data nn(2), unfolded same g1(5) le] g1(1) g2(1) by blast
qed

section \<open>A concrete program\<close>

definition demo_netd :: "nat \<Rightarrow> (nat, nat, nat) netd_env" where
  "demo_netd i = \<lparr>getService = (if i = 2 then Some i else None), cast_netd = Some, getOemNetd = (\<lambda>n. Some (Some n)), cast_oem = id\<rparr>"

definition demo_options :: "(string \<times> string) list" where
  "demo_options = [(''-c'', ''fw''), (''-d'', ''db''), (''-l'', ''log'')]"

lemma demo_netd_ok: "fst (NetdBinderInit (demo_netd 2) i) = 0"
  by (simp add: NetdBinderInit_def demo_netd_def)

lemma demo_options_ok:
  "options_ok demo_options" "option_value ''-c'' demo_options = Some ''fw''" "option_value ''-d'' demo_options = Some ''db''"
  "option_value ''-l'' demo_options = Some ''log''"
  by (simp_all add: demo_options_def options_ok_def option_value_def)

lemma demo_startable: "startable demo_env demo_stopped ''db'' ''log'' zero_file"
proof -
  have "fbytes zero_file = zero_db" by (simp add: zero_file_def)
  then show ?thesis
    using zero_db_ok bt.pcre2_engine_axioms
    by (simp add: startable_def demo_env_def demo_stopped_def demo_client_def init_resolver_def init_qmem_def demo_hooks_def granted_def
        log_init_def demo_log_def) (simp add: zero_file_def zero_db_def xdb_consts)
qed

lemma demo_stopped_fresh: "forest_ok (c_items demo_stopped) [] []" "nodes (c_queue demo_stopped) 2 = None"
  using demo_forest by (simp_all add: demo_stopped_def init_qmem_def)

theorem datagram_reaches_log_witness:
  "\<exists>i1 s g1 g2 g3 ts rs.
    main_start demo_netd demo_env (Some 1) (''fw'' # arguments demo_options) \<lparr>mNetd = None, oemNetd = None\<rparr> demo_stopped = Some (Inr (i1, s, g1)) \<and>
    udp_round (Some 2) (message_text demo_dns @ '';8.8.8.8;'' @ [NUL]) g1 = Some g2 \<and> main_round demo_env g2 = Some g3 \<and>
    found_ip_addresses (engine demo_env) (text_memory demo_env) (c_regex g1) (message_text demo_dns @ '';8.8.8.8;'') 0 (replicate 32 None) =
      Some (length ts, rs) \<and>
    take (length ts) rs = map Some ts \<and>
    (let ips = filter (flagged (chosen_region demo_options 0) (fbytes zero_file)) ts in
     if ips = [] then c_lib g3 = c_lib g1 \<and> c_items g3 = c_items g1
     else logged_event demo_env [] [] g1 g3 (event_item (dnsRet demo_dns) (domain demo_dns) (uid demo_dns) (pid demo_dns)
       (shown_name (get_pid_name (procfs demo_env) (name_memory demo_env) (pid demo_dns))) ips))"
proof (rule datagram_reaches_log [of demo_netd 2, OF demo_netd_ok demo_options_ok _ _ demo_startable demo_stopped_fresh(1)])
  show "message_ok demo_dns" "length (dnsRet demo_dns) < 64" "length (domain demo_dns) < 128" by (rule demo_dns_ok)+
  show "'';8.8.8.8;'' = [] \<or> \<not> is_digit (hd '';8.8.8.8;'')" by (simp add: is_digit_def)
  show "no_nul (message_text demo_dns @ '';8.8.8.8;'')" unfolding demo_datagram_eval by (simp add: no_nul_def)
  show "length (message_text demo_dns @ '';8.8.8.8;'') < 231" unfolding demo_datagram_eval by simp
qed (simp_all add: demo_stopped_fresh)

text \<open>A command line that names a database that does not exist.\<close>

definition lost_options :: "(string \<times> string) list" where
  "lost_options = [(''-c'', ''fw''), (''-d'', ''none''), (''-l'', ''log'')]"

theorem missing_database_crashes_witness:
  "\<exists>i1 s g0 g1. main_start demo_netd demo_env (Some 1) (''fw'' # arguments lost_options) \<lparr>mNetd = None, oemNetd = None\<rparr> demo_stopped =
      Some (Inr (i1, s, g1)) \<and>
    dns_client_init demo_env (Some 1) g0 = Inr (1, g1) \<and>
    search_ip_string ''8.8.8.8'' 0 (c_searcher g1) = None \<and> Stop_And_Exit demo_env g1 = None"
proof -
  have "ipv4_text ''8.8.8.8''"
    unfolding ipv4_text_def by (rule exI [of _ "''8''"])+ (simp add: dotted_def octet_text_def is_digit_def digit_val_def)
  then obtain a where a: "xdb_check_ip ''8.8.8.8'' = Some (Inr a)" using ipv4_text_accepted by blast
  have o: "options_ok lost_options" "option_value ''-c'' lost_options = Some ''fw''" "option_value ''-d'' lost_options = Some ''none''"
    "option_value ''-l'' lost_options = Some ''log''"
    by (simp_all add: lost_options_def options_ok_def option_value_def)
  have r: "compiled demo_env = Some ()" "match_memory demo_env" "initialized (c_regex demo_stopped) = 0"
    "files demo_env ''none'' = None" "c_searcher demo_stopped = zero_searcher"
    by (simp_all add: demo_env_def demo_stopped_def demo_client_def init_resolver_def)
  show ?thesis
    using missing_database_crashes [of demo_netd 2, OF demo_netd_ok o _ _ r, of 1 "''fw''" "\<lparr>mNetd = None, oemNetd = None\<rparr>"] a
    by auto
qed

end
