(* ===== verification/Service.thy ===== *)
theory Service
  imports Simulation Daemon
begin

text \<open>
  The running DNS service: the receiver thread (\<open>udp_server_loop\<close>) with its socket, and the worker thread (\<open>main_loop\<close>),
  interleaved in any order, refine a machine that only keeps lists of packets and of events. \<open>Queue_Threads\<close> looks into the
  calls of the queue, which exclude each other; here each call is one step, and so is the processing of a packet, which
  touches nothing that the receiver touches. The signal handler is run between the steps only. The code does not
  ensure that: the handler takes no lock and waits for no thread, so that it can also meet a thread inside a queue call (see
  \<open>Queue_Threads\<close>) or the worker in the middle of a lookup whose database it closes.
\<close>

section \<open>The threads\<close>

text \<open>
  \<open>server_fd\<close>: the socket, while it is open. \<open>listening\<close>: the receiver is in its loop. \<open>held\<close>: the node that the worker
  has taken out of the queue and not yet freed.
\<close>

record ('c, 'h, 's) service =
  client :: "('c, 'h, 's) client"
  server_fd :: "int option"
  listening :: bool
  held :: ptr

text \<open>The receiver up to its loop, with the results of \<open>socket\<close> and \<open>bind\<close>. A failure ends the thread, not the program.\<close>

definition udp_server_start :: "int \<Rightarrow> int \<Rightarrow> ('c, 'h, 's) client \<Rightarrow> ('c, 'h, 's) service" where
  "udp_server_start socket_ret bind_ret g =
     (if socket_ret < 0 then \<lparr>client = g, server_fd = None, listening = False, held = None\<rparr>
      else if bind_ret < 0 then \<lparr>client = g, server_fd = Some socket_ret, listening = False, held = None\<rparr>
      else \<lparr>client = g, server_fd = Some socket_ret, listening = True, held = None\<rparr>)"

text \<open>What happens next: a datagram (\<open>new\<close> is what \<open>malloc\<close> returns for it), an error of \<open>recvfrom\<close>, or a move of the worker.\<close>

datatype activity = Datagram (new_node: ptr) (payload_of: string) | Recv_Error | Work

definition receive :: "ptr \<Rightarrow> string \<Rightarrow> ('c, 'h, 's) service \<Rightarrow> ('c, 'h, 's) service option" where
  "receive new data s =
     (if listening s then do { g \<leftarrow> udp_round new data (client s); Some (s\<lparr>client := g\<rparr>) } else Some s)"

text \<open>An error of \<open>recvfrom\<close> leaves the loop: the socket is closed and the thread ends.\<close>

definition receive_error :: "('c, 'h, 's) service \<Rightarrow> ('c, 'h, 's) service" where
  "receive_error s = (if listening s then s\<lparr>listening := False, server_fd := None\<rparr> else s)"

text \<open>The worker's two moves: \<open>BufferOutQueue\<close>, and what it does with the node until it has freed it.\<close>

definition worker_take :: "('c, 'h, 's) client \<Rightarrow> (ptr \<times> ('c, 'h, 's) client) option" where
  "worker_take g = do {
     (ret, node, q) \<leftarrow> BufferOutQueue None (c_queue g);
     if ret \<noteq> SUCCESS then Some (None, g\<lparr>c_queue := q\<rparr>)
     else do { a \<leftarrow> node; Some (Some a, g\<lparr>c_queue := q\<rparr>) } }"

definition worker_finish :: "('c, 'h, 's) env \<Rightarrow> addr \<Rightarrow> ('c, 'h, 's) client \<Rightarrow> ('c, 'h, 's) client option" where
  "worker_finish e a g = do {
     nd \<leftarrow> nodes (c_queue g) a;
     g \<leftarrow> process_packet e (ndata nd) g;
     q \<leftarrow> free_node a (c_queue g);
     Some (g\<lparr>c_queue := q\<rparr>) }"

definition work :: "('c, 'h, 's) env \<Rightarrow> ('c, 'h, 's) service \<Rightarrow> ('c, 'h, 's) service option" where
  "work e s =
     (case held s of
        None \<Rightarrow> do { (a, g) \<leftarrow> worker_take (client s); Some (s\<lparr>client := g, held := a\<rparr>) }
      | Some a \<Rightarrow> do { g \<leftarrow> worker_finish e a (client s); Some (s\<lparr>client := g, held := None\<rparr>) })"

fun service_step :: "('c, 'h, 's) env \<Rightarrow> activity \<Rightarrow> ('c, 'h, 's) service \<Rightarrow> ('c, 'h, 's) service option" where
  "service_step e (Datagram new data) s = receive new data s"
| "service_step e Recv_Error s = Some (receive_error s)"
| "service_step e Work s = work e s"

text \<open>The two moves in a row are a round of \<open>main_loop\<close>.\<close>

lemma main_round_moves:
  "main_round e g = do {
     (a, g) \<leftarrow> worker_take g;
     case a of None \<Rightarrow> Some g | Some a \<Rightarrow> worker_finish e a g }"
  by (auto simp: main_round_def worker_take_def worker_finish_def Let_def split: bind_split prod.split option.split)

section \<open>The abstract service\<close>

text \<open>
  \<open>handled data\<close>: the event that a packet leads to, or none. A packet is kept if the receiver is in its loop, has memory,
  and finds at most 1000 packets, and if it has 20 bytes or more.
\<close>

record spec_state =
  pending :: "string list"
  busy :: "string option"
  events :: "cJSON list"
  receiving :: bool

fun spec_step :: "(string \<Rightarrow> cJSON option) \<Rightarrow> activity \<Rightarrow> spec_state \<Rightarrow> spec_state" where
  "spec_step handled (Datagram new data) a =
     (if receiving a \<and> new \<noteq> None \<and> length (pending a) \<le> 1000 \<and> 20 \<le> length data
      then a\<lparr>pending := pending a @ [data]\<rparr> else a)"
| "spec_step handled Recv_Error a = a\<lparr>receiving := False\<rparr>"
| "spec_step handled Work a =
     (case busy a of
        None \<Rightarrow> (case pending a of [] \<Rightarrow> a | d # ds \<Rightarrow> a\<lparr>busy := Some d, pending := ds\<rparr>)
      | Some d \<Rightarrow> a\<lparr>busy := None, events := events a @ (case handled d of None \<Rightarrow> [] | Some ev \<Rightarrow> [ev])\<rparr>)"

definition spec_start :: "bool \<Rightarrow> spec_state" where
  "spec_start on = \<lparr>pending = [], busy = None, events = [], receiving = on\<rparr>"

text \<open>The addresses that are found in a message, and the event for it.\<close>

abbreviation (input) no_message :: dns_message where
  "no_message \<equiv> \<lparr>dnsRet = [], domain = [], uid = 0, pid = 0\<rparr>"

definition addresses_in :: "('c, 'h, 's) env \<Rightarrow> 'c resolver \<Rightarrow> string \<Rightarrow> string list" where
  "addresses_in e x m =
     (case found_ip_addresses (engine e) (text_memory e) x m 0 (replicate 32 None) of
        None \<Rightarrow> [] | Some (n, rs) \<Rightarrow> map the (take n rs))"

definition event_for :: "('c, 'h, 's) env \<Rightarrow> 'c resolver \<Rightarrow> byte \<Rightarrow> byte list \<Rightarrow> string \<Rightarrow> cJSON option" where
  "event_for e x rg img data =
     (case c_string data of
        None \<Rightarrow> None
      | Some m \<Rightarrow>
          (case PraseMessage 64 128 m no_message of
             None \<Rightarrow> None
           | Some (r, msg) \<Rightarrow>
               (let ips = filter (flagged rg img) (addresses_in e x m) in
                if r \<noteq> 0 \<or> ips = [] then None
                else Some (event_item (dnsRet msg) (domain msg) (uid msg) (pid msg)
                  (shown_name (get_pid_name (procfs e) (name_memory e) (pid msg))) ips))))"

text \<open>
  Packets that the code can take: terminated and shorter than 231 characters (so that it has at most 32 addresses), and
  either a message of the resolver or a text that \<open>PraseMessage\<close> refuses.
\<close>

definition sound_packet :: "string \<Rightarrow> bool" where
  "sound_packet data \<longleftrightarrow> (\<exists>m. c_string data = Some m \<and> length m < 231 \<and>
     ((\<exists>msg rest. m = message_text msg @ rest \<and> message_ok msg \<and> no_nul (message_text msg) \<and> length (dnsRet msg) < 64 \<and>
        length (domain msg) < 128 \<and> (rest = [] \<or> \<not> is_digit (hd rest))) \<or>
      (\<exists>r x. PraseMessage 64 128 m no_message = Some (r, x) \<and> r \<noteq> 0)))"

text \<open>What the surroundings may do: \<open>malloc\<close> gives new nodes, and the datagrams that are not refused for their length are sound.\<close>

fun allowed :: "activity \<Rightarrow> ('c, 'h, 's) service \<Rightarrow> bool" where
  "allowed (Datagram new data) s \<longleftrightarrow>
     (\<forall>a. new = Some a \<longrightarrow> nodes (c_queue (client s)) a = None) \<and> length data < 1024 \<and> (20 \<le> length data \<longrightarrow> sound_packet data)"
| "allowed Recv_Error s \<longleftrightarrow> True"
| "allowed Work s \<longleftrightarrow> True"

section \<open>The queue between the threads\<close>

text \<open>
  The queue holds the pending packets, the worker's node the busy one, and no other node has been allocated since the
  queue \<open>q0\<close> of the start.
\<close>

definition queue_view :: "qmem \<Rightarrow> qmem \<Rightarrow> ptr \<Rightarrow> string list \<Rightarrow> string option \<Rightarrow> bool" where
  "queue_view q0 q h ds d \<longleftrightarrow> (\<exists>as. queue_ok q as \<and> packets q as = ds \<and> length as \<le> 1001 \<and>
     (case h of None \<Rightarrow> d = None | Some a \<Rightarrow> a \<notin> set as \<and> nodes q a \<noteq> None \<and> d = Some (node_data q a)) \<and>
     dom (nodes q) = dom (nodes q0) \<union> set as \<union> set_option h \<and> dom (nodes q0) \<inter> (set as \<union> set_option h) = {})"

lemma payload_dom: "map_option payload (nodes q' b) = map_option payload (nodes q b) \<Longrightarrow> b \<in> dom (nodes q') \<longleftrightarrow> b \<in> dom (nodes q)"
  by (cases "nodes q b"; cases "nodes q' b") auto

lemma payload_data: "map_option payload (nodes q' b) = map_option payload (nodes q b) \<Longrightarrow> node_data q' b = node_data q b"
  by (cases "nodes q b"; cases "nodes q' b") (auto simp: node_data_def payload_def)

lemma udp_round_none:
  assumes q: "queue_ok (c_queue g) as" "length as \<le> 1001" and d: "length data < 1024"
  shows "udp_round None data g = Some g"
proof -
  obtain l where gq: "g_queue (c_queue g) = Some l" using q(1) by (rule queue_okE)
  show ?thesis
    using d gq GetQueueSize_ok [OF q(1)] by (auto simp: udp_round_def BufferInQueue_def Let_def)
qed

lemma queue_view_push:
  assumes v: "queue_view q0 (c_queue g) h ds d" and new: "\<forall>a. new = Some a \<longrightarrow> nodes (c_queue g) a = None" and len: "length data < 1024"
  shows "\<exists>g'. udp_round new data g = Some g' \<and> queue_view q0 (c_queue g') h
    (if new \<noteq> None \<and> length ds \<le> 1000 \<and> 20 \<le> length data then ds @ [data] else ds) d"
proof -
  obtain as where as: "queue_ok (c_queue g) as" "packets (c_queue g) as = ds" "length as \<le> 1001"
    "case h of None \<Rightarrow> d = None | Some a \<Rightarrow> a \<notin> set as \<and> nodes (c_queue g) a \<noteq> None \<and> d = Some (node_data (c_queue g) a)"
    "dom (nodes (c_queue g)) = dom (nodes q0) \<union> set as \<union> set_option h" "dom (nodes q0) \<inter> (set as \<union> set_option h) = {}"
    using v unfolding queue_view_def by blast
  have l: "length ds = length as" using as(2) by (auto simp: packets_def)
  show ?thesis
  proof (cases new)
    case None
    have "udp_round None data g = Some g"
      by (rule udp_round_none [OF as(1,3) len])
    then show ?thesis using v None by auto
  next
    case (Some a)
    have a: "nodes (c_queue g) a = None" using new Some by simp
    obtain g' where g': "udp_round (Some a) data g = Some g'" and
      c: "if 1000 < length as \<or> length data < 20 then c_queue g' = c_queue g
        else queue_ok (c_queue g') (as @ [a]) \<and> packets (c_queue g') (as @ [a]) = packets (c_queue g) as @ [data] \<and>
          (\<forall>b. b \<noteq> a \<longrightarrow> map_option payload (nodes (c_queue g') b) = map_option payload (nodes (c_queue g) b))"
      using udp_round_run [OF as(1,3) a len] by blast
    show ?thesis
    proof (cases "1000 < length as \<or> length data < 20")
      case True
      then show ?thesis using g' c v Some l by auto
    next
      case False
      then have q: "queue_ok (c_queue g') (as @ [a])" "packets (c_queue g') (as @ [a]) = ds @ [data]"
        and p: "\<And>b. b \<noteq> a \<Longrightarrow> map_option payload (nodes (c_queue g') b) = map_option payload (nodes (c_queue g) b)"
        using c as(2) by auto
      have na: "a \<notin> dom (nodes (c_queue g))" using a by auto
      have aa: "a \<in> dom (nodes (c_queue g'))" using q(1) by (auto simp: queue_ok_def packet_ok_def split: option.splits)
      have "dom (nodes (c_queue g')) = insert a (dom (nodes (c_queue g)))"
      proof (rule set_eqI)
        show "b \<in> dom (nodes (c_queue g')) \<longleftrightarrow> b \<in> insert a (dom (nodes (c_queue g)))" for b
          using payload_dom [OF p, of b] aa by (cases "b = a") (simp_all del: domIff)
      qed
      moreover have "case h of None \<Rightarrow> d = None
          | Some b \<Rightarrow> b \<notin> set (as @ [a]) \<and> nodes (c_queue g') b \<noteq> None \<and> d = Some (node_data (c_queue g') b)"
      proof (cases h)
        case (Some b)
        then have b: "b \<noteq> a" "b \<in> dom (nodes (c_queue g))" using as(4) a by auto
        then show ?thesis using Some as(4) payload_dom [OF p [OF b(1)]] payload_data [OF p [OF b(1)]] by auto
      qed (use as(4) in simp)
      ultimately have "queue_view q0 (c_queue g') h (ds @ [data]) d"
        unfolding queue_view_def using q as(3,5,6) na False by (intro exI [of _ "as @ [a]"]) auto
      then show ?thesis using g' False l Some by auto
    qed
  qed
qed

lemma queue_view_take:
  assumes v: "queue_view q0 (c_queue g) None ds None"
  shows "\<exists>q a. worker_take g = Some (a, g\<lparr>c_queue := q\<rparr>) \<and>
    queue_view q0 q a (tl ds) (case ds of [] \<Rightarrow> None | d # ds \<Rightarrow> Some d)"
proof -
  obtain as where as: "queue_ok (c_queue g) as" "packets (c_queue g) as = ds" "length as \<le> 1001"
    "dom (nodes (c_queue g)) = dom (nodes q0) \<union> set as" "dom (nodes q0) \<inter> set as = {}"
    using v unfolding queue_view_def by auto
  show ?thesis
  proof (cases as)
    case Nil
    then have "worker_take g = Some (None, g\<lparr>c_queue := c_queue g\<rparr>)"
      using BufferOutQueue_empty [of "c_queue g" None] as(1) by (simp add: worker_take_def)
    then show ?thesis using v as(2) Nil by (intro exI [of _ "c_queue g"] exI [of _ None]) (simp add: packets_def)
  next
    case (Cons a as')
    obtain q where q: "BufferOutQueue None (c_queue g) = Some (SUCCESS, Some a, q)" "queue_ok q as'" "same_payload (c_queue g) q"
      using BufferOutQueue_ok [of "c_queue g" a as' None] as(1) Cons by auto
    have p: "map_option payload (nodes q b) = map_option payload (nodes (c_queue g) b)" for b using q(3) by (simp add: same_payload_def)
    have "a \<notin> set as'" using queue_out [of "c_queue g" a as'] as(1) Cons by auto
    moreover have "a \<in> dom (nodes q)" using payload_dom [OF p, of a] as(4) Cons by (simp del: domIff)
    moreover have "dom (nodes q) = dom (nodes (c_queue g))" using payload_dom [OF p] by blast
    moreover have "packets q as' = tl ds" "node_data q a = hd ds" "ds \<noteq> []"
      using as(2) payload_data [OF p] Cons by (auto simp: packets_def)
    ultimately have "queue_view q0 q (Some a) (tl ds) (case ds of [] \<Rightarrow> None | d # ds \<Rightarrow> Some d)"
      unfolding queue_view_def using q(2) as(3-5) Cons by (intro exI [of _ as']) (auto split: list.split)
    moreover have "worker_take g = Some (Some a, g\<lparr>c_queue := q\<rparr>)" using q(1) by (simp add: worker_take_def)
    ultimately show ?thesis by blast
  qed
qed

lemma queue_view_free:
  assumes v: "queue_view q0 q (Some a) ds (Some d)"
  shows "\<exists>nd q'. nodes q a = Some nd \<and> ndata nd = d \<and> free_node a q = Some q' \<and> queue_view q0 q' None ds None"
proof -
  obtain as where as: "queue_ok q as" "packets q as = ds" "length as \<le> 1001" "a \<notin> set as" "nodes q a \<noteq> None" "node_data q a = d"
    "dom (nodes q) = dom (nodes q0) \<union> set as \<union> {a}" "dom (nodes q0) \<inter> (set as \<union> {a}) = {}"
    using v unfolding queue_view_def by auto
  obtain q' where q': "free_node a q = Some q'" "queue_ok q' as" using queue_ok_free [OF as(1,4,5)] by blast
  obtain nd where nd: "nodes q a = Some nd" using as(5) by blast
  have n': "nodes q' = (nodes q)(a := None)" using q'(1) nd by (auto simp: free_node_def)
  have "packets q' as = ds" using as(2,4) by (auto simp: packets_def node_data_def n')
  moreover have "dom (nodes q') = dom (nodes q0) \<union> set as" using as(4,7,8) by (auto simp: n')
  ultimately have "queue_view q0 q' None ds None" unfolding queue_view_def using q'(2) as(3,8) by (intro exI [of _ as]) auto
  then show ?thesis using nd q'(1) as(6) by (simp add: node_data_def)
qed

section \<open>The events and the log\<close>

definition write_entry :: "('c, 'h, 's) env \<Rightarrow> 'h option \<Rightarrow> string \<Rightarrow> 's \<Rightarrow> 's" where
  "write_entry e h t lib = snd (snd (log_write (log_lib e) h SELOG_LOG_TYPE_SYSTEM 1 1 SELOG_LOG_LEVEL_MIDDLE 3 (''Event logged: '' @ t) lib))"

text \<open>An entry for an event: a text that is not cut off and that parses back to it.\<close>

definition entry :: "('c, 'h, 's) env \<Rightarrow> string \<Rightarrow> cJSON \<Rightarrow> bool" where
  "entry e t ev \<longleftrightarrow> cJSON_Parse (json_memory e) (Some t) = Some (Some ev, length t) \<and> length t < SELOG_SINGLE_LOG_SIZE - 15"

text \<open>Since the client \<open>g0\<close> of the start, the library got one entry for each of the events, whose objects are all still in memory.\<close>

definition log_view :: "('c, 'h, 's) env \<Rightarrow> jtree list \<Rightarrow> cJSON list \<Rightarrow> ('c, 'h, 's) client \<Rightarrow> ('c, 'h, 's) client \<Rightarrow> cJSON list \<Rightarrow> bool" where
  "log_view e F vs g0 g evs \<longleftrightarrow> (\<exists>G ts. forest_ok (c_items g) (G @ F) (rev evs @ vs) \<and> list_all2 (entry e) ts evs \<and>
     c_lib g = fold (write_entry e (c_log g0)) ts (c_lib g0))"

definition kept :: "('c, 'h, 's) client \<Rightarrow> ('c, 'h, 's) client \<Rightarrow> bool" where
  "kept g0 g \<longleftrightarrow> c_regex g = c_regex g0 \<and> c_index g = c_index g0 \<and> c_log g = c_log g0 \<and> c_region g = c_region g0 \<and>
     c_db_path g = c_db_path g0 \<and> c_log_path g = c_log_path g0"

lemma kept_queue [simp]: "kept g0 (g\<lparr>c_queue := q\<rparr>) \<longleftrightarrow> kept g0 g"
  by (simp add: kept_def)

lemma log_view_queue [simp]: "log_view e F vs g0 (g\<lparr>c_queue := q\<rparr>) evs = log_view e F vs g0 g evs"
  by (simp add: log_view_def)

lemma ready_queue [simp]: "ready e (g\<lparr>c_queue := q\<rparr>) img = ready e g img"
  by (simp add: ready_def)

lemma process_packet_kept: "process_packet e d g = Some g' \<Longrightarrow> kept g0 g \<Longrightarrow> kept g0 g'"
  by (auto simp: process_packet_def kept_def Let_def split: bind_splits if_splits prod.splits)

lemma log_view_more:
  assumes v: "log_view e F vs g0 g evs" and h: "c_log g = c_log g0"
    and n: "\<And>G. forest_ok (c_items g) (G @ F) (rev evs @ vs) \<Longrightarrow> logged_event e (G @ F) (rev evs @ vs) g g' ev"
  shows "log_view e F vs g0 g' (evs @ [ev])"
proof -
  obtain G ts where G: "forest_ok (c_items g) (G @ F) (rev evs @ vs)" "list_all2 (entry e) ts evs"
    "c_lib g = fold (write_entry e (c_log g0)) ts (c_lib g0)"
    using v by (auto simp: log_view_def)
  obtain t a us where t: "c_lib g' = write_entry e (c_log g) t (c_lib g)" "entry e t ev" "forest_ok (c_items g') (Node a us # G @ F) (ev # rev evs @ vs)"
    using n [OF G(1)] by (auto simp: logged_event_def write_entry_def entry_def)
  have "list_all2 (entry e) (ts @ [t]) (evs @ [ev])" using G(2) t(2) by (simp add: list_all2_appendI)
  then show ?thesis
    unfolding log_view_def using t(1,3) G(3) h by (intro exI [of _ "Node a us # G"] exI [of _ "ts @ [t]"]) simp
qed

text \<open>What a packet does, by the kinds of packets.\<close>

lemma refused_packet:
  assumes "c_string d = Some m" "PraseMessage 64 128 m no_message = Some (r, x)" "r \<noteq> 0"
  shows "process_packet e d g = Some g" "event_for e y rg img d = None"
  using assms by (simp_all add: process_packet_def event_for_def)

lemma packet_logged:
  assumes r: "ready e g img" and v: "log_view e F vs g0 g evs" and k: "kept g0 g" and d: "sound_packet d"
  shows "\<exists>g'. process_packet e d g = Some g' \<and> c_queue g' = c_queue g \<and> ready e g' img \<and> kept g0 g' \<and>
    log_view e F vs g0 g' (evs @ (case event_for e (c_regex g0) (c_region g0) img d of None \<Rightarrow> [] | Some ev \<Rightarrow> [ev]))"
proof -
  obtain m where m: "c_string d = Some m" "length m < 231" and
    kinds: "(\<exists>msg rest. m = message_text msg @ rest \<and> message_ok msg \<and> no_nul (message_text msg) \<and> length (dnsRet msg) < 64 \<and>
        length (domain msg) < 128 \<and> (rest = [] \<or> \<not> is_digit (hd rest))) \<or>
      (\<exists>r x. PraseMessage 64 128 m no_message = Some (r, x) \<and> r \<noteq> 0)" using d unfolding sound_packet_def by blast
  note kf = k [unfolded kept_def]
  show ?thesis
  proof (cases "\<exists>r x. PraseMessage 64 128 m no_message = Some (r, x) \<and> r \<noteq> 0")
    case True
    then obtain c x where cx: "PraseMessage 64 128 m no_message = Some (c, x)" "c \<noteq> 0" by blast
    then show ?thesis using r v k by (simp add: refused_packet [OF m(1) cx])
  next
    case False
    then obtain msg rest where msg: "m = message_text msg @ rest" "message_ok msg" "no_nul (message_text msg)" "length (dnsRet msg) < 64"
      "length (domain msg) < 128" "rest = [] \<or> \<not> is_digit (hd rest)" using kinds by blast
    have pm: "PraseMessage 64 128 m no_message = Some (0, msg)"
      unfolding msg(1) by (rule PraseMessage_message [OF msg(2,6,4,5)])
    obtain G where G: "forest_ok (c_items g) (G @ F) (rev evs @ vs)" using v by (auto simp: log_view_def)
    define nm where "nm = shown_name (get_pid_name (procfs e) (name_memory e) (pid msg))"
    note P = process_packet_ok [OF r _ msg(2-5,6) m(1) [unfolded msg(1)] m(2) [unfolded msg(1)], folded msg(1), folded nm_def]
    obtain g' ts rs where g': "process_packet e d g = Some g'" "ready e g' img" "c_queue g' = c_queue g"
      and f: "found_ip_addresses (engine e) (text_memory e) (c_regex g) m 0 (replicate 32 None) = Some (length ts, rs)"
        "take (length ts) rs = map Some ts"
      using P [OF G] by blast
    have ad: "addresses_in e (c_regex g0) m = ts" using f kf by (simp add: addresses_in_def)
    define ips where "ips = filter (flagged (c_region g0) img) ts"
    have ev: "event_for e (c_regex g0) (c_region g0) img d =
        (if ips = [] then None else Some (event_item (dnsRet msg) (domain msg) (uid msg) (pid msg) nm ips))"
      by (simp add: event_for_def m(1) pm ad ips_def nm_def Let_def)
    have step: "if ips = [] then c_lib g' = c_lib g \<and> c_items g' = c_items g
        else logged_event e (G @ F) (rev evs @ vs) g g' (event_item (dnsRet msg) (domain msg) (uid msg) (pid msg) nm ips)"
      if "forest_ok (c_items g) (G @ F) (rev evs @ vs)" for G
      using P [OF that] g'(1) f kf by (auto simp: ips_def Let_def)
    have "kept g0 g'" by (rule process_packet_kept [OF g'(1) k])
    moreover have "log_view e F vs g0 g' (evs @ (case event_for e (c_regex g0) (c_region g0) img d of None \<Rightarrow> [] | Some ev \<Rightarrow> [ev]))"
    proof (cases "ips = []")
      case True
      then show ?thesis using step [OF G] v ev by (simp add: log_view_def)
    next
      case False
      then show ?thesis using log_view_more [OF v, of g' "event_item (dnsRet msg) (domain msg) (uid msg) (pid msg) nm ips"] step kf ev by simp
    qed
    ultimately show ?thesis using g' by blast
  qed
qed

section \<open>The service refines the abstract one\<close>

definition serves :: "('c, 'h, 's) env \<Rightarrow> byte list \<Rightarrow> jtree list \<Rightarrow> cJSON list \<Rightarrow> ('c, 'h, 's) client \<Rightarrow> ('c, 'h, 's) service \<Rightarrow> spec_state \<Rightarrow> bool" where
  "serves e img F vs g0 s a \<longleftrightarrow> queue_view (c_queue g0) (c_queue (client s)) (held s) (pending a) (busy a) \<and>
     log_view e F vs g0 (client s) (events a) \<and> kept g0 (client s) \<and> ready e (client s) img \<and> listening s = receiving a \<and>
     (\<forall>d \<in> set (pending a) \<union> set_option (busy a). sound_packet d)"

lemma queue_view_held: "queue_view q0 q h ds d \<Longrightarrow> h = None \<longleftrightarrow> d = None"
  by (auto simp: queue_view_def split: option.splits)

lemma receive_serves:
  assumes s: "serves e img F vs g0 s a" and n: "allowed (Datagram new data) s"
  shows "\<exists>s'. receive new data s = Some s' \<and> serves e img F vs g0 s' (spec_step f (Datagram new data) a)"
proof (cases "listening s")
  case True
  obtain g' where g': "udp_round new data (client s) = Some g'" "queue_view (c_queue g0) (c_queue g') (held s)
      (if new \<noteq> None \<and> length (pending a) \<le> 1000 \<and> 20 \<le> length data then pending a @ [data] else pending a) (busy a)"
    using queue_view_push [of "c_queue g0" "client s" "held s" "pending a" "busy a" new data] s n by (auto simp: serves_def)
  have e: "g' = client s\<lparr>c_queue := c_queue g'\<rparr>" by (rule udp_round_frame [OF g'(1)])
  have k: "kept g0 g'" "log_view e F vs g0 g' (events a)" "ready e g' img"
    using s unfolding serves_def by (subst e, simp)+
  show ?thesis using True g' k s n by (auto simp: receive_def serves_def)
next
  case False
  then show ?thesis using s by (auto simp: receive_def serves_def)
qed

lemma work_serves:
  assumes s: "serves e img F vs g0 s a"
  shows "\<exists>s'. work e s = Some s' \<and> serves e img F vs g0 s' (spec_step (event_for e (c_regex g0) (c_region g0) img) Work a)"
proof (cases "held s")
  case None
  then have b: "busy a = None" using s queue_view_held unfolding serves_def by blast
  obtain q h where q: "worker_take (client s) = Some (h, client s\<lparr>c_queue := q\<rparr>)"
    "queue_view (c_queue g0) q h (tl (pending a)) (case pending a of [] \<Rightarrow> None | d # ds \<Rightarrow> Some d)"
    using queue_view_take [of "c_queue g0" "client s" "pending a"] s None b by (auto simp: serves_def)
  show ?thesis using q s None b by (cases "pending a") (auto simp: work_def serves_def)
next
  case (Some h)
  have "busy a \<noteq> None" using s Some queue_view_held unfolding serves_def by (metis option.distinct(1))
  then obtain d where b: "busy a = Some d" by blast
  obtain nd q where nd: "nodes (c_queue (client s)) h = Some nd" "ndata nd = d" "free_node h (c_queue (client s)) = Some q"
    "queue_view (c_queue g0) q None (pending a) None"
    using queue_view_free [of "c_queue g0" "c_queue (client s)" h "pending a" d] s Some b by (auto simp: serves_def)
  have d: "sound_packet d" "ready e (client s) img" "log_view e F vs g0 (client s) (events a)" "kept g0 (client s)"
    using s b by (auto simp: serves_def)
  obtain g' where g': "process_packet e d (client s) = Some g'" "c_queue g' = c_queue (client s)" "ready e g' img" "kept g0 g'"
    "log_view e F vs g0 g' (events a @ (case event_for e (c_regex g0) (c_region g0) img d of None \<Rightarrow> [] | Some ev \<Rightarrow> [ev]))"
    using packet_logged [OF d(2,3,4,1)] by blast
  have "worker_finish e h (client s) = Some (g'\<lparr>c_queue := q\<rparr>)" using nd g'(1,2) by (simp add: worker_finish_def)
  then show ?thesis using nd(4) g' s Some b by (simp add: work_def serves_def)
qed

interpretation dns: forward_simulation "service_step e" allowed "spec_step (event_for e (c_regex g0) (c_region g0) img)" "serves e img F vs g0"
  for e :: "('c, 'h, 's) env" and g0 img F vs
proof unfold_locales
  fix s :: "('c, 'h, 's) service" and a x
  assume s: "serves e img F vs g0 s a" and x: "allowed x s"
  show "\<exists>s'. service_step e x s = Some s' \<and> serves e img F vs g0 s' (spec_step (event_for e (c_regex g0) (c_region g0) img) x a)"
  proof (cases x)
    case (Datagram new data)
    then show ?thesis using receive_serves [OF s] x by simp
  next
    case Recv_Error
    then show ?thesis using s by (auto simp: receive_error_def serves_def)
  next
    case Work
    then show ?thesis using work_serves [OF s] by simp
  qed
qed

lemma start_serves:
  assumes "ready e g img" "queue_ok (c_queue g) []" "forest_ok (c_items g) F vs"
  shows "serves e img F vs g (udp_server_start socket_ret bind_ret g) (spec_start (0 \<le> socket_ret \<and> 0 \<le> bind_ret))"
proof -
  have "queue_view (c_queue g) (c_queue g) None [] None"
    using assms(2) by (auto simp: queue_view_def packets_def)
  moreover have "log_view e F vs g g []" using assms(3) unfolding log_view_def by (intro exI [of _ "[]"]) simp
  ultimately show ?thesis using assms(1) by (auto simp: serves_def spec_start_def udp_server_start_def kept_def)
qed

text \<open>
  C2: the DNS service as a whole. From a client that is set up, whatever \<open>socket\<close> and \<open>bind\<close> return and in whatever order
  datagrams, receive errors and moves of the worker come, nothing undefined happens, as long as the packets are terminated
  messages or refused texts, shorter than 231 characters. The queue then holds the packets that the abstract service
  holds, in order, the worker has its packet in hand, and the log library got one entry for each of its events, in
  order, each with a text that parses back to the event.
\<close>

theorem service_refines:
  assumes "ready e g img" "queue_ok (c_queue g) []" "forest_ok (c_items g) F vs"
    and "admitted (service_step e) allowed acts (udp_server_start socket_ret bind_ret g)"
  shows "\<exists>s as ts. run (service_step e) acts (udp_server_start socket_ret bind_ret g) = Some s \<and>
    (let a = fold (spec_step (event_for e (c_regex g) (c_region g) img)) acts (spec_start (0 \<le> socket_ret \<and> 0 \<le> bind_ret)) in
     queue_ok (c_queue (client s)) as \<and> packets (c_queue (client s)) as = pending a \<and>
     map_option (node_data (c_queue (client s))) (held s) = busy a \<and> listening s = receiving a \<and>
     list_all2 (entry e) ts (events a) \<and> c_lib (client s) = fold (write_entry e (c_log g)) ts (c_lib g))"
proof -
  obtain s where s: "run (service_step e) acts (udp_server_start socket_ret bind_ret g) = Some s"
    "serves e img F vs g s (fold (spec_step (event_for e (c_regex g) (c_region g) img)) acts (spec_start (0 \<le> socket_ret \<and> 0 \<le> bind_ret)))"
    using dns.run_simulates [OF start_serves [OF assms(1-3)] assms(4)] by blast
  then show ?thesis
    by (auto simp: serves_def queue_view_def log_view_def Let_def split: option.splits)
qed

section \<open>From the start of the program to its end\<close>

lemma stop_ok:
  assumes r: "ready e g img" and q: "queue_ok (c_queue g) as" and v: "c_index g = Some v" "0 < vlength v" and h: "c_log g \<noteq> None"
  shows "\<exists>g'. Stop_And_Exit e g = Some (0, g') \<and> g_queue (c_queue g') = None \<and> nodes (c_queue g') = nodes (c_queue g) |` (- set as) \<and>
    handle (c_searcher g') = None \<and> c_index g' = None \<and> re (matcher (c_regex g')) = NullCode \<and> c_log g' = None \<and>
    c_lib g' = Selog_Deinit (log_lib e) (c_log g) (c_lib g)"
proof -
  obtain c where c: "re (matcher (c_regex g)) = Code c" using r by (auto simp: ready_def)
  obtain m where m: "bufferDestroy (c_queue g) = Some m" "g_queue m = None" "nodes m = nodes (c_queue g) |` (- set as)"
    using bufferDestroy_ok [OF q] by blast
  have x: "handle (xdb_close y) = None" for y by (simp add: xdb_close_def)
  show ?thesis
    using c m v h x
    by (simp add: Stop_And_Exit_def ip2region_deinit_def xdb_close_vector_index_def destroy_regex_def regex_free_def log_deinit_def Let_def)
qed

text \<open>What the signal handler leaves behind: everything released, but for the node that the worker may have in hand.\<close>

definition released :: "('c, 'h, 's) client \<Rightarrow> ('c, 'h, 's) service \<Rightarrow> ('c, 'h, 's) client \<Rightarrow> bool" where
  "released g0 s g \<longleftrightarrow> g_queue (c_queue g) = None \<and> dom (nodes (c_queue g)) = dom (nodes (c_queue g0)) \<union> set_option (held s) \<and>
     handle (c_searcher g) = None \<and> c_index g = None \<and> re (matcher (c_regex g)) = NullCode \<and> c_log g = None"

lemma serves_stop:
  assumes s: "serves e img F vs g0 s a" and v: "c_index g0 = Some v" "0 < vlength v" "c_log g0 \<noteq> None"
  shows "\<exists>g ts. Stop_And_Exit e (client s) = Some (0, g) \<and> released g0 s g \<and> list_all2 (entry e) ts (events a) \<and>
    c_lib g = Selog_Deinit (log_lib e) (c_log g0) (fold (write_entry e (c_log g0)) ts (c_lib g0))"
proof -
  have r: "ready e (client s) img" and k: "kept g0 (client s)" using s by (simp_all add: serves_def)
  have "queue_view (c_queue g0) (c_queue (client s)) (held s) (pending a) (busy a)" using s by (simp add: serves_def)
  then obtain as where as: "queue_ok (c_queue (client s)) as" and hc: "case held s of None \<Rightarrow> busy a = None
      | Some b \<Rightarrow> b \<notin> set as \<and> nodes (c_queue (client s)) b \<noteq> None \<and> busy a = Some (node_data (c_queue (client s)) b)"
    and d: "dom (nodes (c_queue (client s))) = dom (nodes (c_queue g0)) \<union> set as \<union> set_option (held s)"
      "dom (nodes (c_queue g0)) \<inter> (set as \<union> set_option (held s)) = {}"
    unfolding queue_view_def by blast
  have h: "\<forall>b. held s = Some b \<longrightarrow> b \<notin> set as" using hc by auto
  obtain ts where ts: "list_all2 (entry e) ts (events a)" "c_lib (client s) = fold (write_entry e (c_log g0)) ts (c_lib g0)"
    using s by (auto simp: serves_def log_view_def)
  have kf: "c_index (client s) = Some v" "c_log (client s) \<noteq> None" "c_log (client s) = c_log g0"
    using k v by (simp_all add: kept_def)
  obtain g where g: "Stop_And_Exit e (client s) = Some (0, g)" "g_queue (c_queue g) = None"
    "nodes (c_queue g) = nodes (c_queue (client s)) |` (- set as)" "handle (c_searcher g) = None" "c_index g = None"
    "re (matcher (c_regex g)) = NullCode" "c_log g = None" "c_lib g = Selog_Deinit (log_lib e) (c_log (client s)) (c_lib (client s))"
    using stop_ok [OF r as kf(1) v(2) kf(2)] by blast
  have "dom (nodes (c_queue g)) = dom (nodes (c_queue g0)) \<union> set_option (held s)" using d h by (auto simp: g(3))
  then have "released g0 s g" using g by (simp add: released_def)
  then show ?thesis using g(1,8) ts kf(3) by auto
qed

text \<open>
  C1: from the command line to the exit. After a good start, and for every sequence of datagrams, receive errors and moves of
  the worker in which the surroundings keep to \<open>allowed\<close> (\<open>malloc\<close> gives new nodes; datagrams are shorter than 1024 bytes,
  and those of 20 bytes or more are terminated and shorter than 231 characters and are either a message of the resolver
  whose fields fit or a text that \<open>PraseMessage\<close> refuses), nothing undefined happens, and the signal handler, when it runs
  after the sequence and thus between two moves, finds a state that it can take down: it exits with 0, every packet of the
  queue is freed (the worker's packet in hand is not), the database, the pattern and the log handle are released, and
  the log library got, before it was closed, one entry for each event of the abstract service, in order, for the
  region and the database that the command line named. Datagrams outside \<open>allowed\<close> are the subject of
  \<open>udp_round_cases\<close> and \<open>unterminated_packet_overread\<close>, and a handler that runs inside a queue call that of
  \<open>destroy_inside_queue_call\<close>.
\<close>

theorem daemon_lifecycle:
  assumes netd: "\<And>i. fst (NetdBinderInit (netd k) i) = 0" and opts: "options_ok opts" "option_value ''-c'' opts = Some cfg"
    "option_value ''-d'' opts = Some p" "option_value ''-l'' opts = Some l" "p \<noteq> []" "l \<noteq> []" and ok: "startable e g p l f"
    and F: "forest_ok (c_items g) F vs"
  shows "\<exists>i1 st g1. main_start netd e (Some q) (prog # arguments opts) i g = Some (Inr (i1, st, g1)) \<and>
    (\<forall>socket_ret bind_ret acts. admitted (service_step e) allowed acts (udp_server_start socket_ret bind_ret g1) \<longrightarrow>
      (\<exists>s g2 ts. run (service_step e) acts (udp_server_start socket_ret bind_ret g1) = Some s \<and>
        Stop_And_Exit e (client s) = Some (0, g2) \<and> released g1 s g2 \<and>
        list_all2 (entry e) ts (events (fold (spec_step (event_for e (c_regex g1) (chosen_region opts 0) (fbytes f))) acts
          (spec_start (0 \<le> socket_ret \<and> 0 \<le> bind_ret)))) \<and>
        c_lib g2 = Selog_Deinit (log_lib e) (c_log g1) (fold (write_entry e (c_log g1)) ts (c_lib g1))))"
proof -
  obtain i1 st g1 where m: "main_start netd e (Some q) (prog # arguments opts) i g = Some (Inr (i1, st, g1))"
    and g1: "ready e g1 (fbytes f)" "queue_ok (c_queue g1) []" "c_region g1 = chosen_region opts 0" "c_items g1 = c_items g"
      "c_log g1 \<noteq> None" "\<exists>v. c_index g1 = Some v \<and> 0 < vlength v"
    using main_start_ready [of netd k opts cfg p l e g f q prog i] netd opts ok by metis
  have F1: "forest_ok (c_items g1) F vs" using F g1(4) by simp
  show ?thesis
  proof (intro exI [of _ i1] exI [of _ st] exI [of _ g1] conjI allI impI)
    fix socket_ret bind_ret acts
    assume "admitted (service_step e) allowed acts (udp_server_start socket_ret bind_ret g1)"
    from dns.run_simulates [OF start_serves [OF g1(1,2) F1] this] g1(3) obtain s where
      s: "run (service_step e) acts (udp_server_start socket_ret bind_ret g1) = Some s"
        "serves e (fbytes f) F vs g1 s (fold (spec_step (event_for e (c_regex g1) (chosen_region opts 0) (fbytes f))) acts
          (spec_start (0 \<le> socket_ret \<and> 0 \<le> bind_ret)))" by auto
    obtain v where "c_index g1 = Some v" "0 < vlength v" using g1(6) by blast
    from serves_stop [OF s(2) this g1(5)] s(1)
    show "\<exists>s g2 ts. run (service_step e) acts (udp_server_start socket_ret bind_ret g1) = Some s \<and>
        Stop_And_Exit e (client s) = Some (0, g2) \<and> released g1 s g2 \<and>
        list_all2 (entry e) ts (events (fold (spec_step (event_for e (c_regex g1) (chosen_region opts 0) (fbytes f))) acts
          (spec_start (0 \<le> socket_ret \<and> 0 \<le> bind_ret)))) \<and>
        c_lib g2 = Selog_Deinit (log_lib e) (c_log g1) (fold (write_entry e (c_log g1)) ts (c_lib g1))" by blast
  qed (rule m)
qed

section \<open>A receiver that has ended\<close>

definition is_datagram :: "activity \<Rightarrow> bool" where
  "is_datagram x \<longleftrightarrow> (\<exists>new data. x = Datagram new data)"

lemma step_deaf: "service_step e x s = Some s' \<Longrightarrow> \<not> listening s \<Longrightarrow> \<not> listening s'"
  by (cases x) (auto simp: receive_def receive_error_def work_def split: bind_splits option.splits prod.splits)

lemma run_deaf: "\<not> listening s \<Longrightarrow> run (service_step e) acts s = run (service_step e) (filter (\<lambda>x. \<not> is_datagram x) acts) s"
proof (induction acts arbitrary: s)
  case (Cons x acts)
  show ?case
  proof (cases "is_datagram x")
    case True
    then have "service_step e x s = Some s" using Cons.prems by (auto simp: is_datagram_def receive_def)
    then show ?thesis using True Cons by simp
  next
    case False
    then show ?thesis using Cons step_deaf [of e x s] by (auto split: bind_split)
  qed
qed simp

text \<open>
  C30: one error of \<open>recvfrom\<close> (an interrupted call will do), and the daemon runs on without its receiver: the datagrams that
  come later might as well not have been sent. The same holds from the start if \<open>socket\<close> or \<open>bind\<close> fails; after a failed
  \<open>bind\<close> the socket also stays open.
\<close>

theorem receiver_ends:
  "run (service_step e) (acts @ Recv_Error # later) s = run (service_step e) (acts @ Recv_Error # filter (\<lambda>x. \<not> is_datagram x) later) s \<and>
   (socket_ret < 0 \<or> bind_ret < 0 \<longrightarrow>
     run (service_step e) later (udp_server_start socket_ret bind_ret g) =
       run (service_step e) (filter (\<lambda>x. \<not> is_datagram x) later) (udp_server_start socket_ret bind_ret g)) \<and>
   (0 \<le> socket_ret \<and> bind_ret < 0 \<longrightarrow> server_fd (udp_server_start socket_ret bind_ret g) = Some socket_ret)"
proof (intro conjI impI)
  have "run (service_step e) later (receive_error s) = run (service_step e) (filter (\<lambda>x. \<not> is_datagram x) later) (receive_error s)" for s
    by (rule run_deaf) (simp add: receive_error_def)
  then show "run (service_step e) (acts @ Recv_Error # later) s = run (service_step e) (acts @ Recv_Error # filter (\<lambda>x. \<not> is_datagram x) later) s"
    by (cases "run (service_step e) acts s") (simp_all add: run_append)
  show "run (service_step e) later (udp_server_start socket_ret bind_ret g) =
      run (service_step e) (filter (\<lambda>x. \<not> is_datagram x) later) (udp_server_start socket_ret bind_ret g)"
    if "socket_ret < 0 \<or> bind_ret < 0"
    by (rule run_deaf) (use that in \<open>auto simp: udp_server_start_def\<close>)
  show "server_fd (udp_server_start socket_ret bind_ret g) = Some socket_ret" if "0 \<le> socket_ret \<and> bind_ret < 0"
    using that by (simp add: udp_server_start_def)
qed

section \<open>A concrete run\<close>

lemma demo_datagram_sound: "nodes (c_queue demo_client) 2 = None" "length demo_datagram < 1024" "sound_packet demo_datagram"
proof -
  have d: "demo_datagram = (message_text demo_dns @ '';8.8.8.8;'') @ [NUL]" by (simp add: demo_datagram_def)
  have nn: "no_nul (message_text demo_dns @ '';8.8.8.8;'')" unfolding demo_datagram_eval by (simp add: no_nul_def)
  then have c: "c_string demo_datagram = Some (message_text demo_dns @ '';8.8.8.8;'')" unfolding d by (rule c_string_terminated)
  have l: "length (message_text demo_dns @ '';8.8.8.8;'') < 231" unfolding demo_datagram_eval by simp
  show "length demo_datagram < 1024" using l unfolding d by simp
  show "nodes (c_queue demo_client) 2 = None" by (simp add: demo_client_def)
  have "no_nul (message_text demo_dns)" using nn by (simp add: no_nul_def)
  moreover have "\<not> is_digit (hd '';8.8.8.8;'')" by (simp add: is_digit_def)
  ultimately show "sound_packet demo_datagram" unfolding sound_packet_def using c l demo_dns_ok by blast
qed

definition demo_activities :: "activity list" where
  "demo_activities = [Datagram (Some 2) demo_datagram, Work, Work]"

lemma demo_admitted:
  assumes "nodes (c_queue g) 2 = None"
  shows "admitted (service_step e) allowed demo_activities (udp_server_start 3 0 g)"
  using demo_datagram_sound(2,3) assms
  by (simp add: demo_activities_def udp_server_start_def split: option.split)

theorem service_refines_witness:
  "\<exists>s as ts. run (service_step demo_env) demo_activities (udp_server_start 3 0 demo_client) = Some s \<and>
    (let a = fold (spec_step (event_for demo_env (c_regex demo_client) (c_region demo_client) zero_db)) demo_activities (spec_start (0 \<le> (3 :: int) \<and> 0 \<le> (0 :: int))) in
     queue_ok (c_queue (client s)) as \<and> packets (c_queue (client s)) as = pending a \<and>
     map_option (node_data (c_queue (client s))) (held s) = busy a \<and> listening s = receiving a \<and>
     list_all2 (entry demo_env) ts (events a) \<and> c_lib (client s) = fold (write_entry demo_env (c_log demo_client)) ts (c_lib demo_client))"
proof (rule service_refines [OF demo_ready _ demo_forest])
  show "queue_ok (c_queue demo_client) []" using demo_queue_ok by (simp add: demo_client_def)
  show "admitted (service_step demo_env) allowed demo_activities (udp_server_start 3 0 demo_client)"
    by (rule demo_admitted) (rule demo_datagram_sound(1))
qed

theorem daemon_lifecycle_witness:
  "\<exists>i1 st g1. main_start demo_netd demo_env (Some 1) (''fw'' # arguments demo_options) \<lparr>mNetd = None, oemNetd = None\<rparr> demo_stopped =
      Some (Inr (i1, st, g1)) \<and>
    (\<exists>s g2 ts. run (service_step demo_env) (demo_activities @ [Recv_Error, Work]) (udp_server_start 3 0 g1) = Some s \<and>
      Stop_And_Exit demo_env (client s) = Some (0, g2) \<and> released g1 s g2 \<and>
      list_all2 (entry demo_env) ts (events (fold (spec_step (event_for demo_env (c_regex g1) (chosen_region demo_options 0) (fbytes zero_file)))
        (demo_activities @ [Recv_Error, Work]) (spec_start True))) \<and>
      c_lib g2 = Selog_Deinit (log_lib demo_env) (c_log g1) (fold (write_entry demo_env (c_log g1)) ts (c_lib g1)))"
proof -
  obtain i1 st g1 where g1: "main_start demo_netd demo_env (Some 1) (''fw'' # arguments demo_options) \<lparr>mNetd = None, oemNetd = None\<rparr> demo_stopped =
      Some (Inr (i1, st, g1))" and
    run: "\<forall>socket_ret bind_ret acts. admitted (service_step demo_env) allowed acts (udp_server_start socket_ret bind_ret g1) \<longrightarrow>
      (\<exists>s g2 ts. run (service_step demo_env) acts (udp_server_start socket_ret bind_ret g1) = Some s \<and>
        Stop_And_Exit demo_env (client s) = Some (0, g2) \<and> released g1 s g2 \<and>
        list_all2 (entry demo_env) ts (events (fold (spec_step (event_for demo_env (c_regex g1) (chosen_region demo_options 0) (fbytes zero_file))) acts
          (spec_start (0 \<le> socket_ret \<and> 0 \<le> bind_ret)))) \<and>
        c_lib g2 = Selog_Deinit (log_lib demo_env) (c_log g1) (fold (write_entry demo_env (c_log g1)) ts (c_lib g1)))"
    using daemon_lifecycle [of demo_netd 2, OF demo_netd_ok demo_options_ok _ _ demo_startable demo_stopped_fresh(1), of 1 "''fw''"
        "\<lparr>mNetd = None, oemNetd = None\<rparr>"] by auto
  have "nodes (c_queue g1) 2 = None"
    using main_start_ready [of demo_netd 2, OF demo_netd_ok demo_options_ok _ _ demo_startable, of 1 "''fw''" "\<lparr>mNetd = None, oemNetd = None\<rparr>"]
      g1 demo_stopped_fresh(2) by auto
  then have a: "admitted (service_step demo_env) allowed (demo_activities @ [Recv_Error, Work]) (udp_server_start 3 0 g1)"
    using demo_datagram_sound(2,3) by (simp add: demo_activities_def udp_server_start_def split: option.split)
  have "(0 :: int) \<le> 3 \<and> (0 :: int) \<le> 0 \<longleftrightarrow> True" by simp
  with run [rule_format, OF a] g1 show ?thesis by metis
qed

theorem receiver_ends_witness:
  "run (service_step demo_env) [Datagram (Some 2) demo_datagram, Work] (udp_server_start 3 (- 1) demo_client) =
     run (service_step demo_env) [Work] (udp_server_start 3 (- 1) demo_client) \<and>
   server_fd (udp_server_start 3 (- 1) demo_client) = Some 3"
  using receiver_ends [of demo_env "[]" "[Datagram (Some 2) demo_datagram, Work]" "udp_server_start 3 (- 1) demo_client" 3 "- 1" demo_client]
  by (simp add: is_datagram_def)

end
