(* ===== verification/Spec2Isabelle.thy ===== *)
theory Spec2Isabelle
  imports Queue_Threads Cjson_Limits Cjson_Roundtrip Cjson_Minify Cjson_Duplicate Service
begin

text \<open>
  A model of \<open>ioemnetd\<close>, an Android daemon in C and C++. It sends the firewall rules of a configuration file
  to the network service, and it receives messages about DNS answers over UDP, locates the addresses in them with an
  ip2region database, and logs a JSON event for the addresses that lie in the region that is not expected.

  \<^bold>\<open>The program's parts and how they interact.\<close> \<open>main\<close> (\<open>binder_client.cpp\<close>) connects to the service, reads the command
  line, passes its settings to the DNS client (\<open>set_region\<close>, \<open>set_db_path\<close>, \<open>set_log_path\<close>, \<open>dns_client_init\<close>) and starts
  three threads: \<open>firewall_thread\<close> applies the configuration file; \<open>udp_server_loop\<close> puts each datagram into the packet queue
  (\<open>queue.c\<close>); \<open>main_loop\<close> takes packets out, parses them, finds the addresses (\<open>ip_resolver.c\<close>, over PCRE2), looks them
  up (\<open>xdb_searcher.c\<close>), builds an object (\<open>cJSON.c\<close>), prints it and writes it to the log (\<open>selog.h\<close>, a binary library).
  \<open>oemListener.cpp\<close> is the service side: it wraps rules for \<open>iptables-restore\<close> and keeps a registry of listeners.

  \<^bold>\<open>The theories.\<close>
  \<^item> \<open>Prelude\<close>: C types, strings as they lie in memory, \<open>printf\<close> of \<open>%d\<close>, \<open>strstr\<close>, pointers and heaps, shared lemmas.
  \<^item> \<open>Fifo\<close>: the interface \<open>packet_fifo\<close> between the threads and the queue, with its client lemma on runs.
  \<^item> \<open>Queue\<close> (\<open>queue.c\<close>, \<open>queue.h\<close>): list macros, spin lock and queue calls over a heap of nodes (\<open>qmem\<close>). \<open>queue_ok\<close> is the
    invariant: a doubly linked list with its header's counts, the lock free. The queue interprets \<open>packet_fifo\<close>.
  \<^item> \<open>Queue_Threads\<close>: receiver and worker as interleaved steps (\<open>thr_step\<close>, inductive, a step per lock exchange and per
    critical section): mutual exclusion, order, progress, bounds, for every schedule. The receiver's end and the undefined behaviour of either
    thread outside the queue calls are steps too; what the signal handler does to a thread inside a queue call is a lemma.
  \<^item> \<open>Xdb\<close> (\<open>xdb_searcher.c\<close>, \<open>xdb_searcher.h\<close>): decoding, loading, the three ways to open a database, the binary search, address
    texts. The locale \<open>xdb_source\<close> states what a way of reading promises; all three interpret it, and the search is proved once.
  \<^item> \<open>Ip_Resolver\<close> (\<open>ip_resolver.c\<close>): the pattern, the state of the matcher, the search loop. PCRE2 is the locale
    \<open>pcre2_engine\<close>: a match lies in the subject and its text is one that the pattern accepts; a backtracking matcher interprets it.
  \<^item> \<open>Cjson_Number\<close>, \<open>Cjson_Limits\<close>: binary64 numbers with \<open>strtod\<close> and the \<open>printf\<close> formats, as the code uses them.
  \<^item> \<open>Cjson_Print\<close>: the print buffer with its growth, and the printer, against the reference text \<open>json_text\<close>.
  \<^item> \<open>Cjson_Parse\<close>, \<open>Cjson_Roundtrip\<close>: the parser on its buffer; safety, termination, and the round trip with the printer.
  \<^item> \<open>Cjson_Heap\<close>, \<open>Cjson_Create\<close>: items in memory (\<open>jmem\<close>): the linked lists, lookup, insertion, replacement, deletion, creation,
    duplication. \<open>Cjson_Tree\<close>, \<open>Cjson_Members\<close>, \<open>Cjson_Build\<close>: trees that own their cells and strings, the item (\<open>tval\<close>)
    that a tree is in memory, what each operation does to them, and a client's view of a forest of items.
  \<^item> \<open>Cjson_Compare\<close>, \<open>Cjson_Duplicate\<close>: \<open>cJSON_Compare\<close> against a comparison of values, and that a duplicate is a further tree
    that compares equal. \<open>Cjson_Minify\<close>: the three loops of \<open>cJSON_Minify\<close> in place on a block, against a function on texts.
  \<^item> \<open>Dns_Message\<close> (\<open>PraseMessage\<close>, \<open>get_pid_name\<close>), \<open>Log_Client\<close> (\<open>log_init\<close>, \<open>log_write\<close>, \<open>log_deinit\<close>), \<open>Dns_Event\<close> (the event
    of \<open>main_loop\<close>), \<open>Dns_Client\<close> (the globals of \<open>dns_client.c\<close> as the record \<open>client\<close>; start, signal handler, one
    round of each loop).
  \<^item> \<open>Firewall\<close> (\<open>binder_client.cpp\<close>, \<open>oemListener.cpp\<close>): configuration file, rules and retries, command line, connection, service, registry.
  \<^item> \<open>Daemon\<close>: \<open>main\<close> up to the threads, and the theorem that follows a datagram from the socket to the log.
  \<^item> \<open>Simulation\<close>, \<open>Service\<close>: runs of a machine that reacts to activities and the interface \<open>forward_simulation\<close>; on it, the DNS
    service with its receiver (\<open>udp_server_loop\<close>, socket included) and its worker (\<open>main_loop\<close>) interleaved in any order, against an
    abstract service that keeps a list of packets and a list of events.

  \<^bold>\<open>Conventions.\<close> A result \<open>None\<close> is undefined behaviour: an access outside a block or through NULL, a missing terminator, a signed
  overflow; error codes and NULL results are values under \<open>Some\<close>. Allocations that can fail are arguments (\<open>malloc_ret\<close>,
  \<open>can_alloc\<close>, \<open>grant\<close>). \<open>int\<close> and \<open>unsigned\<close> are words where they can wrap and numbers with their range where the code
  keeps them in range. Strings are lists of bytes. Allocators decide on each request by itself: the printer and the parser
  ask with a \<open>request\<close> (size; level and position in the text), items in memory with their number. In two places the
  languages leave the meaning of a step open that every run takes: \<open>xdb_get_uint\<close> shifts negative numbers to the left, which is
  taken to wrap; and a \<open>std::string\<close> is passed in the variable arguments of \<open>stringPrintf\<close>, so that the text that comes of it, or
  that the call does not return, is a parameter (\<open>fmt\<close>) of which nothing is supposed.

  \<^bold>\<open>Fuel.\<close> \<open>parse_value\<close> gets one unit per level of nesting that \<open>CJSON_NESTING_LIMIT\<close> allows, and one more, and each loop over
  elements one per byte; \<open>parse_returns\<close> shows that this is enough. Loops over linked items get one unit per cell that memory
  holds or a bound by the caller, and the lemmas on well-formed trees show that it is enough. \<open>connect\<close>, which may wait for
  ever, is a partial function, and \<open>connect_returns\<close> shows when it returns. All other functions terminate by their measure.

  \<^bold>\<open>What the theorems show.\<close> From end to end: \<open>daemon_lifecycle\<close> and \<open>service_refines\<close>: in whatever
  order receiver and worker move, as long as the datagrams are ones that the code can take (\<open>allowed\<close>), the log gets the events of the
  packets in their order, and the signal handler, when it runs between two moves, takes the program down cleanly; \<open>datagram_reaches_log\<close> and \<open>main_round_logs_event\<close>: exactly the flagged addresses are
  logged, in an event whose text parses back. Below them: the queue is a queue, also under interleaving; the three kinds of
  searchers agree with the database; what is printed is parsed back; minifying undoes formatting; item operations neither lose nor leak
  memory, comparison is by value, a duplicate equals its original; rules reach
  \<open>iptables-restore\<close> once each, in order, under the table of their section, as long as the service survives. Errors: where the code goes wrong, a theorem gives the conditions
  (an unterminated datagram, a receive error, a missing database, a blank line in the configuration, masked log errors, a
  signal during a queue call).

  \<^bold>\<open>Interleaving.\<close> \<open>Queue_Threads\<close> interleaves lock exchanges, critical sections and local code; \<open>Service\<close> interleaves whole queue
  calls and the processing of whole packets, and runs the signal handler between them only. The code does not hold the handler back: in the
  middle of a queue call or of a lookup it races with the threads, and no theorem covers what follows.

  \<^bold>\<open>Not modelled.\<close> Socket addresses, thread names, sleeping, console output, \<open>xdb_now\<close> and the detaching of threads (pure effects);
  Binder, \<open>iptables-restore\<close>, PCRE2 and the log library (parameters, none of them in this repository); the macros of
  \<open>queue.h\<close> that do not compile (\<open>LIST_RPOP\<close>, \<open>LIST_GET\<close>, \<open>LIST_JUDGE_IN\<close>); the build files, the AIDL interface and the tests.
\<close>

end
